(* ===== verification/Prelude.thy ===== *)
theory Prelude
  imports Main "HOL-Library.Word" "HOL-Library.Char_ord" "HOL-Library.List_Lexorder"
begin

text \<open>
  Shared vocabulary of the development.

  \<^item> \<open>nix_error\<close>: a C++ exception as a value: the class that is thrown and the format string of
    its message (the interpolated arguments are not kept). \<open>AssertionFailure\<close> is a failing
    \<open>assert\<close>: \<open>src/src/libutil/util.cc\<close> refuses to compile with \<open>NDEBUG\<close>, so an assertion is
    part of the behaviour.
  \<^item> \<open>'a res\<close> and \<open>bind_res\<close>: a computation that may throw, and sequencing.
  \<^item> \<open>byte\<close>: \<open>uint8_t\<close> / \<open>std::byte\<close>; \<open>string\<close> (a list of 8-bit \<open>char\<close>) is \<open>std::string\<close>.
    The order on \<open>string\<close> (library theories \<open>Char_ord\<close> and \<open>List_Lexorder\<close>) is the
    lexicographic order on unsigned bytes, which is the order of \<open>std::string\<close>.
\<close>

section \<open>Errors\<close>

datatype err_class =
    Error | FormatError | BadHash | UsageError | SerialisationError | EndOfFile
  | BadCanonPath | BadStorePath | BadStorePathName | InvalidPath | AssertionFailure
  | SymlinkNotAllowed | NotADirectory | NotARegularFile | NotASymlink | FileNotFound
  | BadURL | MissingExperimentalFeature | EvalError | CycleError | UnimplementedError

datatype nix_error = NixError err_class string

type_synonym 'a res = "nix_error + 'a"

fun bind_res :: "'a res \<Rightarrow> ('a \<Rightarrow> 'b res) \<Rightarrow> 'b res" where
  "bind_res (Inl e) f = Inl e"
| "bind_res (Inr x) f = f x"

text \<open>\<open>assert_res b\<close> is \<open>assert(b)\<close>; \<open>throw_if b c msg\<close> is \<open>if (b) throw c(msg)\<close>.\<close>

definition assert_res :: "bool \<Rightarrow> unit res" where
  "assert_res b = (if b then Inr () else Inl (NixError AssertionFailure ''assert''))"

definition throw_if :: "bool \<Rightarrow> err_class \<Rightarrow> string \<Rightarrow> unit res" where
  "throw_if b c msg = (if b then Inl (NixError c msg) else Inr ())"

named_theorems res_simps \<open>unfolding of the exception vocabulary\<close>

lemma bind_res_Inr_iff [res_simps]:
  "(bind_res m f = Inr y) = (\<exists>x. m = Inr x \<and> f x = Inr y)"
  by (cases m) auto

lemma bind_res_Inl_iff:
  "(bind_res m f = Inl e) = (m = Inl e \<or> (\<exists>x. m = Inr x \<and> f x = Inl e))"
  by (cases m) auto

lemma bind_res_assoc: "bind_res (bind_res m f) g = bind_res m (\<lambda>x. bind_res (f x) g)"
  by (cases m) auto

lemma bind_res_return [simp]: "bind_res m Inr = m"
  by (cases m) auto

lemma bind_res_cong [fundef_cong]:
  "m = m' \<Longrightarrow> (\<And>x. m' = Inr x \<Longrightarrow> f x = f' x) \<Longrightarrow> bind_res m f = bind_res m' f'"
  by (cases m') auto

lemma assert_res_Inr [simp]: "(assert_res b = Inr x) = b"
  by (auto simp: assert_res_def)

lemma assert_res_True [simp]: "assert_res True = Inr ()"
  by (simp add: assert_res_def)

lemma throw_if_Inr [simp]: "(throw_if b c msg = Inr x) = (\<not> b)"
  by (auto simp: throw_if_def)

lemma throw_if_False [simp]: "throw_if False c msg = Inr ()"
  by (simp add: throw_if_def)

lemma throw_if_True [simp]: "throw_if True c msg = Inl (NixError c msg)"
  by (simp add: throw_if_def)

text \<open>A loop over a list whose body may throw.\<close>

fun map_res :: "('a \<Rightarrow> 'b res) \<Rightarrow> 'a list \<Rightarrow> 'b list res" where
  "map_res f [] = Inr []"
| "map_res f (x # xs) = bind_res (f x) (\<lambda>y. bind_res (map_res f xs) (\<lambda>ys. Inr (y # ys)))"

lemma map_res_Inr_iff:
  "(map_res f xs = Inr ys) = list_all2 (\<lambda>x y. f x = Inr y) xs ys"
  by (induction xs arbitrary: ys) (auto simp: res_simps list_all2_Cons1)

lemma map_res_total:
  "(\<And>x. x \<in> set xs \<Longrightarrow> f x = Inr (g x)) \<Longrightarrow> map_res f xs = Inr (map g xs)"
  by (induction xs) auto

lemma map_res_cong [fundef_cong]:
  "xs = ys \<Longrightarrow> (\<And>x. x \<in> set ys \<Longrightarrow> f x = g x) \<Longrightarrow> map_res f xs = map_res g ys"
  by (induction ys arbitrary: xs) auto

fun fold_res :: "('a \<Rightarrow> 's \<Rightarrow> 's res) \<Rightarrow> 'a list \<Rightarrow> 's \<Rightarrow> 's res" where
  "fold_res f [] s = Inr s"
| "fold_res f (x # xs) s = bind_res (f x s) (fold_res f xs)"

lemma fold_res_append:
  "fold_res f (xs @ ys) s = bind_res (fold_res f xs s) (fold_res f ys)"
  by (induction xs arbitrary: s) (auto simp: bind_res_assoc intro: bind_res_cong)

text \<open>A computation that may also not return: \<open>None\<close>.\<close>

fun bind_ro :: "'a res option \<Rightarrow> ('a \<Rightarrow> 'b res option) \<Rightarrow> 'b res option" where
  "bind_ro None f = None"
| "bind_ro (Some (Inl e)) f = Some (Inl e)"
| "bind_ro (Some (Inr x)) f = f x"

lemma bind_ro_Inr_iff [res_simps]:
  "(bind_ro m f = Some (Inr y)) = (\<exists>x. m = Some (Inr x) \<and> f x = Some (Inr y))"
  by (cases "(m, f)" rule: bind_ro.cases) auto

lemma bind_ro_None_iff: "(bind_ro m f = None) = (m = None \<or> (\<exists>x. m = Some (Inr x) \<and> f x = None))"
  by (cases "(m, f)" rule: bind_ro.cases) auto

lemma bind_ro_Some [simp]: "bind_ro (Some m) (\<lambda>x. Some (f x)) = Some (bind_res m f)"
  by (cases m) auto

lemma bind_ro_cong [fundef_cong]:
  "m = m' \<Longrightarrow> (\<And>x. m' = Some (Inr x) \<Longrightarrow> f x = f' x) \<Longrightarrow> bind_ro m f = bind_ro m' f'"
  by (cases "(m', f)" rule: bind_ro.cases) auto

fun fold_ro :: "('a \<Rightarrow> 's \<Rightarrow> 's res option) \<Rightarrow> 'a list \<Rightarrow> 's \<Rightarrow> 's res option" where
  "fold_ro f [] s = Some (Inr s)"
| "fold_ro f (x # xs) s = bind_ro (f x s) (fold_ro f xs)"

section \<open>Bytes and characters\<close>

type_synonym byte = "8 word"
type_synonym u32 = "32 word"
type_synonym u64 = "64 word"

definition byte_of_char :: "char \<Rightarrow> byte" where
  "byte_of_char c = of_nat (of_char c)"

definition char_of_byte :: "byte \<Rightarrow> char" where
  "char_of_byte b = char_of (unat b)"

lemma unat_byte_of_char [simp]: "unat (byte_of_char c) = of_char c"
  by (simp add: byte_of_char_def unat_of_nat)

lemma char_of_byte_of_char [simp]: "char_of_byte (byte_of_char c) = c"
  by (simp add: char_of_byte_def)

lemma byte_of_char_of_byte [simp]: "byte_of_char (char_of_byte b) = b"
proof -
  have "unat b < 256" using unsigned_less [of b, where ?'a = nat] by simp
  then have "unat (byte_of_char (char_of_byte b)) = unat b"
    unfolding unat_byte_of_char char_of_byte_def by (simp add: of_char_of)
  then show ?thesis by (simp only: word_unat_eq_iff)
qed

lemma byte_of_char_eq_iff [simp]: "(byte_of_char c = byte_of_char d) = (c = d)"
  by (metis char_of_byte_of_char)

lemma char_of_byte_eq_iff [simp]: "(char_of_byte a = char_of_byte b) = (a = b)"
  by (metis byte_of_char_of_byte)

definition bytes_of_string :: "string \<Rightarrow> byte list" where
  "bytes_of_string s = map byte_of_char s"

definition string_of_bytes :: "byte list \<Rightarrow> string" where
  "string_of_bytes bs = map char_of_byte bs"

lemma string_of_bytes_of_string [simp]: "string_of_bytes (bytes_of_string s) = s"
  by (simp add: string_of_bytes_def bytes_of_string_def comp_def)

lemma bytes_of_string_of_bytes [simp]: "bytes_of_string (string_of_bytes s) = s"
  by (simp add: string_of_bytes_def bytes_of_string_def comp_def)

lemma length_bytes_of_string [simp]: "length (bytes_of_string s) = length s"
  by (simp add: bytes_of_string_def)

lemma length_string_of_bytes [simp]: "length (string_of_bytes s) = length s"
  by (simp add: string_of_bytes_def)

text \<open>Splitting a number into quotient and remainder, for case distinctions on the remainder.\<close>

lemma div_mod_ex:
  assumes "0 < (k::nat)" shows "\<exists>q r. n = k * q + r \<and> r < k"
  by (intro exI [of _ "n div k"] exI [of _ "n mod k"]) (simp add: assms)

end
