(* ===== verification/Base_Encodings.thy ===== *)
theory Base_Encodings
  imports Prelude
begin

unbundle bit_operations_syntax

text \<open>
  The three textual encodings of byte strings: Base-16 and Base-64
  (\<open>src/src/libutil/base-n.cc\<close>) and the Nix variant of Base-32
  (\<open>src/src/libutil/base-nix-32.cc\<close>). Shared tool: the bits of a byte list, least significant
  first (\<open>bit_of\<close>) and most significant first (\<open>msb_bits\<close>).
\<close>

section \<open>Bit streams\<close>

definition bit_of :: "byte list \<Rightarrow> nat \<Rightarrow> bool" where
  "bit_of bs k = (k div 8 < length bs \<and> bit (bs ! (k div 8)) (k mod 8))"

lemma bit_of_ext:
  assumes len: "length xs = length ys" and bits: "\<And>k. bit_of xs k = bit_of ys k"
  shows "xs = ys"
proof (rule nth_equalityI [OF len])
  fix i assume i: "i < length xs"
  show "xs ! i = ys ! i"
  proof (rule bit_word_eqI)
    fix n assume n: "n < LENGTH(8)"
    have "bit_of xs (8 * i + n) = bit_of ys (8 * i + n)" by (rule bits)
    then show "bit (xs ! i) n = bit (ys ! i) n"
      using i len n by (simp add: bit_of_def)
  qed
qed

definition msb_bits :: "nat \<Rightarrow> 'a::semiring_bits \<Rightarrow> bool list" where
  "msb_bits n w = map (bit w) (rev [0..<n])"

lemma length_msb_bits [simp]: "length (msb_bits n w) = n"
  by (simp add: msb_bits_def)

lemma nth_msb_bits [simp]: "i < n \<Longrightarrow> msb_bits n w ! i = bit w (n - Suc i)"
  by (simp add: msb_bits_def rev_nth)

lemma msb_bits_0 [simp]: "msb_bits 0 w = []"
  by (simp add: msb_bits_def)

lemma msb_bits_eqI:
  "n = m \<Longrightarrow> (\<And>i. i < m \<Longrightarrow> bit v i = bit w i) \<Longrightarrow> msb_bits n v = msb_bits m w"
  by (auto simp: msb_bits_def)

lemma msb_bits_inj_byte:
  assumes "msb_bits 8 v = msb_bits 8 (w :: byte)" shows "v = w"
proof (rule bit_word_eqI)
  fix n assume "n < LENGTH(8)"
  moreover have "msb_bits 8 v ! (7 - n) = msb_bits 8 w ! (7 - n)" using assms by simp
  ultimately show "bit v n = bit w n" by simp
qed

lemma concat_msb_bits_inj:
  "concat (map (msb_bits 8) xs) = concat (map (msb_bits 8) ys) \<Longrightarrow> xs = (ys :: byte list)"
proof (induction xs arbitrary: ys)
  case Nil
  then show ?case by (cases ys) (auto simp: msb_bits_def)
next
  case (Cons x xs)
  then obtain y ys' where ys: "ys = y # ys'" by (cases ys) (auto simp: msb_bits_def)
  with Cons.prems have "msb_bits 8 x @ concat (map (msb_bits 8) xs) =
      msb_bits 8 y @ concat (map (msb_bits 8) ys')" by simp
  then have "msb_bits 8 x = msb_bits 8 y"
    and "concat (map (msb_bits 8) xs) = concat (map (msb_bits 8) ys')"
    by (auto simp: append_eq_append_conv)
  with Cons.IH ys show ?case by (auto dest: msb_bits_inj_byte)
qed

section \<open>Base-16\<close>

definition base16Chars :: string where
  "base16Chars = ''0123456789abcdef''"

definition base16_encodedLength :: "nat \<Rightarrow> nat" where
  "base16_encodedLength origSize = origSize * 2"

fun base16_encode :: "byte list \<Rightarrow> string" where
  "base16_encode [] = []"
| "base16_encode (b # bs) =
     base16Chars ! unat (drop_bit 4 b) # base16Chars ! unat (b AND 0x0f) # base16_encode bs"

definition parseHexDigit :: "char \<Rightarrow> nat res" where
  "parseHexDigit c =
     (if CHR ''0'' \<le> c \<and> c \<le> CHR ''9'' then Inr (of_char c - of_char (CHR ''0''))
      else if CHR ''A'' \<le> c \<and> c \<le> CHR ''F'' then Inr (of_char c - of_char (CHR ''A'') + 10)
      else if CHR ''a'' \<le> c \<and> c \<le> CHR ''f'' then Inr (of_char c - of_char (CHR ''a'') + 10)
      else Inl (NixError FormatError ''invalid character in Base16 string: %c''))"

fun base16_decode_loop :: "string \<Rightarrow> string res" where
  "base16_decode_loop (h # l # s) =
     bind_res (parseHexDigit h) (\<lambda>a.
     bind_res (parseHexDigit l) (\<lambda>b.
     bind_res (base16_decode_loop s) (\<lambda>r. Inr (char_of (push_bit 4 a OR b) # r))))"
| "base16_decode_loop _ = Inr []"

definition base16_decode :: "string \<Rightarrow> string res" where
  "base16_decode s =
     bind_res (assert_res (length s mod 2 = 0)) (\<lambda>_. base16_decode_loop s)"

section \<open>Nix Base-32\<close>

definition nix32_characters :: string where
  "nix32_characters = ''0123456789abcdfghijklmnpqrsvwxyz''"

text \<open>\<open>reverseMap\<close> is filled from \<open>characters\<close>; a character that is not there stays invalid.\<close>

fun index_of :: "'a \<Rightarrow> 'a list \<Rightarrow> nat option" where
  "index_of c [] = None"
| "index_of c (x # xs) = (if x = c then Some 0 else map_option Suc (index_of c xs))"

definition nix32_lookupReverse :: "char \<Rightarrow> byte option" where
  "nix32_lookupReverse c = map_option of_nat (index_of c nix32_characters)"

definition nix32_encodedLength :: "nat \<Rightarrow> nat" where
  "nix32_encodedLength originalLength = unat (of_nat originalLength * 8 - 1 :: u64) div 5 + 1"

definition nix32_digit :: "byte list \<Rightarrow> nat \<Rightarrow> byte" where
  "nix32_digit bs n =
     (let b = n * 5; i = b div 8; j = b mod 8;
          c = drop_bit j (bs ! i)
              OR (if length bs - 1 \<le> i then 0 else push_bit (8 - j) (bs ! (i + 1)))
      in c AND 0x1f)"

definition nix32_encode :: "byte list \<Rightarrow> string" where
  "nix32_encode bs =
     (if bs = [] then []
      else map (\<lambda>n. nix32_characters ! unat (nix32_digit bs n))
             (rev [0..<nix32_encodedLength (length bs)]))"

definition resize_bytes :: "nat \<Rightarrow> byte list \<Rightarrow> byte list" where
  "resize_bytes k xs = take k xs @ replicate (k - length xs) 0"

definition nix32_put :: "nat \<Rightarrow> byte \<Rightarrow> byte list \<Rightarrow> byte list" where
  "nix32_put n digit res =
     (let b = n * 5; i = b div 8; j = b mod 8;
          res1 = resize_bytes (i + 1) res;
          res2 = res1 [i := res1 ! i OR push_bit j digit]
      in if drop_bit (8 - j) digit \<noteq> 0
         then (let res3 = resize_bytes (i + 2) res2
               in res3 [i + 1 := res3 ! (i + 1) OR drop_bit (8 - j) digit])
         else res2)"

fun nix32_decode_loop :: "nat \<Rightarrow> string \<Rightarrow> byte list \<Rightarrow> byte list res" where
  "nix32_decode_loop n [] res = Inr res"
| "nix32_decode_loop n (c # cs) res =
     (case nix32_lookupReverse c of
        None \<Rightarrow> Inl (NixError FormatError ''invalid character in Nix32 (Base32 variation) string: %c'')
      | Some digit \<Rightarrow> nix32_decode_loop (n + 1) cs (nix32_put n digit res))"

definition nix32_decode :: "string \<Rightarrow> string res" where
  "nix32_decode s = bind_res (nix32_decode_loop 0 (rev s) []) (\<lambda>r. Inr (string_of_bytes r))"

section \<open>Base-64\<close>

definition base64Chars :: string where
  "base64Chars = ''ABCDEFGHIJKLMNOPQRSTUVWXYZabcdefghijklmnopqrstuvwxyz0123456789+/''"

definition base64_encodedLength :: "nat \<Rightarrow> nat" where
  "base64_encodedLength origSize = unat ((of_nat (4 * origSize div 3) + 3 :: u64) AND NOT 3)"

fun base64_flush :: "u32 \<Rightarrow> nat \<Rightarrow> string \<Rightarrow> nat \<times> string" where
  "base64_flush data nbits res =
     (if 6 \<le> nbits
      then base64_flush data (nbits - 6)
             (res @ [base64Chars ! unat (signed_drop_bit (nbits - 6) data AND 0x3f)])
      else (nbits, res))"

declare base64_flush.simps [simp del]

fun base64_encode_loop :: "byte list \<Rightarrow> u32 \<Rightarrow> nat \<Rightarrow> string \<Rightarrow> u32 \<times> nat \<times> string" where
  "base64_encode_loop [] data nbits res = (data, nbits, res)"
| "base64_encode_loop (c # s) data nbits res =
     (let data' = push_bit 8 data OR ucast c;
          (nbits', res') = base64_flush data' (nbits + 8) res
      in base64_encode_loop s data' nbits' res')"

definition base64_encode :: "byte list \<Rightarrow> string" where
  "base64_encode s =
     (let (data, nbits, res) = base64_encode_loop s 0 0 [];
          res' = (if nbits \<noteq> 0
                  then res @ [base64Chars ! unat (push_bit (6 - nbits) data AND 0x3f)] else res)
      in res' @ replicate ((4 - length res' mod 4) mod 4) (CHR ''=''))"

definition base64_digit :: "char \<Rightarrow> u32 option" where
  "base64_digit c = map_option of_nat (index_of c base64Chars)"

fun base64_decode_loop :: "string \<Rightarrow> u32 \<Rightarrow> nat \<Rightarrow> byte list \<Rightarrow> byte list res" where
  "base64_decode_loop [] d bits res = Inr res"
| "base64_decode_loop (c # s) d bits res =
     (if c = CHR ''='' then Inr res
      else if c = CHR 0x0A then base64_decode_loop s d bits res
      else case base64_digit c of
        None \<Rightarrow> Inl (NixError FormatError ''invalid character in Base64 string: %c'')
      | Some digit \<Rightarrow>
          (let bits' = bits + 6; d' = push_bit 6 d OR digit
           in if 8 \<le> bits'
              then base64_decode_loop s d' (bits' - 8)
                     (res @ [ucast (drop_bit (bits' - 8) d' AND 0xff)])
              else base64_decode_loop s d' bits' res))"

definition base64_decode :: "string \<Rightarrow> string res" where
  "base64_decode s = bind_res (base64_decode_loop s 0 0 []) (\<lambda>r. Inr (string_of_bytes r))"

section \<open>Base-16: round trip\<close>

lemma parseHexDigit_base16Chars: "i < 16 \<Longrightarrow> parseHexDigit (base16Chars ! i) = Inr i"
proof -
  assume "i < 16"
  then have "i \<in> set [0..<16]" by simp
  moreover have "list_all (\<lambda>i. parseHexDigit (base16Chars ! i) = Inr i) [0..<16]"
    by code_simp
  ultimately show ?thesis by (simp only: list_all_iff)
qed

lemma nibbles_join:
  "char_of (push_bit 4 (unat (drop_bit 4 b)) OR unat (b AND 0x0f)) = char_of_byte (b :: byte)"
proof -
  have "push_bit 4 (drop_bit 4 b) OR (b AND mask 4) = b"
    by (rule bit_word_eqI) (auto simp: bit_simps)
  then have "push_bit 4 (drop_bit 4 b) OR (b AND 0x0f) = b" by (simp add: mask_numeral)
  moreover have "push_bit 4 (unat (drop_bit 4 b)) = unat (push_bit 4 (drop_bit 4 b))"
  proof -
    have "unat (drop_bit 4 b) < 16"
      using unsigned_less [of b, where ?'a = nat]
      by (simp add: drop_bit_eq_div unat_div)
    then show ?thesis
      by (simp add: push_bit_eq_mult unat_word_ariths)
  qed
  ultimately show ?thesis
    by (simp add: char_of_byte_def flip: unsigned_or_eq)
qed

lemma nibble_bounds: "unat (drop_bit 4 (b :: byte)) < 16" "unat (b AND 0x0f) < 16"
proof -
  show "unat (drop_bit 4 b) < 16"
    using unsigned_less [of b, where ?'a = nat] by (simp add: drop_bit_eq_div unat_div)
  have "unat (b AND 0x0f) \<le> unat (0x0f :: byte)"
    by (rule word_and_le1 [THEN word_le_nat_alt [THEN iffD1]])
  then show "unat (b AND 0x0f) < 16" by simp
qed

lemma base16_decode_loop_encode:
  "base16_decode_loop (base16_encode bs) = Inr (string_of_bytes bs)"
  by (induction bs)
     (simp_all add: parseHexDigit_base16Chars nibble_bounds nibbles_join string_of_bytes_def)

lemma length_base16_encode [simp]: "length (base16_encode bs) = base16_encodedLength (length bs)"
  by (induction bs) (auto simp: base16_encodedLength_def)

lemma base16_roundtrip: "base16_decode (base16_encode bs) = Inr (string_of_bytes bs)"
  by (simp add: base16_decode_def base16_decode_loop_encode base16_encodedLength_def)

section \<open>Tables\<close>

lemma index_of_nth: "distinct xs \<Longrightarrow> i < length xs \<Longrightarrow> index_of (xs ! i) xs = Some i"
  by (induction xs arbitrary: i) (auto simp: nth_Cons split: nat.splits)

lemma index_of_Some: "index_of c xs = Some i \<Longrightarrow> i < length xs \<and> xs ! i = c"
  by (induction xs arbitrary: i) (auto split: if_splits)

lemma index_of_None: "index_of c xs = None \<longleftrightarrow> c \<notin> set xs"
  by (induction xs) auto

lemma length_nix32_characters [simp]: "length nix32_characters = 32"
  by (simp add: nix32_characters_def)

lemma distinct_nix32_characters [simp]: "distinct nix32_characters"
  by (simp add: nix32_characters_def)

lemma length_base64Chars [simp]: "length base64Chars = 64"
  by (simp add: base64Chars_def)

lemma distinct_base64Chars [simp]: "distinct base64Chars"
  by (simp add: base64Chars_def)

lemma nix32_lookup_nth: "unat d < 32 \<Longrightarrow> nix32_lookupReverse (nix32_characters ! unat d) = Some d"
  by (simp add: nix32_lookupReverse_def index_of_nth)

lemma nix32_lookup_Some:
  assumes "nix32_lookupReverse c = Some d"
  shows "unat d < 32" "nix32_characters ! unat d = c"
proof -
  obtain i where i: "index_of c nix32_characters = Some i" "d = of_nat i"
    using assms by (auto simp: nix32_lookupReverse_def)
  then have "i < 32" "nix32_characters ! i = c" using index_of_Some by fastforce+
  with i show "unat d < 32" "nix32_characters ! unat d = c" by (simp_all add: unat_of_nat)
qed

lemma bit_lt32: "unat (d :: byte) < 32 \<Longrightarrow> bit d t \<Longrightarrow> t < 5"
proof (rule ccontr)
  assume d: "unat d < 32" "bit d t" "\<not> t < 5"
  then have "bit (unat d) t" by (simp add: bit_unsigned_iff)
  moreover have "(2::nat) ^ 5 \<le> 2 ^ t" using d by (intro power_increasing) auto
  then have "unat d div 2 ^ t = 0" using d by simp
  ultimately show False by (simp add: bit_iff_odd)
qed

section \<open>Nix Base-32: round trip\<close>

lemma divmod8: "k = 8 * i + j \<Longrightarrow> j < 8 \<Longrightarrow> k div 8 = i \<and> k mod 8 = (j::nat)"
  by simp

lemma bit_of_resize: "length xs \<le> k \<Longrightarrow> bit_of (resize_bytes k xs) m = bit_of xs m"
  by (auto simp: bit_of_def resize_bytes_def nth_append)

lemma length_resize [simp]: "length (resize_bytes k xs) = k"
  by (auto simp: resize_bytes_def)

lemma bit_of_update:
  "i < length xs \<Longrightarrow>
   bit_of (xs[i := w]) m = (if m div 8 = i then bit w (m mod 8) else bit_of xs m)"
  by (auto simp: bit_of_def)

lemma bit_of_nth: "m div 8 < length xs \<Longrightarrow> bit (xs ! (m div 8)) (m mod 8) = bit_of xs m"
  by (simp add: bit_of_def)

definition nix32_carry :: "nat \<Rightarrow> byte \<Rightarrow> bool" where
  "nix32_carry n d = (drop_bit (8 - (n * 5) mod 8) d \<noteq> 0)"

lemma nix32_carryD: "nix32_carry n d \<Longrightarrow> unat d < 32 \<Longrightarrow> 3 < n * 5 mod 8"
proof (rule ccontr)
  assume c: "nix32_carry n d" "unat d < 32" "\<not> 3 < n * 5 mod 8"
  then obtain t where "bit (drop_bit (8 - (n * 5) mod 8) d) t"
    unfolding nix32_carry_def using bit_eq_iff [of _ "0 :: byte"] by auto
  then have "bit d (8 - (n * 5) mod 8 + t)" by (simp add: bit_drop_bit_eq)
  then have "8 - (n * 5) mod 8 + t < 5" by (rule bit_lt32 [OF c(2)])
  with c(3) show False by linarith
qed

lemma length_nix32_put:
  "length (nix32_put n d res) = n * 5 div 8 + 1 + (if nix32_carry n d then 1 else 0)"
  by (simp add: nix32_put_def nix32_carry_def Let_def)

lemma length_nix32_put_le:
  assumes "unat d < 32" shows "length (nix32_put n d res) \<le> Suc n * 5 div 8 + 1"
proof (cases "nix32_carry n d")
  case True
  then have "3 < n * 5 mod 8" using assms by (rule nix32_carryD)
  moreover obtain q r where "n * 5 = 8 * q + r" "r < 8" using div_mod_ex [of 8 "n * 5"] by auto
  moreover from this have "n * 5 div 8 = q" "n * 5 mod 8 = r" "Suc n * 5 = 8 * q + (r + 5)"
    using divmod8 [of "n * 5" q r] by auto
  ultimately have "n * 5 div 8 + 1 \<le> Suc n * 5 div 8"
    by (simp add: less_eq_div_iff_mult_less_eq)
  then show ?thesis using True by (simp add: length_nix32_put)
next
  case False
  then show ?thesis by (simp add: length_nix32_put div_le_mono)
qed

lemma bit_of_nix32_put:
  assumes len: "length res \<le> n * 5 div 8 + 1" and d: "unat d < 32"
  shows "bit_of (nix32_put n d res) k = (bit_of res k \<or> (n * 5 \<le> k \<and> bit d (k - n * 5)))"
proof -
  define i j where "i = n * 5 div 8" and "j = n * 5 mod 8"
  have n5: "n * 5 = 8 * i + j" and j: "j < 8" by (simp_all add: i_def j_def)
  define r1 where "r1 = resize_bytes (i + 1) res"
  define r2 where "r2 = r1 [i := r1 ! i OR push_bit j d]"
  have l1: "length r1 = i + 1" by (simp add: r1_def)
  have r1: "bit_of r1 m = bit_of res m" for m using len by (simp add: r1_def i_def bit_of_resize)
  have r2: "bit_of r2 m = (bit_of res m \<or> (m div 8 = i \<and> j \<le> m mod 8 \<and> bit d (m mod 8 - j)))" for m
    using l1 r1 [of m] by (auto simp: r2_def bit_of_update bit_or_iff bit_push_bit_iff bit_of_nth)
  have l2: "length r2 = i + 1" by (simp add: r2_def l1)
  define r3 where "r3 = resize_bytes (i + 2) r2"
  have r3: "bit_of r3 m = bit_of r2 m" for m using l2 by (simp add: r3_def bit_of_resize)
  have l3: "length r3 = i + 2" by (simp add: r3_def)
  have put: "nix32_put n d res =
      (if drop_bit (8 - j) d \<noteq> 0 then r3 [i + 1 := r3 ! (i + 1) OR drop_bit (8 - j) d] else r2)"
    by (simp only: nix32_put_def Let_def i_def j_def r1_def r2_def r3_def)
  have eq: "bit_of (nix32_put n d res) k =
      (bit_of r2 k \<or> (k div 8 = i + 1 \<and> bit d (8 - j + k mod 8)))"
  proof (cases "drop_bit (8 - j) d = 0")
    case True
    have "bit d (8 - j + k mod 8) = bit (drop_bit (8 - j) d) (k mod 8)" by (simp add: bit_drop_bit_eq)
    then have "\<not> bit d (8 - j + k mod 8)" using True by simp
    with True show ?thesis by (simp add: put)
  next
    case False
    then show ?thesis
      using r3 [of k] bit_of_nth [of k r3] l3 by (auto simp: put bit_of_update bit_or_iff bit_drop_bit_eq)
  qed
  have "(k div 8 = i \<and> j \<le> k mod 8 \<and> bit d (k mod 8 - j)) \<or> (k div 8 = i + 1 \<and> bit d (8 - j + k mod 8))
      \<longleftrightarrow> n * 5 \<le> k \<and> bit d (k - n * 5)" (is "?l \<longleftrightarrow> ?r")
  proof
    have k: "k = 8 * (k div 8) + k mod 8" by simp
    assume ?l
    then show ?r
    proof (elim disjE conjE)
      assume a: "k div 8 = i" "j \<le> k mod 8" "bit d (k mod 8 - j)"
      then have "k - n * 5 = k mod 8 - j" "n * 5 \<le> k" using k n5 by linarith+
      with a show ?r by simp
    next
      assume a: "k div 8 = i + 1" "bit d (8 - j + k mod 8)"
      then have "k - n * 5 = 8 - j + k mod 8" "n * 5 \<le> k" using k n5 j by linarith+
      with a show ?r by simp
    qed
  next
    have k: "k = 8 * (k div 8) + k mod 8" by simp
    assume r: ?r
    define s where "s = k - n * 5"
    have s: "s < 5" using r bit_lt32 [OF d] by (simp add: s_def)
    have ks: "k = 8 * i + (j + s)" using r n5 by (simp add: s_def)
    have ds: "bit d s" using r by (simp add: s_def)
    show ?l
    proof (cases "j + s < 8")
      case True
      then have "k div 8 = i" "k mod 8 = j + s" using ks divmod8 by blast+
      with ds show ?thesis by simp
    next
      case False
      then have "k = 8 * (i + 1) + (j + s - 8)" "j + s - 8 < 8" using ks s j by auto
      then have "k div 8 = i + 1" "k mod 8 = j + s - 8" using divmod8 by blast+
      with ds False j show ?thesis by simp
    qed
  qed
  with eq r2 show ?thesis by blast
qed

text \<open>The digit of a character, as the decoder looks it up.\<close>

definition nix32_val :: "char \<Rightarrow> byte" where
  "nix32_val c = the (nix32_lookupReverse c)"

lemma nix32_val_nth: "unat d < 32 \<Longrightarrow> nix32_val (nix32_characters ! unat d) = d"
  by (simp add: nix32_val_def nix32_lookup_nth)

lemma bit_of_decode_loop:
  assumes "nix32_decode_loop n cs res = Inr r" and "length res \<le> n * 5 div 8 + 1"
  shows "bit_of r k = (bit_of res k \<or>
    (n * 5 \<le> k \<and> (k - n * 5) div 5 < length cs \<and>
     bit (nix32_val (cs ! ((k - n * 5) div 5))) ((k - n * 5) mod 5)))"
  using assms
proof (induction n cs res rule: nix32_decode_loop.induct)
  case (1 n res)
  then show ?case by simp
next
  case (2 n c cs res)
  then obtain d where d: "nix32_lookupReverse c = Some d"
    and r: "nix32_decode_loop (Suc n) cs (nix32_put n d res) = Inr r"
    by (auto split: option.splits)
  note d32 = nix32_lookup_Some(1) [OF d]
  have IH: "bit_of r k = (bit_of (nix32_put n d res) k \<or>
    (Suc n * 5 \<le> k \<and> (k - Suc n * 5) div 5 < length cs \<and>
     bit (nix32_val (cs ! ((k - Suc n * 5) div 5))) ((k - Suc n * 5) mod 5)))"
    using 2 d r length_nix32_put_le [OF d32] by simp
  have v: "nix32_val c = d" by (simp add: nix32_val_def d)
  show ?case
  proof (cases "k < Suc n * 5")
    case True
    then have "(k - n * 5) div 5 = 0" "n * 5 \<le> k \<Longrightarrow> (k - n * 5) mod 5 = k - n * 5" by auto
    then show ?thesis using IH True v bit_of_nix32_put [OF 2(3) d32] by auto
  next
    case False
    then obtain m where m: "k = Suc n * 5 + m" by (metis le_Suc_ex not_less)
    then have "k - n * 5 = 5 + m" "k - Suc n * 5 = m" by auto
    moreover have "\<not> bit d (5 + m)" using bit_lt32 [OF d32] by fastforce
    moreover have "(5 + m) div 5 = Suc (m div 5)" by simp
    ultimately show ?thesis using IH m v bit_of_nix32_put [OF 2(3) d32] by simp
  qed
qed

lemma length_decode_loop:
  assumes "nix32_decode_loop n cs res = Inr r" and "cs \<noteq> []"
  shows "length r = (n + length cs - 1) * 5 div 8 + 1 +
    (if nix32_carry (n + length cs - 1) (nix32_val (last cs)) then 1 else 0)"
  using assms
proof (induction n cs res rule: nix32_decode_loop.induct)
  case (1 n res)
  then show ?case by simp
next
  case (2 n c cs res)
  then obtain d where d: "nix32_lookupReverse c = Some d"
    and r: "nix32_decode_loop (Suc n) cs (nix32_put n d res) = Inr r"
    by (auto split: option.splits)
  show ?case
  proof (cases "cs = []")
    case True
    then show ?thesis using r d by (auto simp: length_nix32_put nix32_val_def)
  next
    case False
    then show ?thesis using 2 d r by simp
  qed
qed

lemma decode_loop_total:
  "(\<forall>c \<in> set cs. c \<in> set nix32_characters) \<Longrightarrow> \<exists>r. nix32_decode_loop n cs res = Inr r"
proof (induction cs arbitrary: n res)
  case (Cons c cs)
  then have "nix32_lookupReverse c \<noteq> None"
    by (simp add: nix32_lookupReverse_def index_of_None)
  with Cons show ?case by auto
qed simp

lemma decode_loop_valid:
  "nix32_decode_loop n cs res = Inr r \<Longrightarrow> c \<in> set cs \<Longrightarrow> \<exists>d. nix32_lookupReverse c = Some d"
  by (induction n cs res rule: nix32_decode_loop.induct) (auto split: option.splits)

lemma bit_and_1f: "bit (w AND 0x1f :: byte) t = (t < 5 \<and> bit w t)"
proof -
  have "w AND 0x1f = take_bit 5 w" by (simp add: take_bit_eq_mask mask_numeral)
  then show ?thesis by (auto simp: bit_take_bit_iff)
qed

lemma unat_and_1f: "unat (w AND 0x1f :: byte) < 32"
proof -
  have "unat (w AND 0x1f) \<le> unat (0x1f :: byte)"
    by (rule word_and_le1 [THEN word_le_nat_alt [THEN iffD1]])
  then show ?thesis by simp
qed

lemma bit_nix32_digit:
  assumes "n * 5 < 8 * length bs"
  shows "bit (nix32_digit bs n) t = (t < 5 \<and> bit_of bs (n * 5 + t))"
proof -
  define i j where "i = n * 5 div 8" and "j = n * 5 mod 8"
  have n5: "n * 5 = 8 * i + j" and j: "j < 8" by (simp_all add: i_def j_def)
  have i: "i < length bs" using assms n5 by linarith
  have dig: "nix32_digit bs n = (drop_bit j (bs ! i)
      OR (if length bs - 1 \<le> i then 0 else push_bit (8 - j) (bs ! (i + 1)))) AND 0x1f"
    by (simp only: nix32_digit_def Let_def i_def j_def)
  show ?thesis
  proof (cases "t < 5")
    case False
    then show ?thesis by (simp add: dig bit_and_1f)
  next
    case t: True
    show ?thesis
    proof (cases "j + t < 8")
      case True
      then have "(n * 5 + t) div 8 = i" "(n * 5 + t) mod 8 = j + t"
        using n5 divmod8 [of "n * 5 + t" i "j + t"] by auto
      then show ?thesis using t True i
        by (auto simp: dig bit_and_1f bit_of_def bit_or_iff bit_drop_bit_eq bit_push_bit_iff)
    next
      case False
      then have "(n * 5 + t) div 8 = i + 1" "(n * 5 + t) mod 8 = j + t - 8"
        using n5 t j False divmod8 [of "n * 5 + t" "i + 1" "j + t - 8"] by auto
      moreover have "\<not> bit (drop_bit j (bs ! i)) t" using False impossible_bit [of "j + t" "bs ! i"]
        by (simp add: bit_drop_bit_eq)
      ultimately show ?thesis using t False i j
        by (auto simp: dig bit_and_1f bit_of_def bit_or_iff bit_drop_bit_eq bit_push_bit_iff add.commute)
    qed
  qed
qed

lemma nix32_digit_lt: "unat (nix32_digit bs n) < 32"
  by (simp add: nix32_digit_def Let_def unat_and_1f)

lemma nix32_encodedLength_eq:
  "0 < n \<Longrightarrow> n < 2 ^ 60 \<Longrightarrow> nix32_encodedLength n = (n * 8 - 1) div 5 + 1"
  by (simp add: nix32_encodedLength_def unat_sub_if' unat_mult_lem [THEN iffD1]  unat_of_nat unat_word_ariths)

lemma length_nix32_encode:
  "length (nix32_encode bs) = (if bs = [] then 0 else nix32_encodedLength (length bs))"
  by (simp add: nix32_encode_def)

lemma nix32_encodedLength_bounds:
  assumes "0 < n" "n < 2 ^ 60"
  shows "8 * n \<le> nix32_encodedLength n * 5" "nix32_encodedLength n * 5 < 8 * n + 5"
    "(nix32_encodedLength n - 1) * 5 div 8 + 1 = n"
  using assms by (simp_all add: nix32_encodedLength_eq)

lemma nth_rev_nix32_encode:
  "m < length (nix32_encode bs) \<Longrightarrow> rev (nix32_encode bs) ! m = nix32_characters ! unat (nix32_digit bs m)"
  by (simp add: nix32_encode_def rev_map split: if_splits)

lemma nix32_decode_loop_encode:
  assumes len: "length bs < 2 ^ 60"
  shows "nix32_decode_loop 0 (rev (nix32_encode bs)) [] = Inr bs"
proof (cases "bs = []")
  case True
  then show ?thesis by (simp add: nix32_encode_def)
next
  case False
  let ?cs = "rev (nix32_encode bs)" and ?L = "nix32_encodedLength (length bs)"
  have L: "length ?cs = ?L" using False by (simp add: length_nix32_encode)
  note b = nix32_encodedLength_bounds [of "length bs"]
  have bnd: "8 * length bs \<le> ?L * 5" "?L * 5 < 8 * length bs + 5" "(?L - 1) * 5 div 8 + 1 = length bs"
    using b False len by auto
  have L0: "0 < ?L" using bnd(1) False by (cases ?L) auto
  have val: "nix32_val (?cs ! m) = nix32_digit bs m" if "m < ?L" for m
    using that L by (simp add: nth_rev_nix32_encode nix32_val_nth nix32_digit_lt length_nix32_encode False)
  have dig: "bit (nix32_digit bs m) t = (t < 5 \<and> bit_of bs (m * 5 + t))" if "m < ?L" for m t
    by (rule bit_nix32_digit) (use that bnd(2) in linarith)
  have "\<forall>c \<in> set ?cs. c \<in> set nix32_characters"
    by (auto simp: nix32_encode_def intro!: nth_mem) (simp add: nix32_digit_lt)
  then obtain r where r: "nix32_decode_loop 0 ?cs [] = Inr r" using decode_loop_total by blast
  have bits: "bit_of r k = bit_of bs k" for k
  proof -
    have "bit_of r k = (k div 5 < ?L \<and> bit (nix32_digit bs (k div 5)) (k mod 5))"
      using bit_of_decode_loop [OF r, of k] L val by (auto simp: bit_of_def)
    also have "\<dots> = (k div 5 < ?L \<and> bit_of bs k)" using dig by auto
    also have "\<dots> = bit_of bs k"
    proof -
      have "k div 5 < ?L" if "bit_of bs k"
      proof -
        from that have "k div 8 < length bs" by (simp add: bit_of_def)
        then have "k < ?L * 5" using bnd(1) by linarith
        then show ?thesis by (simp add: less_mult_imp_div_less)
      qed
      then show ?thesis by blast
    qed
    finally show ?thesis .
  qed
  have ne: "?cs \<noteq> []" using L L0 by auto
  have "last ?cs = ?cs ! (?L - 1)" using ne L by (simp add: last_conv_nth)
  then have last: "nix32_val (last ?cs) = nix32_digit bs (?L - 1)" using val L0 by simp
  have "\<not> nix32_carry (?L - 1) (nix32_digit bs (?L - 1))"
  proof
    define j where "j = (?L - 1) * 5 mod 8"
    have "(?L - 1) * 5 = 8 * ((?L - 1) * 5 div 8) + j" unfolding j_def by simp
    then have pos: "(?L - 1) * 5 = 8 * (length bs - 1) + j" using bnd(3) by linarith
    assume "nix32_carry (?L - 1) (nix32_digit bs (?L - 1))"
    then obtain t where "bit (drop_bit (8 - j) (nix32_digit bs (?L - 1))) t"
      unfolding nix32_carry_def j_def using bit_eq_iff [of _ "0 :: byte"] by auto
    then have "bit_of bs ((?L - 1) * 5 + (8 - j + t))"
      using dig [of "?L - 1"] L0 by (simp add: bit_drop_bit_eq)
    then have "(8 * (length bs - 1) + j + (8 - j + t)) div 8 < length bs"
      using pos by (simp add: bit_of_def)
    moreover have "j < 8" by (simp add: j_def)
    then have "8 * (length bs - 1) + j + (8 - j + t) = 8 * length bs + t" using False by (cases bs) auto
    ultimately show False by simp
  qed
  then have "length r = length bs"
    using length_decode_loop [OF r ne] L last bnd(3) by simp
  with bits have "r = bs" by (blast intro: bit_of_ext)
  with r show ?thesis by simp
qed

lemma nix32_roundtrip:
  "length bs < 2 ^ 60 \<Longrightarrow> nix32_decode (nix32_encode bs) = Inr (string_of_bytes bs)"
  by (simp add: nix32_decode_def nix32_decode_loop_encode)

text \<open>Conversely a string of the canonical length is the encoding of what it decodes to.\<close>

lemma nix32_decode_canonical:
  assumes dec: "nix32_decode s = Inr r" and len: "length s = nix32_encodedLength (length r)"
    and r0: "r \<noteq> []" and big: "length r < 2 ^ 60"
  shows "nix32_encode (bytes_of_string r) = s"
proof -
  obtain bs where bs: "nix32_decode_loop 0 (rev s) [] = Inr bs" and r: "r = string_of_bytes bs"
    using dec by (auto simp: nix32_decode_def res_simps)
  let ?L = "nix32_encodedLength (length bs)"
  have ne: "bs \<noteq> []" using r0 r by (auto simp: string_of_bytes_def)
  have L: "length s = ?L" using len r by simp
  note bnd = nix32_encodedLength_bounds [of "length bs"]
  have bnd: "8 * length bs \<le> ?L * 5" "?L * 5 < 8 * length bs + 5"
    using bnd ne big r by auto
  have lk: "\<exists>d. nix32_lookupReverse (rev s ! m) = Some d" if "m < ?L" for m
    using decode_loop_valid [OF bs] that L by (metis length_rev nth_mem)
  have dig: "nix32_digit bs m = nix32_val (rev s ! m)" if m: "m < ?L" for m
  proof (rule bit_word_eqI)
    fix t assume "t < LENGTH(8)"
    from lk [OF m] obtain d where d: "nix32_lookupReverse (rev s ! m) = Some d" by blast
    have v: "nix32_val (rev s ! m) = d" by (simp add: nix32_val_def d)
    have "m * 5 < 8 * length bs" using m bnd(2) by linarith
    then have "bit (nix32_digit bs m) t = (t < 5 \<and> bit_of bs (m * 5 + t))" by (rule bit_nix32_digit)
    also have "\<dots> = (t < 5 \<and> bit (nix32_val (rev s ! m)) t)"
      using bit_of_decode_loop [OF bs, of "m * 5 + t"] m L by (auto simp: bit_of_def)
    also have "\<dots> = bit (nix32_val (rev s ! m)) t"
      using bit_lt32 nix32_lookup_Some(1) [OF d] v by auto
    finally show "bit (nix32_digit bs m) t = bit (nix32_val (rev s ! m)) t" .
  qed
  have "rev (nix32_encode bs) = rev s"
  proof (rule nth_equalityI)
    show "length (rev (nix32_encode bs)) = length (rev s)" using ne L by (simp add: length_nix32_encode)
    fix m assume "m < length (rev (nix32_encode bs))"
    then have m: "m < ?L" using ne by (simp add: length_nix32_encode)
    from lk [OF m] obtain d where d: "nix32_lookupReverse (rev s ! m) = Some d" by blast
    have "rev (nix32_encode bs) ! m = nix32_characters ! unat (nix32_digit bs m)"
      by (rule nth_rev_nix32_encode) (use m ne in \<open>simp add: length_nix32_encode\<close>)
    also have "\<dots> = rev s ! m"
      using dig [OF m] nix32_lookup_Some(2) [OF d] by (simp add: nix32_val_def d)
    finally show "rev (nix32_encode bs) ! m = rev s ! m" .
  qed
  then show ?thesis by (simp add: r)
qed

section \<open>Base-64: round trip\<close>

lemma msb_bits_append:
  "msb_bits (m + n) w = msb_bits m (drop_bit n (w :: 'a::len word)) @ msb_bits n w"
  by (rule nth_equalityI)
     (auto simp: nth_append bit_drop_bit_eq intro!: arg_cong [where f = "bit w"])

definition b64_bits :: "char \<Rightarrow> bool list" where
  "b64_bits c = msb_bits 6 (the (base64_digit c))"

lemma and_3f: "bit (w AND 0x3f :: 32 word) t = (t < 6 \<and> bit w t)"
proof -
  have "w AND 0x3f = take_bit 6 w" by (simp add: take_bit_eq_mask mask_numeral)
  then show ?thesis by (auto simp: bit_take_bit_iff)
qed

lemma unat_and_3f: "unat (w AND 0x3f :: 32 word) < 64"
proof -
  have "unat (w AND 0x3f) \<le> unat (0x3f :: 32 word)"
    by (rule word_and_le1 [THEN word_le_nat_alt [THEN iffD1]])
  then show ?thesis by simp
qed

lemma base64_digit_nth:
  "base64_digit (base64Chars ! unat (w AND 0x3f)) = Some (w AND 0x3f)"
  by (simp add: base64_digit_def index_of_nth unat_and_3f)

lemma b64_bits_nth: "b64_bits (base64Chars ! unat (w AND 0x3f)) = msb_bits 6 (w :: u32)"
  by (auto simp: b64_bits_def base64_digit_nth and_3f intro!: msb_bits_eqI)

text \<open>Characters of the alphabet, in which neither \<open>=\<close> nor newline occurs.\<close>

definition b64_text :: "string \<Rightarrow> bool" where
  "b64_text s = (\<forall>c \<in> set s. c \<in> set base64Chars)"

lemma b64_text_snoc [simp]:
  "b64_text (res @ [base64Chars ! unat (w AND 0x3f :: u32)]) = b64_text res"
  by (auto simp: b64_text_def unat_and_3f intro!: nth_mem)

abbreviation b64_stream :: "string \<Rightarrow> bool list" where
  "b64_stream s \<equiv> concat (map b64_bits s)"

lemma base64_flush_spec:
  assumes "base64_flush data nbits res = (nbits', res')" and "nbits \<le> 13"
  shows "nbits' < 6 \<and> b64_text res' = b64_text res \<and>
    b64_stream res' @ msb_bits nbits' data = b64_stream res @ msb_bits nbits data \<and>
    6 * length res' + nbits' = 6 * length res + nbits"
  using assms
proof (induction data nbits res rule: base64_flush.induct)
  case (1 data nbits res)
  show ?case
  proof (cases "6 \<le> nbits")
    case True
    let ?w = "signed_drop_bit (nbits - 6) data"
    let ?r = "res @ [base64Chars ! unat (?w AND 0x3f)]"
    have eq: "base64_flush data (nbits - 6) ?r = (nbits', res')"
      using "1.prems" True by (simp add: base64_flush.simps [of data nbits])
    have w: "msb_bits 6 ?w = msb_bits 6 (drop_bit (nbits - 6) data)"
      by (rule msb_bits_eqI) (use "1.prems" in \<open>auto simp: bit_signed_drop_bit_iff bit_drop_bit_eq\<close>)
    have "msb_bits (6 + (nbits - 6)) data = msb_bits 6 ?w @ msb_bits (nbits - 6) data"
      unfolding w by (rule msb_bits_append)
    with True have "msb_bits nbits data = msb_bits 6 ?w @ msb_bits (nbits - 6) data" by simp
    then have "b64_stream ?r @ msb_bits (nbits - 6) data = b64_stream res @ msb_bits nbits data"
      by (simp add: b64_bits_nth)
    then show ?thesis
      using "1.IH" [OF True eq] "1.prems" True by auto
  next
    case False
    then show ?thesis using "1.prems" by (simp add: base64_flush.simps [of data nbits])
  qed
qed

lemma msb_bits_push8:
  assumes "n \<le> 5"
  shows "msb_bits (n + 8) (push_bit 8 data OR ucast (c :: byte) :: u32) = msb_bits n data @ msb_bits 8 c"
proof -
  have "msb_bits n (drop_bit 8 (push_bit 8 data OR ucast c) :: u32) = msb_bits n data"
  proof (rule msb_bits_eqI)
    fix i assume "i < n"
    then have "\<not> bit c (8 + i)" using impossible_bit [of "8 + i" c] by simp
    then show "bit (drop_bit 8 (push_bit 8 data OR ucast c) :: u32) i = bit data i"
      using \<open>i < n\<close> assms by (simp add: bit_simps)
  qed simp
  moreover have "msb_bits 8 (push_bit 8 data OR ucast c :: u32) = msb_bits 8 c"
    by (rule msb_bits_eqI) (auto simp: bit_simps)
  ultimately show ?thesis by (simp add: msb_bits_append)
qed

lemma base64_encode_loop_spec:
  assumes "base64_encode_loop s data nbits res = (data', nbits', res')" and "nbits < 6"
  shows "nbits' < 6 \<and> b64_text res' = b64_text res \<and>
    b64_stream res' @ msb_bits nbits' data' =
      b64_stream res @ msb_bits nbits data @ concat (map (msb_bits 8) s) \<and>
    6 * length res' + nbits' = 6 * length res + nbits + 8 * length s"
  using assms
proof (induction s data nbits res rule: base64_encode_loop.induct)
  case (1 data nbits res)
  then show ?case by simp
next
  case (2 c s data nbits res)
  let ?d = "push_bit 8 data OR ucast c :: u32"
  obtain n1 r1 where f: "base64_flush ?d (nbits + 8) res = (n1, r1)" by fastforce
  have "nbits + 8 \<le> 13" using 2 by simp
  note sp = base64_flush_spec [OF f this]
  have "base64_encode_loop s ?d n1 r1 = (data', nbits', res')" using "2.prems" f by simp
  from "2.IH" [OF refl f [symmetric] refl this conjunct1 [OF sp]]
  show ?case using sp msb_bits_push8 [of nbits data c] "2.prems" by simp
qed

lemma msb_bits_take_bits: "msb_bits n (push_bit 6 d OR w) =
    msb_bits (n - 6) d @ msb_bits 6 (w :: u32)"
  if "6 \<le> n" "n \<le> 13" "\<And>t. bit w t \<Longrightarrow> t < 6"
proof -
  have "msb_bits (n - 6) (drop_bit 6 (push_bit 6 d OR w)) = msb_bits (n - 6) d"
    by (rule msb_bits_eqI) (use that in \<open>force simp: bit_simps\<close>)+
  moreover have "msb_bits 6 (push_bit 6 d OR w) = msb_bits 6 w"
    by (rule msb_bits_eqI) (auto simp: bit_simps)
  ultimately show ?thesis using msb_bits_append [of "n - 6" 6 "push_bit 6 d OR w"] that by simp
qed

lemma base64_digit_alphabet:
  assumes "c \<in> set base64Chars"
  obtains d where "base64_digit c = Some d" "unat d < 64" "\<And>t. bit d t \<Longrightarrow> t < 6"
    "c \<noteq> CHR ''=''" "c \<noteq> CHR 0x0A"
proof -
  from assms obtain i where i: "index_of c base64Chars = Some i"
    using index_of_None by fastforce
  then have "i < 64" using index_of_Some by fastforce
  then have d: "unat (of_nat i :: u32) < 64" by (simp add: unat_of_nat)
  then have "(of_nat i :: u32) AND 0x3f = of_nat i"
  proof -
    have "(of_nat i :: u32) AND mask 6 = of_nat i"
      using \<open>i < 64\<close> by (simp add: unat_of_nat flip: take_bit_eq_mask) (simp add: take_bit_nat_eq_self flip: unsigned_take_bit_eq of_nat_take_bit)
    then show ?thesis by (simp add: mask_numeral)
  qed
  then have b: "bit (of_nat i :: u32) t \<Longrightarrow> t < 6" for t by (metis and_3f)
  have "c \<noteq> CHR ''=''" "c \<noteq> CHR 0x0A" using assms by (auto simp: base64Chars_def)
  with that [of "of_nat i"] i d b show thesis by (simp add: base64_digit_def)
qed

lemma base64_decode_loop_spec:
  assumes "b64_text s" and "bits < 8"
  shows "\<exists>d' bits' res'. base64_decode_loop (s @ t) d bits res = base64_decode_loop t d' bits' res' \<and>
    bits' < 8 \<and>
    concat (map (msb_bits 8) res') @ msb_bits bits' d' =
    concat (map (msb_bits 8) res) @ msb_bits bits d @ b64_stream s"
  using assms
proof (induction s arbitrary: d bits res)
  case Nil
  then show ?case by force
next
  case (Cons c s)
  then have "c \<in> set base64Chars" and s: "b64_text s" by (auto simp: b64_text_def)
  then obtain w where w: "base64_digit c = Some w" "unat w < 64" "\<And>t. bit w t \<Longrightarrow> t < 6"
    "c \<noteq> CHR ''=''" "c \<noteq> CHR 0x0A" using base64_digit_alphabet by metis
  let ?d = "push_bit 6 d OR w"
  have st: "msb_bits (bits + 6) ?d = msb_bits bits d @ b64_bits c"
    using msb_bits_take_bits [of "bits + 6" w d] w Cons.prems(2) by (simp add: b64_bits_def)
  show ?case
  proof (cases "8 \<le> bits + 6")
    case True
    let ?b = "ucast (drop_bit (bits + 6 - 8) ?d AND 0xff) :: byte"
    have b: "msb_bits 8 ?b = msb_bits 8 (drop_bit (bits + 6 - 8) ?d)"
    proof (rule msb_bits_eqI)
      fix i :: nat assume "i < 8"
      have "drop_bit (bits + 6 - 8) ?d AND 0xff = take_bit 8 (drop_bit (bits + 6 - 8) ?d)"
        by (simp add: take_bit_eq_mask mask_numeral)
      then show "bit ?b i = bit (drop_bit (bits + 6 - 8) ?d) i"
        using \<open>i < 8\<close> by (simp add: bit_simps)
    qed simp
    have "msb_bits (8 + (bits + 6 - 8)) ?d = msb_bits 8 ?b @ msb_bits (bits + 6 - 8) ?d"
      unfolding b by (rule msb_bits_append)
    moreover have "8 + (bits + 6 - 8) = bits + 6" using True by simp
    ultimately have "msb_bits 8 ?b @ msb_bits (bits + 6 - 8) ?d = msb_bits bits d @ b64_bits c"
      by (simp only: st)
    then have st': "concat (map (msb_bits 8) (res @ [?b])) @ msb_bits (bits + 6 - 8) ?d @ b64_stream s =
      concat (map (msb_bits 8) res) @ msb_bits bits d @ b64_stream (c # s)" by simp
    have eq: "base64_decode_loop ((c # s) @ t) d bits res =
      base64_decode_loop (s @ t) ?d (bits + 6 - 8) (res @ [?b])"
      using w True by (simp add: Let_def)
    have "bits + 6 - 8 < 8" using Cons.prems(2) by simp
    from Cons.IH [OF s this, of ?d "res @ [?b]"]
    show ?thesis unfolding eq st' .
  next
    case False
    then have "bits + 6 < 8" by simp
    from Cons.IH [OF s this, of ?d res] show ?thesis using w False st by (auto simp: Let_def)
  qed
qed

lemma concat_msb_bits_len: "length (concat (map (msb_bits 8) xs)) = 8 * length xs"
  by (induction xs) auto

lemma base64_roundtrip: "base64_decode (base64_encode bs) = Inr (string_of_bytes bs)"
proof -
  obtain data nbits res where e: "base64_encode_loop bs 0 0 [] = (data, nbits, res)"
    by (metis prod_cases3)
  let ?r = "if nbits \<noteq> 0 then res @ [base64Chars ! unat (push_bit (6 - nbits) data AND 0x3f)] else res"
  have sp: "nbits < 6" "b64_text res"
    "b64_stream res @ msb_bits nbits data = concat (map (msb_bits 8) bs)"
    "6 * length res + nbits = 8 * length bs"
    using base64_encode_loop_spec [OF e] by (auto simp: b64_text_def)
  have tx: "b64_text ?r" using sp(2) by auto
  have "\<exists>z. length z < 6 \<and> b64_stream ?r = concat (map (msb_bits 8) bs) @ z"
  proof (cases "nbits = 0")
    case True
    then show ?thesis using sp by auto
  next
    case False
    let ?w = "push_bit (6 - nbits) data"
    have "msb_bits (nbits + (6 - nbits)) ?w = msb_bits nbits (drop_bit (6 - nbits) ?w) @ msb_bits (6 - nbits) ?w"
      by (rule msb_bits_append)
    moreover have "msb_bits nbits (drop_bit (6 - nbits) ?w) = msb_bits nbits data"
      by (rule msb_bits_eqI) (use sp(1) in \<open>auto simp: bit_simps\<close>)
    ultimately have "msb_bits 6 ?w = msb_bits nbits data @ msb_bits (6 - nbits) ?w" using sp(1) by simp
    then have "b64_stream ?r = concat (map (msb_bits 8) bs) @ msb_bits (6 - nbits) ?w"
      using sp(3) False by (simp add: b64_bits_nth)
    then show ?thesis using False by (intro exI [of _ "msb_bits (6 - nbits) ?w"]) simp
  qed
  then obtain z where z: "length z < 6" "b64_stream ?r = concat (map (msb_bits 8) bs) @ z" by blast
  define pad where "pad = replicate ((4 - length ?r mod 4) mod 4) (CHR ''='')"
  obtain d' bits' res' where dl:
    "base64_decode_loop (?r @ pad) 0 0 [] = base64_decode_loop pad d' bits' res'" "bits' < 8"
    "concat (map (msb_bits 8) res') @ msb_bits bits' d' = concat (map (msb_bits 8) bs) @ z"
    using base64_decode_loop_spec [OF tx, of 0 pad 0 "[]"] z by auto
  have "base64_decode_loop pad d' bits' res' = Inr res'"
    by (cases "(4 - length ?r mod 4) mod 4") (simp_all add: pad_def)
  moreover have "res' = bs"
  proof -
    have l: "8 * length res' + bits' = 8 * length bs + length z"
      using arg_cong [OF dl(3), of length] by (simp add: concat_msb_bits_len)
    then have "length res' = length bs" using z(1) dl(2) by linarith
    with dl(3) have "concat (map (msb_bits 8) res') = concat (map (msb_bits 8) bs)"
      by (simp add: append_eq_append_conv concat_msb_bits_len)
    then show ?thesis by (rule concat_msb_bits_inj)
  qed
  ultimately have "base64_decode_loop (?r @ pad) 0 0 [] = Inr bs" using dl(1) by simp
  moreover have "base64_encode bs = ?r @ pad" by (simp add: base64_encode_def e pad_def Let_def)
  ultimately show ?thesis by (simp add: base64_decode_def)
qed

end
