(* ===== verification/Hashes.thy ===== *)
theory Hashes
  imports Base_Encodings
begin

text \<open>
  Hashes and their textual forms: \<open>src/src/libutil/hash.cc\<close>, \<open>include/nix/util/hash.hh\<close> and
  \<open>include/nix/util/split.hh\<close>, and the experimental-feature switch they consult
  (\<open>experimental-features.hh\<close>, \<open>configuration.cc\<close>).

  The digest functions themselves belong to OpenSSL and libblake3: \<open>hashString\<close> takes the digest
  function as an argument. Warnings are not modelled. An \<open>ExperimentalFeatureSettings\<close> object is the
  list of the features that are switched on.
\<close>

section \<open>Experimental features\<close>

datatype ExperimentalFeature =
    CaDerivations | ImpureDerivations | Flakes | FetchTree | NixCommand | GitHashing
  | RecursiveNix | FetchClosure | AutoAllocateUids | Cgroups | DaemonTrustOverride
  | DynamicDerivations | ParseTomlTimestamps | ReadOnlyLocalStore | LocalOverlayStore
  | ConfigurableImpureEnv | MountedSSHStore | VerifiedFetches | PipeOperators
  | ExternalBuilders | BLAKE3Hashes

type_synonym xp_settings = "ExperimentalFeature list"

definition isEnabled :: "xp_settings \<Rightarrow> ExperimentalFeature \<Rightarrow> bool" where
  "isEnabled f feature =
     (case feature of
        Flakes \<Rightarrow> True
      | NixCommand \<Rightarrow> True
      | FetchTree \<Rightarrow> True
      | _ \<Rightarrow> feature \<in> set f)"

definition require :: "xp_settings \<Rightarrow> ExperimentalFeature \<Rightarrow> unit res" where
  "require xp feature =
     throw_if (\<not> isEnabled xp feature) MissingExperimentalFeature
       ''experimental Nix feature '%1%' is disabled''"

section \<open>Types\<close>

datatype HashAlgorithm = MD5 | SHA1 | SHA256 | SHA512 | BLAKE3

datatype HashFormat = Base64 | Nix32 | Base16 | SRI

definition regularHashSize :: "HashAlgorithm \<Rightarrow> nat" where
  "regularHashSize type =
     (case type of BLAKE3 \<Rightarrow> 32 | MD5 \<Rightarrow> 16 | SHA1 \<Rightarrow> 20 | SHA256 \<Rightarrow> 32 | SHA512 \<Rightarrow> 64)"

definition maxHashSize :: nat where
  "maxHashSize = 64"

record Hash =
  hashSize :: nat
  hash :: "byte list"
  algo :: HashAlgorithm

text \<open>The constructor: a zero-filled hash.\<close>

definition new_Hash :: "xp_settings \<Rightarrow> HashAlgorithm \<Rightarrow> Hash res" where
  "new_Hash xp a =
     bind_res (if a = BLAKE3 then require xp BLAKE3Hashes else Inr ()) (\<lambda>_.
     bind_res (assert_res (regularHashSize a \<le> maxHashSize)) (\<lambda>_.
     Inr \<lparr>hashSize = regularHashSize a, hash = replicate maxHashSize 0, algo = a\<rparr>))"

text \<open>The bytes in use; the rest of the 64-byte array is padding.\<close>

definition hash_bytes :: "Hash \<Rightarrow> byte list" where
  "hash_bytes h = take (hashSize h) (hash h)"

definition hash_eq :: "Hash \<Rightarrow> Hash \<Rightarrow> bool" where
  "hash_eq h h2 =
     (if hashSize h \<noteq> hashSize h2 then False
      else \<forall>i < hashSize h. hash h ! i = hash h2 ! i)"

datatype ordering = Less | Equivalent | Greater

definition cmp :: "'a::linorder \<Rightarrow> 'a \<Rightarrow> ordering" where
  "cmp a b = (if a < b then Less else if a = b then Equivalent else Greater)"

fun cmp_lists :: "'a::linorder list \<Rightarrow> 'a list \<Rightarrow> ordering" where
  "cmp_lists (x # xs) (y # ys) = (case cmp x y of Equivalent \<Rightarrow> cmp_lists xs ys | o' \<Rightarrow> o')"
| "cmp_lists _ _ = Equivalent"

definition algo_index :: "HashAlgorithm \<Rightarrow> nat" where
  "algo_index a = (case a of MD5 \<Rightarrow> 42 | SHA1 \<Rightarrow> 43 | SHA256 \<Rightarrow> 44 | SHA512 \<Rightarrow> 45 | BLAKE3 \<Rightarrow> 46)"

definition hash_cmp :: "Hash \<Rightarrow> Hash \<Rightarrow> ordering" where
  "hash_cmp h h2 =
     (case cmp (hashSize h) (hashSize h2) of
        Equivalent \<Rightarrow>
          (case cmp_lists (hash_bytes h) (hash_bytes h2) of
             Equivalent \<Rightarrow> cmp (algo_index (algo h)) (algo_index (algo h2))
           | o' \<Rightarrow> o')
      | o' \<Rightarrow> o')"

section \<open>Names of algorithms and formats\<close>

definition printHashAlgo :: "HashAlgorithm \<Rightarrow> string" where
  "printHashAlgo ha =
     (case ha of BLAKE3 \<Rightarrow> ''blake3'' | MD5 \<Rightarrow> ''md5'' | SHA1 \<Rightarrow> ''sha1''
      | SHA256 \<Rightarrow> ''sha256'' | SHA512 \<Rightarrow> ''sha512'')"

definition parseHashAlgoOpt :: "xp_settings \<Rightarrow> string \<Rightarrow> HashAlgorithm option res" where
  "parseHashAlgoOpt xp s =
     (if s = ''blake3'' then bind_res (require xp BLAKE3Hashes) (\<lambda>_. Inr (Some BLAKE3))
      else if s = ''md5'' then Inr (Some MD5)
      else if s = ''sha1'' then Inr (Some SHA1)
      else if s = ''sha256'' then Inr (Some SHA256)
      else if s = ''sha512'' then Inr (Some SHA512)
      else Inr None)"

definition parseHashAlgo :: "xp_settings \<Rightarrow> string \<Rightarrow> HashAlgorithm res" where
  "parseHashAlgo xp s =
     bind_res (parseHashAlgoOpt xp s) (\<lambda>opt_h.
       case opt_h of
         Some h \<Rightarrow> Inr h
       | None \<Rightarrow> Inl (NixError UsageError ''unknown hash algorithm''))"

definition parseHashFormatOpt :: "string \<Rightarrow> HashFormat option" where
  "parseHashFormatOpt hashFormatName =
     (if hashFormatName = ''base16'' then Some Base16
      else if hashFormatName = ''nix32'' then Some Nix32
      else if hashFormatName = ''base32'' then Some Nix32
      else if hashFormatName = ''base64'' then Some Base64
      else if hashFormatName = ''sri'' then Some SRI
      else None)"

definition parseHashFormat :: "string \<Rightarrow> HashFormat res" where
  "parseHashFormat hashFormatName =
     (case parseHashFormatOpt hashFormatName of
        Some f \<Rightarrow> Inr f
      | None \<Rightarrow> Inl (NixError UsageError ''unknown hash format''))"

definition printHashFormat :: "HashFormat \<Rightarrow> string" where
  "printHashFormat f =
     (case f of Base64 \<Rightarrow> ''base64'' | Nix32 \<Rightarrow> ''nix32'' | Base16 \<Rightarrow> ''base16'' | SRI \<Rightarrow> ''sri'')"

section \<open>Rendering\<close>

definition hash_to_string :: "Hash \<Rightarrow> HashFormat \<Rightarrow> bool \<Rightarrow> string res" where
  "hash_to_string h hashFormat includeAlgo =
     (let s = (if hashFormat = SRI \<or> includeAlgo
               then printHashAlgo (algo h) @ (if hashFormat = SRI then ''-'' else '':'') else []);
          bytes = hash_bytes h
      in bind_res (assert_res (hashSize h \<noteq> 0)) (\<lambda>_.
         Inr (s @ (case hashFormat of
             Base16 \<Rightarrow> base16_encode bytes
           | Nix32 \<Rightarrow> nix32_encode bytes
           | Base64 \<Rightarrow> base64_encode bytes
           | SRI \<Rightarrow> base64_encode bytes))))"

section \<open>Parsing\<close>

text \<open>\<open>splitPrefixTo\<close> and \<open>splitPrefix\<close>: the prefix and what is left of the string.\<close>

fun splitPrefixTo :: "string \<Rightarrow> char \<Rightarrow> (string \<times> string) option" where
  "splitPrefixTo [] separator = None"
| "splitPrefixTo (c # s) separator =
     (if c = separator then Some ([], s)
      else map_option (\<lambda>(p, r). (c # p, r)) (splitPrefixTo s separator))"

definition splitPrefix :: "string \<Rightarrow> string \<Rightarrow> (bool \<times> string)" where
  "splitPrefix s prefix =
     (if take (length prefix) s = prefix then (True, drop (length prefix) s) else (False, s))"

definition baseExplicit :: "HashFormat \<Rightarrow> (string \<Rightarrow> string res) res" where
  "baseExplicit format =
     (case format of
        Base16 \<Rightarrow> Inr base16_decode
      | Nix32 \<Rightarrow> Inr nix32_decode
      | Base64 \<Rightarrow> Inr base64_decode
      | SRI \<Rightarrow> Inl (NixError AssertionFailure ''unreachable''))"

definition baseFromSize :: "string \<Rightarrow> HashAlgorithm \<Rightarrow> HashFormat res" where
  "baseFromSize rest a =
     (let hs = regularHashSize a in
      if length rest = base16_encodedLength hs then Inr Base16
      else if length rest = nix32_encodedLength hs then Inr Nix32
      else if length rest = base64_encodedLength hs then Inr Base64
      else Inl (NixError BadHash ''hash '%s' has wrong length for hash algorithm %s''))"

text \<open>
  The \<open>catch\<close> around the decoder adds a trace to the exception and then drops it: after a decoding
  error \<open>d\<close> is still the empty string, and the length check below it throws.
\<close>

definition parseLowLevel ::
    "xp_settings \<Rightarrow> string \<Rightarrow> HashAlgorithm \<Rightarrow> (string \<Rightarrow> string res) \<Rightarrow> Hash res" where
  "parseLowLevel xp rest a decode =
     bind_res (new_Hash xp a) (\<lambda>res.
       (let d = (case decode rest of
                   Inr d \<Rightarrow> Inr d
                 | Inl (NixError AssertionFailure m) \<Rightarrow> Inl (NixError AssertionFailure m)
                 | Inl _ \<Rightarrow> Inr [])
        in bind_res d (\<lambda>d.
           if length d \<noteq> hashSize res
           then Inl (NixError BadHash ''invalid %s hash '%s', length %d != expected length %d'')
           else bind_res (assert_res (hashSize res \<noteq> 0)) (\<lambda>_.
             Inr (res\<lparr>hash := bytes_of_string d @ drop (length d) (hash res)\<rparr>)))))"

definition parseSRI :: "xp_settings \<Rightarrow> string \<Rightarrow> Hash res" where
  "parseSRI xp original =
     (case splitPrefixTo original (CHR ''-'') of
        None \<Rightarrow> Inl (NixError BadHash ''hash '%s' is not SRI'')
      | Some (hashRaw, rest) \<Rightarrow>
          bind_res (parseHashAlgo xp hashRaw) (\<lambda>parsedType.
          parseLowLevel xp rest parsedType base64_decode))"

definition parseAnyHelper ::
    "xp_settings \<Rightarrow> string \<Rightarrow> (HashAlgorithm option \<Rightarrow> HashAlgorithm res) \<Rightarrow> (Hash \<times> HashFormat) res" where
  "parseAnyHelper xp rest0 resolveAlgo =
     (let (hashRaw, rest, isSRI) =
            (case splitPrefixTo rest0 (CHR '':'') of
               Some (p, r) \<Rightarrow> (Some p, r, False)
             | None \<Rightarrow>
                 (case splitPrefixTo rest0 (CHR ''-'') of
                    Some (p, r) \<Rightarrow> (Some p, r, True)
                  | None \<Rightarrow> (None, rest0, False)))
      in bind_res (case hashRaw of
                     None \<Rightarrow> Inr None
                   | Some p \<Rightarrow> bind_res (parseHashAlgo xp p) (\<lambda>a. Inr (Some a))) (\<lambda>optParsedAlgo.
         bind_res (resolveAlgo optParsedAlgo) (\<lambda>a.
         if isSRI
         then bind_res (parseLowLevel xp rest a base64_decode) (\<lambda>h. Inr (h, SRI))
         else bind_res (baseFromSize rest a) (\<lambda>format.
              bind_res (baseExplicit format) (\<lambda>decode.
              bind_res (parseLowLevel xp rest a decode) (\<lambda>h. Inr (h, format)))))))"

definition parseAnyPrefixed :: "xp_settings \<Rightarrow> string \<Rightarrow> Hash res" where
  "parseAnyPrefixed xp original =
     bind_res (parseAnyHelper xp original (\<lambda>optParsedAlgo.
        case optParsedAlgo of
          None \<Rightarrow> Inl (NixError BadHash ''hash '%s' does not include a type'')
        | Some a \<Rightarrow> Inr a)) (\<lambda>(h, _). Inr h)"

definition parseAnyReturningFormat ::
    "xp_settings \<Rightarrow> string \<Rightarrow> HashAlgorithm option \<Rightarrow> (Hash \<times> HashFormat) res" where
  "parseAnyReturningFormat xp original optAlgo =
     parseAnyHelper xp original (\<lambda>optParsedAlgo.
       case (optParsedAlgo, optAlgo) of
         (None, None) \<Rightarrow> Inl (NixError BadHash
            ''hash '%s' does not include a type, nor is the type otherwise known from context'')
       | (Some a, Some b) \<Rightarrow>
           if a \<noteq> b then Inl (NixError BadHash ''hash '%s' should have type'') else Inr a
       | (Some a, None) \<Rightarrow> Inr a
       | (None, Some b) \<Rightarrow> Inr b)"

definition parseAny :: "xp_settings \<Rightarrow> string \<Rightarrow> HashAlgorithm option \<Rightarrow> Hash res" where
  "parseAny xp original optAlgo =
     bind_res (parseAnyReturningFormat xp original optAlgo) (\<lambda>(h, _). Inr h)"

definition parseExplicitFormatUnprefixed ::
    "xp_settings \<Rightarrow> string \<Rightarrow> HashAlgorithm \<Rightarrow> HashFormat \<Rightarrow> Hash res" where
  "parseExplicitFormatUnprefixed xp s a format =
     bind_res (baseExplicit format) (\<lambda>decode. parseLowLevel xp s a decode)"

definition parseNonSRIUnprefixed :: "xp_settings \<Rightarrow> string \<Rightarrow> HashAlgorithm \<Rightarrow> Hash res" where
  "parseNonSRIUnprefixed xp s a =
     bind_res (baseFromSize s a) (\<lambda>format. parseExplicitFormatUnprefixed xp s a format)"

definition newHashAllowEmpty :: "xp_settings \<Rightarrow> string \<Rightarrow> HashAlgorithm option \<Rightarrow> Hash res" where
  "newHashAllowEmpty xp hashStr ha =
     (if hashStr = []
      then (case ha of
              None \<Rightarrow> Inl (NixError BadHash ''empty hash requires explicit hash algorithm'')
            | Some a \<Rightarrow>
                bind_res (new_Hash xp a) (\<lambda>h.
                bind_res (hash_to_string h SRI True) (\<lambda>_. Inr h)))
      else parseAny xp hashStr ha)"

section \<open>Computing and compressing\<close>

text \<open>\<open>digest a s\<close>: what the library's one-shot digest of \<open>s\<close> writes into the hash array.\<close>

definition hashString ::
    "(HashAlgorithm \<Rightarrow> string \<Rightarrow> byte list) \<Rightarrow> xp_settings \<Rightarrow> HashAlgorithm \<Rightarrow> string \<Rightarrow> Hash res" where
  "hashString digest xp ha s =
     bind_res (new_Hash xp ha) (\<lambda>h.
       let out = digest ha s in Inr (h\<lparr>hash := out @ drop (length out) (hash h)\<rparr>))"

text \<open>
  \<open>compressHash\<close>: the loop \<open>h.hash[i % newSize] ^= hash.hash[i]\<close>. The constructor of the result
  zero-fills all 64 bytes. \<open>newSize = 0\<close> divides by zero in C++ and a \<open>newSize\<close> above 64 writes out
  of the array; the callers pass 20.
\<close>

fun compress_loop :: "byte list \<Rightarrow> nat \<Rightarrow> nat \<Rightarrow> byte list \<Rightarrow> byte list" where
  "compress_loop [] i newSize acc = acc"
| "compress_loop (b # bs) i newSize acc =
     compress_loop bs (i + 1) newSize (acc [i mod newSize := acc ! (i mod newSize) XOR b])"

definition compressHash :: "xp_settings \<Rightarrow> Hash \<Rightarrow> nat \<Rightarrow> Hash res" where
  "compressHash xp h newSize =
     bind_res (new_Hash xp (algo h)) (\<lambda>h'.
       Inr (h'\<lparr>hashSize := newSize,
               hash := compress_loop (hash_bytes h) 0 newSize (hash h')\<rparr>))"

section \<open>Lemmas\<close>

definition hash_wf :: "Hash \<Rightarrow> bool" where
  "hash_wf h = (hashSize h = regularHashSize (algo h) \<and> length (hash h) = maxHashSize \<and>
     drop (hashSize h) (hash h) = replicate (maxHashSize - hashSize h) 0)"

definition algo_enabled :: "xp_settings \<Rightarrow> HashAlgorithm \<Rightarrow> bool" where
  "algo_enabled xp a = (a = BLAKE3 \<longrightarrow> isEnabled xp BLAKE3Hashes)"

lemma algo_enabled_simps [simp]:
  "algo_enabled xp MD5" "algo_enabled xp SHA1" "algo_enabled xp SHA256" "algo_enabled xp SHA512"
  by (simp_all add: algo_enabled_def)

lemma regularHashSize_bounds: "16 \<le> regularHashSize a" "regularHashSize a \<le> 64"
  by (cases a; simp add: regularHashSize_def)+

lemma new_Hash_enabled:
  "algo_enabled xp a \<Longrightarrow> new_Hash xp a =
     Inr \<lparr>hashSize = regularHashSize a, hash = replicate maxHashSize 0, algo = a\<rparr>"
  using regularHashSize_bounds (2) [of a]
  by (auto simp: new_Hash_def require_def algo_enabled_def maxHashSize_def)

lemma new_Hash_InrD:
  "new_Hash xp a = Inr h \<Longrightarrow>
     h = \<lparr>hashSize = regularHashSize a, hash = replicate maxHashSize 0, algo = a\<rparr>"
  by (auto simp: new_Hash_def res_simps)

lemma parse_print_algo:
  "algo_enabled xp a \<Longrightarrow> parseHashAlgo xp (printHashAlgo a) = Inr a"
  by (cases a) (auto simp: parseHashAlgo_def parseHashAlgoOpt_def printHashAlgo_def
      require_def algo_enabled_def)

lemma parseHashAlgo_print:
  "parseHashAlgo xp s = Inr a \<Longrightarrow> s = printHashAlgo a"
  by (auto simp: parseHashAlgo_def parseHashAlgoOpt_def printHashAlgo_def res_simps
      split: if_splits option.splits)

lemma parse_print_format: "parseHashFormat (printHashFormat f) = Inr f"
  by (cases f) (simp_all add: parseHashFormat_def parseHashFormatOpt_def printHashFormat_def)

lemma splitPrefixTo_append:
  "c \<notin> set p \<Longrightarrow> splitPrefixTo (p @ c # r) c = Some (p, r)"
  by (induction p) auto

lemma splitPrefixTo_None: "c \<notin> set s \<Longrightarrow> splitPrefixTo s c = None"
  by (induction s) auto

lemma splitPrefixTo_Some: "splitPrefixTo s c = Some (p, r) \<Longrightarrow> s = p @ c # r \<and> c \<notin> set p"
  by (induction s arbitrary: p) (auto split: if_splits)

lemma splitPrefixTo_None_iff: "splitPrefixTo s c = None \<longleftrightarrow> c \<notin> set s"
  by (induction s) auto

lemma printHashAlgo_chars: "CHR '':'' \<notin> set (printHashAlgo a)" "CHR ''-'' \<notin> set (printHashAlgo a)"
  by (cases a; simp add: printHashAlgo_def)+

lemma base64_encode_no_colon: "CHR '':'' \<notin> set (base64_encode bs)"
proof -
  obtain data nbits res where e: "base64_encode_loop bs 0 0 [] = (data, nbits, res)"
    by (metis prod_cases3)
  have "b64_text res" using base64_encode_loop_spec [OF e] by (simp add: b64_text_def)
  then have "set res \<subseteq> set base64Chars" by (auto simp: b64_text_def)
  moreover have "CHR '':'' \<notin> set base64Chars" by (simp add: base64Chars_def)
  moreover have "base64Chars ! unat (push_bit (6 - nbits) data AND 0x3f) \<in> set base64Chars"
    by (simp add: unat_and_3f)
  ultimately show ?thesis
    by (auto simp: base64_encode_def e Let_def)
qed

lemma parseLowLevel_ok:
  assumes "hash_wf h" "algo_enabled xp (algo h)" "decode s = Inr (string_of_bytes (hash_bytes h))"
  shows "parseLowLevel xp s (algo h) decode = Inr h"
proof -
  have len: "length (hash_bytes h) = regularHashSize (algo h)" "hashSize h = regularHashSize (algo h)"
    using assms(1) regularHashSize_bounds(2) [of "algo h"]
    by (auto simp: hash_wf_def hash_bytes_def maxHashSize_def)
  have "hash_bytes h @ drop (regularHashSize (algo h)) (replicate maxHashSize 0) = hash h"
    using assms(1) len by (simp add: hash_bytes_def hash_wf_def) (metis append_take_drop_id)
  then show ?thesis
    using len regularHashSize_bounds(1) [of "algo h"] assms(2,3)
    by (simp add: parseLowLevel_def new_Hash_enabled Let_def)
qed

lemma encoded_lengths [simp]:
  "nix32_encodedLength 16 = 26" "nix32_encodedLength 20 = 32" "nix32_encodedLength 32 = 52"
  "nix32_encodedLength 64 = 103"
  by (simp_all add: nix32_encodedLength_eq)

lemma base64_encodedLengths [simp]:
  "base64_encodedLength 16 = 24" "base64_encodedLength 20 = 28" "base64_encodedLength 32 = 44"
  "base64_encodedLength 64 = 88"
  by (simp_all add: base64_encodedLength_def)

lemma length_base64_encode: "length (base64_encode bs) = (length bs + 2) div 3 * 4"
proof -
  obtain data nbits res where e: "base64_encode_loop bs 0 0 [] = (data, nbits, res)"
    by (metis prod_cases3)
  have sp: "nbits < 6" "6 * length res + nbits = 8 * length bs"
    using base64_encode_loop_spec [OF e] by auto
  have pad: "n + (4 - n mod 4) mod 4 = (n + 3) div 4 * 4" for n :: nat
  proof -
    obtain q r where "n = 4 * q + r" "r < 4" using div_mod_ex [of 4 n] by auto
    then have "n = 4 * q + r" "n mod 4 = r" "(n + 3) div 4 = q + (r + 3) div 4"
      "r = 0 \<or> r = 1 \<or> r = 2 \<or> r = 3" by auto
    then show ?thesis by (elim disjE) simp_all
  qed
  have "length (base64_encode bs) = (length res + (if nbits \<noteq> 0 then 1 else 0) + 3) div 4 * 4"
    by (simp add: base64_encode_def e Let_def flip: pad)
  moreover have "length res + (if nbits \<noteq> 0 then 1 else 0) = (8 * length bs + 5) div 6"
    using sp by auto
  moreover have "((8 * n + 5) div 6 + 3) div 4 = (n + 2) div 3" for n :: nat
  proof -
    obtain q r where "n = 3 * q + r" "r < 3" using div_mod_ex [of 3 n] by auto
    then have "n = 3 * q + r" "r = 0 \<or> r = 1 \<or> r = 2" by auto
    then show ?thesis by (elim disjE) simp_all
  qed
  ultimately show ?thesis by simp
qed

lemma hash_bytes_len: "hash_wf h \<Longrightarrow> length (hash_bytes h) = regularHashSize (algo h)"
  using regularHashSize_bounds(2) [of "algo h"]
  by (simp add: hash_wf_def hash_bytes_def maxHashSize_def)

lemma hash_to_string_wf:
  assumes "hash_wf h"
  shows "hash_to_string h f incl = Inr ((if f = SRI \<or> incl then printHashAlgo (algo h) @ (if f = SRI then ''-'' else '':'') else []) @
    (case f of Base16 \<Rightarrow> base16_encode (hash_bytes h) | Nix32 \<Rightarrow> nix32_encode (hash_bytes h)
     | _ \<Rightarrow> base64_encode (hash_bytes h)))"
proof -
  have "hashSize h \<noteq> 0" using assms regularHashSize_bounds(1) [of "algo h"] by (auto simp: hash_wf_def)
  then show ?thesis by (cases f) (auto simp: hash_to_string_def Let_def)
qed

lemma baseFromSize_encode:
  assumes "length bs = regularHashSize a"
  shows "baseFromSize (base16_encode bs) a = Inr Base16"
    "baseFromSize (nix32_encode bs) a = Inr Nix32"
    "baseFromSize (base64_encode bs) a = Inr Base64"
proof -
  have "bs \<noteq> []" using assms regularHashSize_bounds(1) [of a] by auto
  with assms show "baseFromSize (base16_encode bs) a = Inr Base16"
    "baseFromSize (nix32_encode bs) a = Inr Nix32"
    "baseFromSize (base64_encode bs) a = Inr Base64"
    by (cases a; simp add: baseFromSize_def regularHashSize_def length_nix32_encode
        length_base64_encode base16_encodedLength_def Let_def)+
qed

lemma hash_bytes_small: "hash_wf h \<Longrightarrow> length (hash_bytes h) < 2 ^ 60"
  using regularHashSize_bounds(2) [of "algo h"] by (simp add: hash_bytes_len)

lemma parse_render_any:
  assumes wf: "hash_wf h" and xp: "algo_enabled xp (algo h)"
    and s: "hash_to_string h f True = Inr s"
    and rs: "resolve (Some (algo h)) = Inr (algo h)"
  shows "parseAnyHelper xp s resolve = Inr (h, f)"
proof -
  note low = parseLowLevel_ok [OF wf xp]
  note len = hash_bytes_len [OF wf]
  note rt = base16_roundtrip nix32_roundtrip [OF hash_bytes_small [OF wf]] base64_roundtrip
  note alg = parse_print_algo [OF xp] rs
  show ?thesis
  proof (cases f)
    case SRI
    then have "s = printHashAlgo (algo h) @ CHR ''-'' # base64_encode (hash_bytes h)"
      using s wf by (simp add: hash_to_string_wf)
    moreover have "splitPrefixTo s (CHR '':'') = None"
      unfolding calculation by (rule splitPrefixTo_None) (use printHashAlgo_chars base64_encode_no_colon in auto)
    ultimately show ?thesis
      using SRI by (simp add: parseAnyHelper_def splitPrefixTo_append printHashAlgo_chars alg low rt)
  next
    case Base16
    then have "s = printHashAlgo (algo h) @ CHR '':'' # base16_encode (hash_bytes h)"
      using s wf by (simp add: hash_to_string_wf)
    then show ?thesis
      using Base16 by (simp add: parseAnyHelper_def splitPrefixTo_append printHashAlgo_chars alg
          baseFromSize_encode len baseExplicit_def low rt)
  next
    case Nix32
    then have "s = printHashAlgo (algo h) @ CHR '':'' # nix32_encode (hash_bytes h)"
      using s wf by (simp add: hash_to_string_wf)
    then show ?thesis
      using Nix32 by (simp add: parseAnyHelper_def splitPrefixTo_append printHashAlgo_chars alg
          baseFromSize_encode len baseExplicit_def low rt)
  next
    case Base64
    then have "s = printHashAlgo (algo h) @ CHR '':'' # base64_encode (hash_bytes h)"
      using s wf by (simp add: hash_to_string_wf)
    then show ?thesis
      using Base64 by (simp add: parseAnyHelper_def splitPrefixTo_append printHashAlgo_chars alg
          baseFromSize_encode len baseExplicit_def low rt)
  qed
qed

text \<open>Whatever a parser returns is well-formed.\<close>

lemma parseLowLevel_wf:
  assumes "parseLowLevel xp s a decode = Inr h"
  shows "hash_wf h" "algo h = a" "decode s = Inr (string_of_bytes (hash_bytes h))"
proof -
  obtain res d where res: "new_Hash xp a = Inr res" and d: "length d = hashSize res" "hashSize res \<noteq> 0"
    "h = res\<lparr>hash := bytes_of_string d @ drop (length d) (hash res)\<rparr>" "decode s = Inr d"
    using assms regularHashSize_bounds(1) [of a]
    by (auto simp: parseLowLevel_def res_simps Let_def split: sum.splits nix_error.splits err_class.splits if_splits)
  note r = new_Hash_InrD [OF res]
  show "hash_wf h" "algo h = a" "decode s = Inr (string_of_bytes (hash_bytes h))"
    using d r regularHashSize_bounds(2) [of a]
    by (auto simp: hash_wf_def hash_bytes_def maxHashSize_def)
qed

lemma parseNonSRI_nix32_canonical:
  assumes p: "parseNonSRIUnprefixed xp s a = Inr h"
    and len: "length s = nix32_encodedLength (regularHashSize a)"
  shows "hash_to_string h Nix32 False = Inr s"
proof -
  have "baseFromSize s a = Inr Nix32"
    using len by (cases a) (simp_all add: baseFromSize_def Let_def base16_encodedLength_def regularHashSize_def)
  then have low: "parseLowLevel xp s a nix32_decode = Inr h"
    using p by (simp add: parseNonSRIUnprefixed_def parseExplicitFormatUnprefixed_def baseExplicit_def)
  note wf = parseLowLevel_wf [OF low]
  have l: "length (hash_bytes h) = regularHashSize a" using hash_bytes_len wf by blast
  have ne: "string_of_bytes (hash_bytes h) \<noteq> []"
    using l regularHashSize_bounds(1) [of a] by (auto simp: string_of_bytes_def)
  have sm: "length (string_of_bytes (hash_bytes h)) < 2 ^ 60" using hash_bytes_small [OF wf(1)] by simp
  have "nix32_encode (bytes_of_string (string_of_bytes (hash_bytes h))) = s"
    by (rule nix32_decode_canonical [OF wf(3) _ ne sm]) (use len l in simp)
  then show ?thesis using wf(1) by (simp add: hash_to_string_wf)
qed

lemma cmp_Equivalent [simp]: "cmp a b = Equivalent \<longleftrightarrow> a = b"
  by (auto simp: cmp_def)

lemma cmp_refl [simp]: "cmp a a = Equivalent"
  by (simp add: cmp_def)

lemma cmp_lists_Equivalent:
  "length xs = length ys \<Longrightarrow> cmp_lists xs ys = Equivalent \<longleftrightarrow> xs = ys"
  by (induction xs ys rule: cmp_lists.induct) (auto split: ordering.splits)

lemma hash_eq_bytes:
  assumes "length (hash h) = maxHashSize" "length (hash h2) = maxHashSize"
    "hashSize h \<le> maxHashSize" "hashSize h2 \<le> maxHashSize"
  shows "hash_eq h h2 \<longleftrightarrow> hash_bytes h = hash_bytes h2"
proof
  assume "hash_eq h h2"
  then show "hash_bytes h = hash_bytes h2"
    using assms by (auto simp: hash_eq_def hash_bytes_def list_eq_iff_nth_eq split: if_splits)
next
  assume e: "hash_bytes h = hash_bytes h2"
  then have "length (hash_bytes h) = length (hash_bytes h2)" by simp
  then have s: "hashSize h = hashSize h2" using assms by (simp add: hash_bytes_def)
  have "hash h ! i = hash h2 ! i" if "i < hashSize h" for i
    using arg_cong [OF e, of "\<lambda>xs. xs ! i"] that s by (simp add: hash_bytes_def)
  with s show "hash_eq h h2" by (simp add: hash_eq_def)
qed

lemma compress_loop_length [simp]: "length (compress_loop bs i n acc) = length acc"
  by (induction bs i n acc rule: compress_loop.induct) auto

lemma compress_loop_nth:
  assumes "0 < n" "n \<le> length acc" "j < n"
  shows "compress_loop bs i n acc ! j =
    fold (XOR) (map (\<lambda>k. bs ! k) (filter (\<lambda>k. (i + k) mod n = j) [0..<length bs])) (acc ! j)"
  using assms
proof (induction bs i n acc rule: compress_loop.induct)
  case (1 i n acc)
  then show ?case by simp
next
  case (2 b bs i n acc)
  let ?acc = "acc [i mod n := acc ! (i mod n) XOR b]"
  have IH: "compress_loop bs (i + 1) n ?acc ! j =
    fold (XOR) (map (\<lambda>k. bs ! k) (filter (\<lambda>k. (i + 1 + k) mod n = j) [0..<length bs])) (?acc ! j)"
    using 2 by simp
  have "[0..<length (b # bs)] = 0 # map Suc [0..<length bs]"
    by (simp add: upt_conv_Cons map_Suc_upt del: upt_Suc)
  moreover have "?acc ! j = (if i mod n = j then acc ! j XOR b else acc ! j)"
    using 2 by (auto simp: nth_list_update)
  moreover have "x XOR y = y XOR x" for x y :: byte by (rule xor.commute)
  ultimately show ?case using IH
    by (simp add: filter_map comp_def xor.commute)
qed


lemma cmp_lists_refl [simp]: "cmp_lists xs xs = Equivalent"
  by (induction xs) auto

section \<open>Properties\<close>

text \<open>C18: rendering a hash with its algorithm and parsing the text back gives the same hash and the
  format it was written in, for every algorithm and all four formats (\<open>Hash::to_string\<close>,
  \<open>Hash::parseAnyReturningFormat\<close>, \<open>Hash::parseAnyPrefixed\<close>).\<close>

theorem hash_render_parse:
  assumes "hash_wf h" and "algo_enabled xp (algo h)"
  shows "\<exists>s. hash_to_string h f True = Inr s \<and>
    parseAnyReturningFormat xp s None = Inr (h, f) \<and> parseAnyPrefixed xp s = Inr h"
proof -
  obtain s where s: "hash_to_string h f True = Inr s"
    using hash_to_string_wf [OF assms(1)] by blast
  note r = parse_render_any [OF assms s]
  show ?thesis
    using s r by (auto simp: parseAnyReturningFormat_def parseAnyPrefixed_def)
qed

definition example_hash :: Hash where
  "example_hash = \<lparr>hashSize = 20, hash = replicate 64 0, algo = SHA1\<rparr>"

lemma example_hash_wf: "hash_wf example_hash"
  by (simp add: hash_wf_def example_hash_def regularHashSize_def maxHashSize_def)

theorem hash_render_parse_witness:
  "\<exists>s. hash_to_string example_hash SRI True = Inr s \<and>
    parseAnyReturningFormat [] s None = Inr (example_hash, SRI) \<and>
    parseAnyPrefixed [] s = Inr example_hash"
  by (rule hash_render_parse) (simp_all add: example_hash_wf, simp add: example_hash_def)

text \<open>an unprefixed hash of Base-32 length that parses is the canonical rendering of the
  result: no two strings of that length denote the same hash.\<close>

theorem nix32_hash_canonical:
  assumes "parseNonSRIUnprefixed xp s a = Inr h"
    and "length s = nix32_encodedLength (regularHashSize a)"
  shows "hash_to_string h Nix32 False = Inr s"
  using assms by (rule parseNonSRI_nix32_canonical)

lemma example_nix32:
  "parseNonSRIUnprefixed [] (replicate 32 (CHR ''0'')) SHA1 = Inr example_hash"
proof -
  have "nix32_encode (hash_bytes example_hash) = replicate 32 (CHR ''0'')"
    by (simp add: example_hash_def hash_bytes_def nix32_encode_def)
       (simp add: nix32_digit_def Let_def nix32_characters_def list_eq_iff_nth_eq rev_nth)
  moreover have "length (hash_bytes example_hash) = 20" by (simp add: example_hash_def hash_bytes_def)
  ultimately have "nix32_decode (replicate 32 (CHR ''0'')) = Inr (string_of_bytes (hash_bytes example_hash))"
    using nix32_roundtrip [of "hash_bytes example_hash"] by simp
  then have "parseLowLevel [] (replicate 32 (CHR ''0'')) (algo example_hash) nix32_decode = Inr example_hash"
    by (intro parseLowLevel_ok example_hash_wf) (simp_all add: example_hash_def)
  then show ?thesis
    by (simp add: parseNonSRIUnprefixed_def baseFromSize_def regularHashSize_def
        base16_encodedLength_def parseExplicitFormatUnprefixed_def baseExplicit_def example_hash_def)
qed

theorem nix32_hash_canonical_witness:
  "hash_to_string example_hash Nix32 False = Inr (replicate 32 (CHR ''0''))"
  by (rule nix32_hash_canonical [OF example_nix32]) (simp add: regularHashSize_def)

text \<open>\<open>operator<=>\<close> distinguishes hashes that \<open>operator==\<close> identifies: equality ignores the
  algorithm, the ordering does not, so a SHA-256 and a BLAKE3 hash with the same bytes are equal
  and yet ordered.\<close>

theorem hash_eq_coarser_than_order:
  "(\<forall>h h2. hash_wf h \<longrightarrow> hash_wf h2 \<longrightarrow>
      (hash_cmp h h2 = Equivalent \<longleftrightarrow> hash_eq h h2 \<and> algo h = algo h2)) \<and>
   (\<exists>h h2. hash_wf h \<and> hash_wf h2 \<and> hash_eq h h2 \<and> hash_cmp h h2 = Less)"
proof (intro conjI allI impI)
  fix h h2 assume wf: "hash_wf h" "hash_wf h2"
  have e: "hash_eq h h2 \<longleftrightarrow> hash_bytes h = hash_bytes h2"
    by (rule hash_eq_bytes)
       (use wf regularHashSize_bounds(2) in \<open>auto simp: hash_wf_def maxHashSize_def\<close>)
  have inj: "algo_index a = algo_index b \<longleftrightarrow> a = b" for a b
    by (cases a; cases b; simp add: algo_index_def)
  have l: "length (hash_bytes h) = length (hash_bytes h2)" if "hashSize h = hashSize h2"
    using that wf by (simp add: hash_wf_def hash_bytes_def)
  have hs: "hash_bytes h = hash_bytes h2 \<Longrightarrow> hashSize h = hashSize h2"
    using hash_bytes_len [OF wf(1)] hash_bytes_len [OF wf(2)] wf by (auto simp: hash_wf_def)
  show "hash_cmp h h2 = Equivalent \<longleftrightarrow> hash_eq h h2 \<and> algo h = algo h2"
    unfolding e using hs cmp_lists_Equivalent [OF l]
    by (auto simp: hash_cmp_def inj split: ordering.splits)
next
  show "\<exists>h h2. hash_wf h \<and> hash_wf h2 \<and> hash_eq h h2 \<and> hash_cmp h h2 = Less"
    by (rule exI [of _ "\<lparr>hashSize = 32, hash = replicate 64 0, algo = SHA256\<rparr>"],
        rule exI [of _ "\<lparr>hashSize = 32, hash = replicate 64 0, algo = BLAKE3\<rparr>"])
       (simp add: hash_wf_def regularHashSize_def maxHashSize_def hash_eq_def hash_cmp_def
          hash_bytes_def cmp_lists_Equivalent cmp_def algo_index_def)
qed

theorem hash_eq_coarser_than_order_witness:
  "hash_cmp example_hash example_hash = Equivalent \<longleftrightarrow>
     hash_eq example_hash example_hash \<and> algo example_hash = algo example_hash"
  using hash_eq_coarser_than_order example_hash_wf by blast

text \<open>byte \<open>j\<close> of a compressed hash is the exclusive or of the input bytes whose index is
  congruent to \<open>j\<close> modulo the new size, and the result has the new size (\<open>compressHash\<close>).\<close>

theorem compressHash_spec:
  assumes "hash_wf h" and "algo_enabled xp (algo h)" and "0 < n" and "n \<le> maxHashSize"
  shows "\<exists>h'. compressHash xp h n = Inr h' \<and> hashSize h' = n \<and> algo h' = algo h \<and>
    (\<forall>j < n. hash h' ! j =
       fold (XOR) (map (\<lambda>k. hash_bytes h ! k) (filter (\<lambda>k. k mod n = j) [0..<hashSize h])) 0)"
proof -
  have l: "length (hash_bytes h) = hashSize h"
    using assms(1) hash_bytes_len [OF assms(1)] by (simp add: hash_wf_def)
  show ?thesis
    using assms compress_loop_nth [of n "replicate maxHashSize 0" _ "hash_bytes h" 0] l
    by (auto simp: compressHash_def new_Hash_enabled)
qed

theorem compressHash_spec_witness:
  "\<exists>h'. compressHash [] example_hash 7 = Inr h' \<and> hashSize h' = 7 \<and> algo h' = algo example_hash \<and>
    (\<forall>j < 7. hash h' ! j =
       fold (XOR) (map (\<lambda>k. hash_bytes example_hash ! k)
         (filter (\<lambda>k. k mod 7 = j) [0..<hashSize example_hash])) 0)"
  by (rule compressHash_spec [OF example_hash_wf])
     (simp_all add: maxHashSize_def, simp add: example_hash_def)

end
