(* ===== verification/Nix_Strings.thy ===== *)
theory Nix_Strings
  imports Prelude
begin

text \<open>
  String utilities of \<open>src/src/libutil/strings.cc\<close>, \<open>include/nix/util/strings-inline.hh\<close> and
  \<open>util.cc\<close>: searching, splitting and joining, trimming, replacing and rewriting, shell quoting
  and its inverse, indentation, size units.

  A \<open>string_view\<close> with a position that only moves forward is the list of the remaining
  characters. \<open>find\<close> returning \<open>npos\<close> is \<open>None\<close>. The in-place \<open>rewriteStrings\<close> loop of the code
  need not end, so it is a \<open>partial_function (option)\<close> whose value is \<open>None\<close> when the loop runs
  forever.
\<close>

section \<open>Searching\<close>

text \<open>\<open>std::string::find(pat)\<close> and \<open>find(pat, pos)\<close>.\<close>

fun str_find :: "string \<Rightarrow> string \<Rightarrow> nat option" where
  "str_find pat [] = (if pat = [] then Some 0 else None)"
| "str_find pat (c # s) =
     (if take (length pat) (c # s) = pat then Some 0 else map_option Suc (str_find pat s))"

definition str_find_from :: "string \<Rightarrow> string \<Rightarrow> nat \<Rightarrow> nat option" where
  "str_find_from pat s pos =
     (if pos \<le> length s then map_option (\<lambda>i. pos + i) (str_find pat (drop pos s)) else None)"

definition hasPrefix :: "string \<Rightarrow> string \<Rightarrow> bool" where
  "hasPrefix s pre = (take (length pre) s = pre)"

definition hasSuffix :: "string \<Rightarrow> string \<Rightarrow> bool" where
  "hasSuffix s suf = (length suf \<le> length s \<and> drop (length s - length suf) s = suf)"

section \<open>Splitting and joining\<close>

function tokenizeString :: "string \<Rightarrow> string \<Rightarrow> string list" where
  "tokenizeString s seps =
     (case dropWhile (\<lambda>c. c \<in> set seps) s of
        [] \<Rightarrow> []
      | c # cs \<Rightarrow>
          takeWhile (\<lambda>c. c \<notin> set seps) (c # cs) #
          tokenizeString (dropWhile (\<lambda>c. c \<notin> set seps) (c # cs)) seps)"
  by pat_completeness auto

termination tokenizeString
proof (relation "measure (\<lambda>(s, seps). length s)", goal_cases)
  case (2 s seps c cs)
  from 2 have len: "length (c # cs) \<le> length s"
    by (metis length_dropWhile_le)
  from 2 have "c \<notin> set seps"
    by (metis hd_dropWhile list.distinct(1) list.sel(1))
  then have "length (dropWhile (\<lambda>c. c \<notin> set seps) (c # cs)) \<le> length cs"
    by (simp add: length_dropWhile_le)
  with len show ?case by simp
qed simp

declare tokenizeString.simps [simp del]

function splitString :: "string \<Rightarrow> string \<Rightarrow> string list" where
  "splitString s seps =
     takeWhile (\<lambda>c. c \<notin> set seps) s #
     (case dropWhile (\<lambda>c. c \<notin> set seps) s of
        [] \<Rightarrow> []
      | c # cs \<Rightarrow> splitString cs seps)"
  by pat_completeness auto

termination splitString
proof (relation "measure (\<lambda>(s, seps). length s)", goal_cases)
  case (2 s seps c cs)
  then have "length (c # cs) \<le> length s"
    by (metis length_dropWhile_le)
  then show ?case by simp
qed simp

declare splitString.simps [simp del]

fun concatStringsSep :: "string \<Rightarrow> string list \<Rightarrow> string" where
  "concatStringsSep sep [] = []"
| "concatStringsSep sep [s] = s"
| "concatStringsSep sep (s # t # ss) = s @ sep @ concatStringsSep sep (t # ss)"

definition concatStrings :: "string list \<Rightarrow> string" where
  "concatStrings parts = concatStringsSep [] parts"

fun dropEmptyInit_loop :: "string \<Rightarrow> string list \<Rightarrow> string \<Rightarrow> string" where
  "dropEmptyInit_loop sep [] s = s"
| "dropEmptyInit_loop sep (i # ss) s = dropEmptyInit_loop sep ss ((if s \<noteq> [] then s @ sep else s) @ i)"

definition dropEmptyInitThenConcatStringsSep :: "string \<Rightarrow> string list \<Rightarrow> string" where
  "dropEmptyInitThenConcatStringsSep sep ss = dropEmptyInit_loop sep ss []"

section \<open>Trimming, replacing, rewriting\<close>

definition dropWhile_end :: "('a \<Rightarrow> bool) \<Rightarrow> 'a list \<Rightarrow> 'a list" where
  "dropWhile_end P s = rev (dropWhile P (rev s))"

definition chomp :: "string \<Rightarrow> string" where
  "chomp s = dropWhile_end (\<lambda>c. c \<in> set [CHR '' '', CHR 0x0A, CHR 0x0D, CHR 0x09]) s"

definition trim :: "string \<Rightarrow> string \<Rightarrow> string" where
  "trim s whitespace =
     dropWhile_end (\<lambda>c. c \<in> set whitespace) (dropWhile (\<lambda>c. c \<in> set whitespace) s)"

lemma str_find_le: "str_find pat s = Some i \<Longrightarrow> i + length pat \<le> length s"
proof (induction s arbitrary: i)
  case (Cons c s)
  show ?case
  proof (cases "take (length pat) (c # s) = pat")
    case True
    with Cons.prems have "i = 0" by simp
    moreover from True have "length pat = min (length (c # s)) (length pat)"
      by (metis length_take)
    ultimately show ?thesis by simp
  next
    case False
    with Cons show ?thesis by auto
  qed
qed (auto split: if_splits)

function replaceStrings_loop :: "string \<Rightarrow> string \<Rightarrow> string \<Rightarrow> string" where
  "replaceStrings_loop res from to =
     (if from = [] then res
      else case str_find from res of
        None \<Rightarrow> res
      | Some i \<Rightarrow> take i res @ to @ replaceStrings_loop (drop (i + length from) res) from to)"
  by pat_completeness auto

termination replaceStrings_loop
  proof (relation "measure (\<lambda>(s, from, to). length s)", goal_cases)
  case (2 res fr to i)
  then have "i + length fr \<le> length res"
    by (auto dest: str_find_le)
  with 2 show ?case by (cases fr) auto
qed simp

declare replaceStrings_loop.simps [simp del]

definition replaceStrings :: "string \<Rightarrow> string \<Rightarrow> string \<Rightarrow> string" where
  "replaceStrings res from to = (if from = [] then res else replaceStrings_loop res from to)"

partial_function (option) rewrite_loop :: "string \<Rightarrow> string \<Rightarrow> string \<Rightarrow> nat \<Rightarrow> string option" where
  "rewrite_loop from to s j =
     (case str_find_from from s j of
        None \<Rightarrow> Some s
      | Some j' \<Rightarrow> rewrite_loop from to (take j' s @ to @ drop (j' + length from) s) j')"

declare rewrite_loop.simps [code]

text \<open>A \<open>StringMap\<close> is iterated in the order of its keys: \<open>rewrites\<close> lists its entries.\<close>

fun rewriteStrings :: "string \<Rightarrow> (string \<times> string) list \<Rightarrow> string option" where
  "rewriteStrings s [] = Some s"
| "rewriteStrings s ((from, to) # rewrites) =
     (if from = to then rewriteStrings s rewrites
      else case rewrite_loop from to s 0 of
        None \<Rightarrow> None
      | Some s' \<Rightarrow> rewriteStrings s' rewrites)"

section \<open>Shell words\<close>

definition escapeShellArgAlways :: "string \<Rightarrow> string" where
  "escapeShellArgAlways s =
     [CHR 0x27] @
     concat (map (\<lambda>i. if i = CHR 0x27 then [CHR 0x27, CHR 0x5C, CHR 0x27, CHR 0x27] else [i]) s) @
     [CHR 0x27]"

text \<open>
  \<open>shellSplitString\<close> has the locals \<open>result\<close>, \<open>current\<close>, \<open>startedCurrent\<close> and \<open>escaping\<close> and three
  loops over the remaining input: the outer one, \<open>inDoubleQuotes\<close> and \<open>inSingleQuotes\<close>.
\<close>

record shell_state =
  result :: "string list"
  current :: string
  startedCurrent :: bool
  escaping :: bool

definition pushCurrent :: "shell_state \<Rightarrow> shell_state" where
  "pushCurrent st =
     (if startedCurrent st
      then st\<lparr>result := result st @ [current st], current := [], startedCurrent := False\<rparr>
      else st)"

definition pushChar :: "char \<Rightarrow> shell_state \<Rightarrow> shell_state" where
  "pushChar c st = st\<lparr>current := current st @ [c], startedCurrent := True\<rparr>"

definition dquote_special :: "char \<Rightarrow> bool" where
  "dquote_special c = (c = CHR ''$'' \<or> c = CHR 0x60 \<or> c = CHR 0x22 \<or> c = CHR 0x5C)"

fun shell_outer :: "string \<Rightarrow> shell_state \<Rightarrow> shell_state res"
  and inDoubleQuotes :: "string \<Rightarrow> shell_state \<Rightarrow> shell_state res"
  and inSingleQuotes :: "string \<Rightarrow> shell_state \<Rightarrow> shell_state res" where
  "shell_outer [] st = Inr st"
| "shell_outer (c # s) st =
     (if escaping st then shell_outer s ((pushChar c st)\<lparr>escaping := False\<rparr>)
      else if c = CHR 0x5C then shell_outer s (st\<lparr>escaping := True\<rparr>)
      else if c = CHR '' '' \<or> c = CHR 0x09 then shell_outer s (pushCurrent st)
      else if c = CHR 0x22 then inDoubleQuotes s (st\<lparr>startedCurrent := True\<rparr>)
      else if c = CHR 0x27 then inSingleQuotes s (st\<lparr>startedCurrent := True\<rparr>)
      else shell_outer s (pushChar c st))"
| "inDoubleQuotes [] st = Inl (NixError Error ''unterminated double quote'')"
| "inDoubleQuotes (c # s) st =
     (if escaping st then
        (if dquote_special c then inDoubleQuotes s ((pushChar c st)\<lparr>escaping := False\<rparr>)
         else inDoubleQuotes s ((pushChar c (pushChar (CHR 0x5C) st))\<lparr>escaping := False\<rparr>))
      else if c = CHR 0x5C then inDoubleQuotes s (st\<lparr>escaping := True\<rparr>)
      else if c = CHR 0x22 then shell_outer s st
      else inDoubleQuotes s (pushChar c st))"
| "inSingleQuotes [] st = Inl (NixError Error ''unterminated single quote'')"
| "inSingleQuotes (c # s) st =
     (if c = CHR 0x27 then shell_outer s st else inSingleQuotes s (pushChar c st))"

definition shell_init :: shell_state where
  "shell_init = \<lparr>result = [], current = [], startedCurrent = False, escaping = False\<rparr>"

definition shellSplitString :: "string \<Rightarrow> string list res" where
  "shellSplitString s = bind_res (shell_outer s shell_init) (\<lambda>st. Inr (result (pushCurrent st)))"

definition optionalBracket :: "string \<Rightarrow> string \<Rightarrow> string \<Rightarrow> string" where
  "optionalBracket pre content suf = (if content = [] then [] else pre @ content @ suf)"

definition requireCString :: "string \<Rightarrow> string res" where
  "requireCString s =
     (if CHR 0x00 \<in> set s
      then Inl (NixError Error ''string '%s' with null bytes used where it's not allowed'')
      else Inr s)"

section \<open>Indentation and lines\<close>

record indent_state =
  minIndent :: nat
  curIndent :: nat
  atStartOfLine :: bool

fun indent_step :: "char \<Rightarrow> indent_state \<Rightarrow> indent_state" where
  "indent_step c st =
     (if atStartOfLine st \<and> c = CHR '' '' then st\<lparr>curIndent := curIndent st + 1\<rparr>
      else if c = CHR 0x0A then
        (if atStartOfLine st
         then st\<lparr>minIndent := max (minIndent st) (curIndent st), curIndent := 0, atStartOfLine := True\<rparr>
         else st\<lparr>curIndent := 0, atStartOfLine := True\<rparr>)
      else if atStartOfLine st
        then st\<lparr>minIndent := min (minIndent st) (curIndent st), atStartOfLine := False\<rparr>
      else st)"

definition indent_init :: indent_state where
  "indent_init = \<lparr>minIndent = 10000, curIndent = 0, atStartOfLine = True\<rparr>"

function strip_loop :: "nat \<Rightarrow> string \<Rightarrow> string" where
  "strip_loop m s =
     (if s = [] then []
      else let line = takeWhile (\<lambda>c. c \<noteq> CHR 0x0A) s;
               rest = drop (length line + 1) s
           in (if length line > m then drop m line else []) @ [CHR 0x0A] @ strip_loop m rest)"
  by pat_completeness auto

termination strip_loop
  by (relation "measure (\<lambda>(m, s). length s)") auto

declare strip_loop.simps [simp del]

definition stripIndentation :: "string \<Rightarrow> string" where
  "stripIndentation s = strip_loop (minIndent (fold indent_step s indent_init)) s"

definition getLine :: "string \<Rightarrow> string \<times> string" where
  "getLine s =
     (case str_find [CHR 0x0A] s of
        None \<Rightarrow> (s, [])
      | Some newline \<Rightarrow>
          let line = take newline s
          in (if line \<noteq> [] \<and> last line = CHR 0x0D then butlast line else line, drop (newline + 1) s))"

section \<open>Size units\<close>

datatype SizeUnit = Base | Kilo | Mega | Giga | Tera | Peta | Exa | Zetta | Yotta

definition sizeUnits :: "SizeUnit list" where
  "sizeUnits = [Base, Kilo, Mega, Giga, Tera, Peta, Exa, Zetta, Yotta]"

text \<open>
  The iterator \<open>unit\<close> is an index into \<open>sizeUnits\<close>; \<open>None\<close> stands for dereferencing the end
  iterator. \<open>std::abs\<close> of the smallest value is undefined behaviour and excluded by the
  precondition of the lemmas.
\<close>

function size_unit_loop :: "nat \<Rightarrow> nat \<Rightarrow> nat" where
  "size_unit_loop unit absValue =
     (if absValue > 1024 \<and> unit < length sizeUnits
      then size_unit_loop (unit + 1) (absValue div 1024) else unit)"
  by pat_completeness auto

termination size_unit_loop
  by (relation "measure (\<lambda>(u, a). length sizeUnits - u)") auto

declare size_unit_loop.simps [simp del]

definition getSizeUnit :: "64 word \<Rightarrow> SizeUnit option" where
  "getSizeUnit v =
     (let unit = size_unit_loop 0 (nat \<bar>sint v\<bar>)
      in if unit < length sizeUnits then Some (sizeUnits ! unit) else None)"

definition getSizeUnitSuffix :: "SizeUnit \<Rightarrow> char" where
  "getSizeUnitSuffix u =
     (case u of Base \<Rightarrow> CHR ''K'' | Kilo \<Rightarrow> CHR ''K'' | Mega \<Rightarrow> CHR ''M'' | Giga \<Rightarrow> CHR ''G''
      | Tera \<Rightarrow> CHR ''T'' | Peta \<Rightarrow> CHR ''P'' | Exa \<Rightarrow> CHR ''E'' | Zetta \<Rightarrow> CHR ''Z'' | Yotta \<Rightarrow> CHR ''Y'')"

definition getCommonSizeUnit :: "64 word list \<Rightarrow> SizeUnit option res" where
  "getCommonSizeUnit vs =
     bind_res (assert_res (vs \<noteq> [])) (\<lambda>_.
       let unit = getSizeUnit (hd vs)
       in Inr (if \<exists>v \<in> set (tl vs). unit \<noteq> getSizeUnit v then None else unit))"

section \<open>Searching: what \<open>find\<close> returns\<close>

lemma str_find_Some:
  "str_find pat s = Some i \<Longrightarrow> take (length pat) (drop i s) = pat"
proof (induction s arbitrary: i)
  case (Cons c s)
  then show ?case by (cases "take (length pat) (c # s) = pat") auto
qed (auto split: if_splits)

lemma str_find_min:
  "str_find pat s = Some i \<Longrightarrow> k < i \<Longrightarrow> take (length pat) (drop k s) \<noteq> pat"
proof (induction s arbitrary: i k)
  case (Cons c s)
  show ?case
  proof (cases "take (length pat) (c # s) = pat")
    case True
    with Cons.prems show ?thesis by simp
  next
    case False
    with Cons.prems obtain i' where "str_find pat s = Some i'" "i = Suc i'" by auto
    with Cons.IH [of i'] Cons.prems(2) False show ?thesis by (cases k) auto
  qed
qed (auto split: if_splits)

lemma str_find_None:
  "str_find pat s = None \<Longrightarrow> take (length pat) (drop k s) = pat \<Longrightarrow> pat = []"
proof (induction s arbitrary: k)
  case (Cons c s)
  show ?case
  proof (cases "take (length pat) (c # s) = pat")
    case True
    with Cons.prems show ?thesis by simp
  next
    case False
    with Cons show ?thesis by (cases k) auto
  qed
qed (auto split: if_splits)

lemma str_find_single:
  "str_find [c] s = (if c \<in> set s then Some (length (takeWhile (\<lambda>x. x \<noteq> c) s)) else None)"
  by (induction s) auto

lemma str_find_from_Some:
  assumes "str_find_from pat s j = Some i"
  shows "j \<le> i \<and> i + length pat \<le> length s \<and> take (length pat) (drop i s) = pat"
proof -
  from assms obtain k where k: "str_find pat (drop j s) = Some k" "i = j + k" "j \<le> length s"
    by (auto simp: str_find_from_def split: if_splits)
  show ?thesis using str_find_Some [OF k(1)] str_find_le [OF k(1)] k by (auto simp: add.commute)
qed

section \<open>Splitting and joining are inverse\<close>

lemma concatStringsSep_Cons:
  "concatStringsSep sep (s # ss) = (if ss = [] then s else s @ sep @ concatStringsSep sep ss)"
  by (cases ss) auto

lemma concatStrings_eq_concat: "concatStrings ss = concat ss"
  unfolding concatStrings_def by (induction ss) (auto simp: concatStringsSep_Cons)

lemma splitString_Nil: "splitString [] seps = [[]]"
  by (simp add: splitString.simps)

lemma splitString_noSep:
  "set s \<inter> set seps = {} \<Longrightarrow> splitString s seps = [s]"
proof -
  assume "set s \<inter> set seps = {}"
  then have "\<forall>x\<in>set s. x \<notin> set seps" by auto
  then have tw: "takeWhile (\<lambda>x. x \<notin> set seps) s = s" and dw: "dropWhile (\<lambda>x. x \<notin> set seps) s = []"
    by (simp_all add: takeWhile_eq_all_conv)
  show ?thesis by (subst splitString.simps, subst tw, subst dw) simp
qed

lemma splitString_sep:
  assumes "set s \<inter> set seps = {}" "c \<in> set seps"
  shows "splitString (s @ c # t) seps = s # splitString t seps"
proof -
  from assms have "\<forall>x\<in>set s. x \<notin> set seps" by auto
  with assms(2) show ?thesis
    by (subst splitString.simps) (simp add: takeWhile_append dropWhile_append)
qed

lemma splitString_ne: "splitString s seps \<noteq> []"
  by (subst splitString.simps) simp

lemma splitString_concat:
  "xs \<noteq> [] \<Longrightarrow> (\<And>x. x \<in> set xs \<Longrightarrow> c \<notin> set x) \<Longrightarrow>
   splitString (concatStringsSep [c] xs) [c] = xs"
  by (induction xs)
    (auto simp: concatStringsSep_Cons splitString_noSep splitString_sep)

lemma concat_splitString: "concatStringsSep [c] (splitString s [c]) = s"
proof (induction s "[c]" rule: splitString.induct)
  case (1 s)
  show ?case
  proof (cases "dropWhile (\<lambda>x. x \<notin> set [c]) s")
    case Nil
    then have "set s \<inter> set [c] = {}" by (auto simp: dropWhile_eq_Nil_conv)
    then show ?thesis by (simp add: splitString_noSep)
  next
    case (Cons d ds)
    have "dropWhile (\<lambda>x. x \<notin> set [c]) s \<noteq> []" using Cons by simp
    from hd_dropWhile [OF this] Cons have "d = c" by simp
    with 1 [OF Cons] Cons have "concatStringsSep [c] (splitString s [c]) =
        takeWhile (\<lambda>x. x \<notin> set [c]) s @ d # ds"
      by (subst splitString.simps) (simp add: concatStringsSep_Cons splitString_ne)
    with Cons show ?thesis by (metis takeWhile_dropWhile_id)
  qed
qed

section \<open>Shell words\<close>

definition escape_body :: "string \<Rightarrow> string" where
  "escape_body s =
     concat (map (\<lambda>i. if i = CHR 0x27 then [CHR 0x27, CHR 0x5C, CHR 0x27, CHR 0x27] else [i]) s)"

lemma escape_body_step:
  "escaping st = False \<Longrightarrow> startedCurrent st \<Longrightarrow>
   inSingleQuotes (escape_body s @ CHR 0x27 # t) st =
   shell_outer t (st\<lparr>current := current st @ s\<rparr>)"
proof (induction s arbitrary: st)
  case Nil
  then show ?case by (simp add: escape_body_def)
next
  case (Cons c s)
  have IH: "inSingleQuotes (escape_body s @ CHR 0x27 # t) (pushChar c st) =
      shell_outer t (st\<lparr>current := current st @ c # s\<rparr>)"
    using Cons.IH [of "pushChar c st"] Cons.prems by (cases st) (simp add: pushChar_def)
  show ?case
  proof (cases "c = CHR 0x27")
    case True
    have "(pushChar c (st\<lparr>escaping := True\<rparr>))\<lparr>escaping := False, startedCurrent := True\<rparr> = pushChar c st"
      using Cons.prems by (simp add: pushChar_def)
    with True IH Cons.prems show ?thesis by (cases st) (simp add: escape_body_def pushChar_def)
  next
    case False
    with IH show ?thesis by (simp add: escape_body_def)
  qed
qed

lemma shell_outer_escaped:
  assumes "\<not> escaping st" "\<not> startedCurrent st" "current st = []"
  shows "shell_outer (escapeShellArgAlways x @ t) st =
    shell_outer t (st\<lparr>current := x, startedCurrent := True\<rparr>)"
  using escape_body_step [of "st\<lparr>startedCurrent := True\<rparr>" x t] assms
  by (cases st) (simp add: escapeShellArgAlways_def escape_body_def)

lemma shell_outer_words:
  "\<not> escaping st \<Longrightarrow> \<not> startedCurrent st \<Longrightarrow> current st = [] \<Longrightarrow>
   bind_res (shell_outer (concatStringsSep '' '' (map escapeShellArgAlways xs)) st)
     (\<lambda>st. Inr (result (pushCurrent st))) = Inr (result st @ xs)"
proof (induction xs arbitrary: st)
  case Nil
  then show ?case by (simp add: pushCurrent_def)
next
  case (Cons x xs)
  show ?case
  proof (cases "xs = []")
    case True
    with Cons.prems shell_outer_escaped [of st x "[]"] show ?thesis by (simp add: pushCurrent_def)
  next
    case False
    let ?st = "pushCurrent (st\<lparr>current := x, startedCurrent := True\<rparr>)"
    have "shell_outer (concatStringsSep '' '' (map escapeShellArgAlways (x # xs))) st =
        shell_outer (concatStringsSep '' '' (map escapeShellArgAlways xs)) ?st"
      using False Cons.prems
      by (simp add: concatStringsSep_Cons shell_outer_escaped)
    with Cons.IH [of ?st] Cons.prems show ?thesis by (simp add: pushCurrent_def)
  qed
qed

section \<open>Rewriting\<close>

abbreviation occurs_at :: "string \<Rightarrow> nat \<Rightarrow> string \<Rightarrow> bool" where
  "occurs_at pat i s \<equiv> take (length pat) (drop i s) = pat"

lemma rewrite_loop_returns:
  assumes "length to \<le> length fr" "fr \<noteq> to"
  shows "\<exists>s'. rewrite_loop fr to s j = Some s' \<and> length s' \<le> length s \<and>
    (length to = length fr \<longrightarrow> length s' = length s)"
proof (induction "(s, j)" arbitrary: s j rule: wf_induct_rule [OF wf_measures
    [of "[\<lambda>(s, j). length s, \<lambda>(s, j). length s - j,
          \<lambda>(s, j). if take (length fr) (drop j s) = fr then 1 else 0]"]])
  case less: 1
  have ne: "fr \<noteq> []" using assms by auto
  show ?case
  proof (cases "str_find_from fr s j")
    case None
    then show ?thesis by (simp add: rewrite_loop.simps)
  next
    case (Some i)
    let ?s = "take i s @ to @ drop (i + length fr) s"
    from str_find_from_Some [OF Some]
    have i: "j \<le> i" "i + length fr \<le> length s" "occurs_at fr i s" by auto
    have len: "length ?s + length fr = length s + length to" using i by simp
    have no: "length to = length fr \<Longrightarrow> \<not> occurs_at fr i ?s" using i assms by simp
    have "0 < length fr" using ne by simp
    then have "((?s, i), (s, j)) \<in> measures [\<lambda>(s, j). length s, \<lambda>(s, j). length s - j,
          \<lambda>(s, j). if take (length fr) (drop j s) = fr then 1 else 0]"
      using i len assms(1) no by (cases "length to = length fr"; cases "i = j") auto
    from less [OF this] obtain s' where "rewrite_loop fr to ?s i = Some s'"
      "length s' \<le> length ?s" "length to = length fr \<longrightarrow> length s' = length ?s" by blast
    with Some len assms(1) show ?thesis by (subst rewrite_loop.simps) auto
  qed
qed

lemma str_find_skip:
  "(\<And>k. k < n \<Longrightarrow> \<not> occurs_at pat k s) \<Longrightarrow> n \<le> length s \<Longrightarrow>
   str_find pat s = map_option (\<lambda>i. n + i) (str_find pat (drop n s))"
proof (induction n arbitrary: s)
  case 0
  then show ?case by (simp add: option.map_ident)
next
  case (Suc n)
  from Suc.prems obtain c t where s: "s = c # t" by (cases s) auto
  have "\<not> occurs_at pat 0 s" using Suc.prems(1) by blast
  moreover have "\<not> occurs_at pat k t" if "k < n" for k
    using Suc.prems(1) [of "Suc k"] that s by simp
  ultimately show ?case using Suc.IH [of t] Suc.prems(2) s by (simp add: option.map_comp comp_def)
qed

text \<open>
  When the first character of the pattern does not occur in the replacement, the rewriting loop
  is the single left-to-right pass of \<open>replaceStrings\<close>.
\<close>

lemma str_find_from_append:
  assumes "fr \<noteq> []" "hd fr \<notin> set to"
  shows "str_find_from fr (p @ to @ r) (length p) =
    map_option (\<lambda>i. length p + length to + i) (str_find fr r)"
proof -
  have "\<not> occurs_at fr k (to @ r)" if "k < length to" for k
  proof
    assume "occurs_at fr k (to @ r)"
    then have "take 1 (drop k (to @ r)) = take 1 fr"
      using assms(1) by (metis One_nat_def Suc_leI length_greater_0_conv min.absorb1 take_take)
    then have "hd fr = to ! k"
      using assms(1) that by (cases fr) (auto simp: take_Suc hd_drop_conv_nth nth_append)
    with assms(2) that show False by simp
  qed
  from str_find_skip [where n = "length to" and pat = fr and s = "to @ r", OF this]
  have "str_find fr (to @ r) = map_option (\<lambda>i. length to + i) (str_find fr r)" by simp
  then show ?thesis
    by (simp add: str_find_from_def option.map_comp comp_def add.assoc)
qed

lemma rewrite_loop_replace:
  assumes "fr \<noteq> []" "hd fr \<notin> set to"
  shows "set to' \<subseteq> set to \<Longrightarrow>
    rewrite_loop fr to (p @ to' @ r) (length p) = Some (p @ to' @ replaceStrings_loop r fr to)"
proof (induction r arbitrary: p to' rule: measure_induct_rule [where f = length])
  case (less r)
  from less.prems assms(2) have hd': "hd fr \<notin> set to'" by auto
  show ?case
  proof (cases "str_find fr r")
    case None
    with assms(1) hd' show ?thesis
      by (simp add: rewrite_loop.simps [of fr to _ "length p"] str_find_from_append
        replaceStrings_loop.simps [of r])
  next
    case (Some i)
    from str_find_le [OF Some] have i: "i + length fr \<le> length r" .
    let ?p = "p @ to' @ take i r" and ?r = "drop (i + length fr) r"
    have "rewrite_loop fr to (p @ to' @ r) (length p) = rewrite_loop fr to (?p @ to @ ?r) (length ?p)"
      using Some assms(1) hd' i
      by (subst rewrite_loop.simps) (simp add: str_find_from_append add.assoc)
    also have "\<dots> = Some (?p @ to @ replaceStrings_loop ?r fr to)"
      using assms(1) i by (intro less.IH) (cases "fr", auto)
    finally show ?thesis
      using Some assms(1) by (simp add: replaceStrings_loop.simps [of r])
  qed
qed

lemma rewrite_loop_diverges:
  assumes "c \<in> set (drop j s)" shows "rewrite_loop [c] [c, c] s j = None"
proof (rule ccontr)
  assume "rewrite_loop [c] [c, c] s j \<noteq> None"
  then obtain y where "rewrite_loop [c] [c, c] s j = Some y" by auto
  then have "[c] = [c] \<longrightarrow> [c, c] = [c, c] \<longrightarrow> c \<notin> set (drop j s)"
  proof (rule rewrite_loop.raw_induct
      [where P = "\<lambda>fr to s j y. fr = [c] \<longrightarrow> to = [c, c] \<longrightarrow> c \<notin> set (drop j s)", rotated],
      intro impI)
    fix loop fr to s j y
    assume IH: "\<And>fr to s j y. loop fr to s j = Some y \<Longrightarrow>
        fr = [c] \<longrightarrow> to = [c, c] \<longrightarrow> c \<notin> set (drop j s)"
      and body: "(case str_find_from fr s j of None \<Rightarrow> Some s
        | Some j' \<Rightarrow> loop fr to (take j' s @ to @ drop (j' + length fr) s) j') = Some y"
      and eqs: "fr = [c]" "to = [c, c]"
    show "c \<notin> set (drop j s)"
    proof (cases "str_find_from fr s j")
      case None
      then show ?thesis
        using eqs by (auto simp: str_find_from_def str_find_single split: if_splits)
    next
      case (Some i)
      with body have "loop fr to (take i s @ to @ drop (i + length fr) s) i = Some y" by simp
      from IH [OF this] eqs str_find_from_Some [OF Some] show ?thesis by simp
    qed
  qed
  with assms show False by simp
qed

section \<open>Indentation\<close>

abbreviation nl :: char where "nl \<equiv> CHR 0x0A"

text \<open>The lines of a text: what \<open>splitString\<close> gives on newlines, without an empty last one.\<close>

definition text_lines :: "string \<Rightarrow> string list" where
  "text_lines s = (let ls = splitString s [nl] in if last ls = [] then butlast ls else ls)"

definition leading :: "string \<Rightarrow> nat" where
  "leading l = length (takeWhile (\<lambda>c. c = CHR '' '') l)"

definition blank_line :: "string \<Rightarrow> bool" where
  "blank_line l = list_all (\<lambda>c. c = CHR '' '') l"

lemma splitString_cases:
  assumes "s \<noteq> []"
  shows "(\<exists>l r. s = l @ nl # r \<and> nl \<notin> set l) \<or> nl \<notin> set s"
  using split_list_first [of nl s] by blast

lemma strip_loop_line:
  assumes "nl \<notin> set l"
  shows "strip_loop m (l @ nl # r) = drop m l @ [nl] @ strip_loop m r"
proof -
  have "takeWhile (\<lambda>c. c \<noteq> nl) (l @ nl # r) = l" using assms
    by (subst takeWhile_append2) auto
  then show ?thesis
    by (subst strip_loop.simps) (simp add: Let_def)
qed

lemma strip_loop_last:
  assumes "nl \<notin> set l" "l \<noteq> []"
  shows "strip_loop m l = drop m l @ [nl]"
proof -
  have tw: "takeWhile (\<lambda>c. c \<noteq> nl) l = l" using assms by (auto simp: takeWhile_eq_all_conv)
  from assms(2) show ?thesis
    by (subst strip_loop.simps, unfold Let_def tw) (simp add: strip_loop.simps [of m "[]"])
qed

lemma strip_loop_lines:
  "strip_loop m s = concat (map (\<lambda>l. drop m l @ [nl]) (text_lines s))"
proof (induction s rule: measure_induct_rule [where f = length])
  case (less s)
  show ?case
  proof (cases "nl \<in> set s")
    case True
    then obtain l r where s: "s = l @ nl # r" "nl \<notin> set l" by (blast dest: split_list_first)
    then have "text_lines s = l # text_lines r"
      by (simp add: text_lines_def splitString_sep splitString_ne Let_def)
    with less [of r] s show ?thesis by (simp add: strip_loop_line)
  next
    case False
    then show ?thesis
      by (cases "s = []")
        (auto simp: text_lines_def splitString_noSep strip_loop_last strip_loop.simps [of m "[]"] Let_def)
  qed
qed

text \<open>One line of the scan: a blank line can only raise the minimum, any other line lowers it.\<close>

lemma indent_spaces:
  "atStartOfLine st \<Longrightarrow> blank_line l \<Longrightarrow> fold indent_step l st = st\<lparr>curIndent := curIndent st + length l\<rparr>"
  by (induction l arbitrary: st) (auto simp: blank_line_def)

lemma indent_middle:
  "\<not> atStartOfLine st \<Longrightarrow> nl \<notin> set l \<Longrightarrow> fold indent_step l st = st"
  by (induction l arbitrary: st) auto

lemma indent_line:
  assumes "atStartOfLine st" "curIndent st = 0" "nl \<notin> set l" "\<not> blank_line l"
  shows "fold indent_step l st =
    st\<lparr>minIndent := min (minIndent st) (leading l), curIndent := leading l, atStartOfLine := False\<rparr>"
proof -
  let ?a = "takeWhile (\<lambda>c. c = CHR '' '') l" and ?b = "dropWhile (\<lambda>c. c = CHR '' '') l"
  have "?b \<noteq> []" using assms(4) by (auto simp: blank_line_def list_all_iff dropWhile_eq_Nil_conv)
  then obtain c t where b: "?b = c # t" by (cases ?b) auto
  then have c: "c \<noteq> CHR '' ''" using hd_dropWhile [OF \<open>?b \<noteq> []\<close>] by simp
  have l: "l = ?a @ c # t" using b by (metis takeWhile_dropWhile_id)
  have "set (c # t) \<subseteq> set l" using b set_dropWhileD by (metis subsetI)
  then have n: "c \<noteq> nl" "nl \<notin> set t" using assms(3) by auto
  have "blank_line ?a" by (auto simp: blank_line_def list_all_iff dest: set_takeWhileD)
  then have "fold indent_step ?a st = st\<lparr>curIndent := leading l\<rparr>"
    using indent_spaces [of st ?a] assms by (simp add: leading_def)
  then show ?thesis
    by (subst l) (use c n assms in \<open>simp add: indent_middle\<close>)
qed

lemma fold_indent_newline:
  assumes "atStartOfLine st" "curIndent st = 0" "nl \<notin> set l" "m \<le> minIndent st"
    "blank_line l \<Longrightarrow> length l \<le> m"
  shows "fold indent_step (l @ [nl]) st =
    st\<lparr>minIndent := (if blank_line l then minIndent st else min (minIndent st) (leading l))\<rparr>"
proof (cases "blank_line l")
  case True
  with assms indent_spaces [of st l] show ?thesis by (cases st) (auto simp: max_def)
next
  case False
  with assms indent_line [of st l] show ?thesis by (cases st) simp
qed

lemma minIndent_text:
  "atStartOfLine st \<Longrightarrow> curIndent st = 0 \<Longrightarrow> m \<le> minIndent st \<Longrightarrow>
   (\<And>l. l \<in> set (text_lines s) \<Longrightarrow> blank_line l \<Longrightarrow> length l \<le> m) \<Longrightarrow>
   (\<And>l. l \<in> set (text_lines s) \<Longrightarrow> \<not> blank_line l \<Longrightarrow> m \<le> leading l) \<Longrightarrow>
   minIndent (fold indent_step s st) =
     Min (insert (minIndent st) (leading ` {l \<in> set (text_lines s). \<not> blank_line l}))"
proof (induction s arbitrary: st rule: measure_induct_rule [where f = length])
  case (less s)
  show ?case
  proof (cases "nl \<in> set s")
    case True
    then obtain l r where s: "s = l @ nl # r" "nl \<notin> set l" by (blast dest: split_list_first)
    then have ls: "text_lines s = l # text_lines r"
      by (simp add: text_lines_def splitString_sep splitString_ne Let_def)
    define st' where "st' = fold indent_step (l @ [nl]) st"
    have st': "st' = st\<lparr>minIndent := (if blank_line l then minIndent st else min (minIndent st) (leading l))\<rparr>"
      unfolding st'_def using less.prems ls s by (intro fold_indent_newline [where m = m]) auto
    have "minIndent (fold indent_step s st) = minIndent (fold indent_step r st')"
      using s by (simp add: st'_def)
    also have "\<dots> = Min (insert (minIndent st') (leading ` {l \<in> set (text_lines r). \<not> blank_line l}))"
      using less.prems ls s st' by (intro less.IH) auto
    also have "\<dots> = Min (insert (minIndent st) (leading ` {l \<in> set (text_lines s). \<not> blank_line l}))"
    proof (cases "blank_line l")
      case True
      then have "{k \<in> set (text_lines s). \<not> blank_line k} = {k \<in> set (text_lines r). \<not> blank_line k}"
        using ls by auto
      with True st' show ?thesis by simp
    next
      case False
      then have "{k \<in> set (text_lines s). \<not> blank_line k} =
          insert l {k \<in> set (text_lines r). \<not> blank_line k}"
        using ls by auto
      moreover have "minIndent st' = min (minIndent st) (leading l)" using False st' by simp
      moreover have "Min (insert (min a b) S) = Min (insert a (insert b S))" if "finite S" for a b :: nat and S
        using that by (cases "S = {}") (auto simp: min.assoc)
      ultimately show ?thesis by simp
    qed
    finally show ?thesis .
  next
    case False
    show ?thesis
    proof (cases "blank_line s")
      case True
      then have "text_lines s = [] \<or> text_lines s = [s]"
        using \<open>nl \<notin> set s\<close> by (auto simp: text_lines_def splitString_noSep Let_def)
      then have "{l \<in> set (text_lines s). \<not> blank_line l} = {}" using True by auto
      moreover have "minIndent (fold indent_step s st) = minIndent st"
        using indent_spaces [OF less.prems(1) True] by (simp only:) simp
      ultimately show ?thesis by (simp only:) simp
    next
      case nb: False
      then have "s \<noteq> []" by (auto simp: blank_line_def)
      then have "text_lines s = [s]"
        using \<open>nl \<notin> set s\<close> by (auto simp: text_lines_def splitString_noSep Let_def)
      then have "{l \<in> set (text_lines s). \<not> blank_line l} = {s}" using nb by auto
      moreover have "minIndent (fold indent_step s st) = min (minIndent st) (leading s)"
        using indent_line [OF less.prems(1,2) False nb] by (simp only:) simp
      ultimately show ?thesis by (simp only:) simp
    qed
  qed
qed

section \<open>Size units\<close>

lemma size_unit_loop_bound:
  "a < 1024 ^ (k + 1) \<Longrightarrow> size_unit_loop u a \<le> u + k"
proof (induction k arbitrary: u a)
  case 0
  then show ?case by (simp add: size_unit_loop.simps)
next
  case (Suc k)
  then have "a div 1024 < 1024 ^ (k + 1)" by (simp add: less_mult_imp_div_less mult.commute)
  from Suc.IH [OF this, of "u + 1"] show ?case by (subst size_unit_loop.simps) simp
qed

section \<open>Properties\<close>

text \<open>C20: Quoting every word with \<open>escapeShellArgAlways\<close>, joining them with spaces and splitting the
  line with \<open>shellSplitString\<close> gives back exactly the words, whatever characters they contain.\<close>

theorem shellSplitString_escape:
  "shellSplitString (concatStringsSep '' '' (map escapeShellArgAlways xs)) = Inr xs"
  using shell_outer_words [of shell_init xs] by (simp add: shellSplitString_def shell_init_def)

text \<open>When no replacement is longer than its key, \<open>rewriteStrings\<close> returns, never with a longer
  string, and with a string of the same length when all replacements have the length of their keys
  (the case of hash rewriting).\<close>

theorem rewriteStrings_returns:
  assumes "\<forall>(k, v) \<in> set rws. length v \<le> length k"
  shows "\<exists>s'. rewriteStrings s rws = Some s' \<and> length s' \<le> length s \<and>
    ((\<forall>(k, v) \<in> set rws. length v = length k) \<longrightarrow> length s' = length s)"
  using assms
proof (induction rws arbitrary: s)
  case (Cons kv rws)
  obtain k v where kv: "kv = (k, v)" by (cases kv)
  show ?case
  proof (cases "k = v")
    case True
    with Cons kv show ?thesis by auto
  next
    case False
    from Cons.prems kv have "length v \<le> length k" by simp
    from rewrite_loop_returns [OF this False, of s 0] obtain s1 where s1:
      "rewrite_loop k v s 0 = Some s1" "length s1 \<le> length s"
      "length v = length k \<longrightarrow> length s1 = length s" by blast
    from Cons.IH [of s1] Cons.prems obtain s' where "rewriteStrings s1 rws = Some s'"
      "length s' \<le> length s1"
      "(\<forall>(k, v) \<in> set rws. length v = length k) \<longrightarrow> length s' = length s1" by auto
    with s1 kv False show ?thesis by auto
  qed
qed simp

theorem rewriteStrings_returns_witness:
  "\<exists>s'. rewriteStrings ''lib/aaaa-x'' [(''aaaa'', ''bbbb'')] = Some s' \<and> length s' = length ''lib/aaaa-x''"
  using rewriteStrings_returns [of "[(''aaaa'', ''bbbb'')]" "''lib/aaaa-x''"]
  by (auto simp del: rewriteStrings.simps)

text \<open>A rewriting whose key starts with a character that the replacement does not contain is the
  single left-to-right pass of \<open>replaceStrings\<close>.\<close>

theorem rewriteStrings_replace:
  assumes "k \<noteq> []" "hd k \<notin> set v"
  shows "rewriteStrings s [(k, v)] = Some (replaceStrings s k v)"
proof -
  from assms have "k \<noteq> v" by (cases k) auto
  with rewrite_loop_replace [OF assms, of "[]" "[]" s] assms show ?thesis
    by (simp add: replaceStrings_def)
qed

theorem rewriteStrings_replace_witness:
  "rewriteStrings ''xabyab'' [(''ab'', ''cde'')] = Some ''xcdeycde''"
  using rewriteStrings_replace [of "''ab''" "''cde''" "''xabyab''"]
  by (simp add: replaceStrings_def replaceStrings_loop.simps)

text \<open>A replacement that contains its key makes the loop run forever.\<close>

lemma rewriteStrings_diverges:
  "c \<in> set s \<Longrightarrow> rewriteStrings s [([c], [c, c])] = None"
  using rewrite_loop_diverges [of c 0 s] by simp

text \<open>Splitting at a separator and joining with it are inverse to each other: joining the pieces
  of any string gives the string back, and splitting the join of separator-free pieces gives the
  pieces back.\<close>

theorem split_join:
  assumes "xs \<noteq> []" "\<forall>x \<in> set xs. c \<notin> set x"
  shows "splitString (concatStringsSep [c] xs) [c] = xs \<and> concatStringsSep [c] (splitString s [c]) = s"
  using assms splitString_concat [of xs c] concat_splitString [of c s] by blast

theorem split_join_witness:
  "splitString ''a::b'' '':'' = [''a'', [], ''b''] \<and>
   concatStringsSep '':'' (splitString '':x'' '':'') = '':x''"
  using split_join [of "[''a'', [], ''b'']" "CHR '':''" "'':x''"] by simp

text \<open>When no line that consists of blanks only is longer than the common indentation \<open>m\<close> of the
  other lines (which are indented by at least \<open>m\<close>, one of them by exactly \<open>m\<close>),
  \<open>stripIndentation\<close> removes exactly \<open>m\<close> characters from every line.\<close>

theorem stripIndentation_spec:
  assumes "l0 \<in> set (text_lines s)" "\<not> blank_line l0" "leading l0 = m" "m \<le> 10000"
    and "\<forall>l \<in> set (text_lines s). blank_line l \<longrightarrow> length l \<le> m"
    and "\<forall>l \<in> set (text_lines s). \<not> blank_line l \<longrightarrow> m \<le> leading l"
  shows "stripIndentation s = concat (map (\<lambda>l. drop m l @ [CHR 0x0A]) (text_lines s))"
proof -
  have "minIndent (fold indent_step s indent_init) =
      Min (insert 10000 (leading ` {l \<in> set (text_lines s). \<not> blank_line l}))"
    using assms minIndent_text [of indent_init m s] by (simp add: indent_init_def)
  also have "\<dots> = m"
    using assms by (intro Min_eqI) auto
  finally show ?thesis by (simp add: stripIndentation_def strip_loop_lines)
qed

theorem stripIndentation_spec_witness:
  "stripIndentation (''  a'' @ [CHR 0x0A, CHR 0x0A] @ ''   b'') = ''a'' @ [CHR 0x0A, CHR 0x0A] @ '' b'' @ [CHR 0x0A]"
proof -
  have ls: "text_lines (''  a'' @ [CHR 0x0A, CHR 0x0A] @ ''   b'') = [''  a'', [], ''   b'']"
    by (simp add: text_lines_def splitString.simps Let_def)
  show ?thesis
    using stripIndentation_spec [of "''  a''" "''  a'' @ [CHR 0x0A, CHR 0x0A] @ ''   b''" 2]
    unfolding ls by (simp add: blank_line_def leading_def)
qed

text \<open>A line of blanks that is longer than the indentation of the text is taken as the new
  indentation, so the text itself is cut: every line of the example disappears although its common
  indentation is two.\<close>

theorem stripIndentation_blank_line:
  "stripIndentation (''  foo'' @ [CHR 0x0A] @ ''      '' @ [CHR 0x0A]) = [CHR 0x0A, CHR 0x0A]"
  by code_simp

text \<open>For every 64-bit value except the smallest, \<open>getSizeUnit\<close> stops inside the table of units,
  at most at exbibytes.\<close>

theorem getSizeUnit_bounds:
  assumes "- (2 ^ 63) < sint v"
  shows "\<exists>u. getSizeUnit v = Some u \<and> u \<in> {Base, Kilo, Mega, Giga, Tera, Peta, Exa}"
proof -
  have "sint v < 2 ^ 63" using sint_lt [of v] by simp
  with assms have "\<bar>sint v\<bar> < 2 ^ 63" by linarith
  then have "nat \<bar>sint v\<bar> < 1024 ^ (6 + 1)" by simp
  from size_unit_loop_bound [OF this, of 0] have i: "size_unit_loop 0 (nat \<bar>sint v\<bar>) \<le> 6" by simp
  then have "size_unit_loop 0 (nat \<bar>sint v\<bar>) \<in> {0, 1, 2, 3, 4, 5, 6}" by auto
  then show ?thesis by (auto simp: getSizeUnit_def Let_def sizeUnits_def)
qed

theorem getSizeUnit_bounds_witness:
  "\<exists>u. getSizeUnit (5000 :: 64 word) = Some u \<and> u \<in> {Base, Kilo, Mega, Giga, Tera, Peta, Exa}"
  by (rule getSizeUnit_bounds) simp

end
