(* ===== verification/Canon_Path.thy ===== *)
theory Canon_Path
  imports Nix_Strings "HOL-Library.Sublist"
begin

text \<open>
  Path canonicalisation (\<open>canonPathInner\<close> of \<open>include/nix/util/file-path-impl.hh\<close>, \<open>canonPath\<close>
  and \<open>baseNameOf\<close> of \<open>file-system.cc\<close>) and the class \<open>CanonPath\<close> (\<open>canon-path.hh\<close>,
  \<open>canon-path.cc\<close>), for the Unix path trait.

  The loop of \<open>canonPathInner\<close> calls a hook that may replace the result so far and the remaining
  path (this is how \<open>canonPath\<close> follows symbolic links), so it need not end: it is a
  \<open>partial_function (option)\<close>. The locale \<open>resolve_hook\<close> states what a hook must keep for the loop
  to return a canonical path; the identity hook of \<open>CanonPath\<close> and the symbolic-link hook of
  \<open>canonPath\<close> are its interpretations. The abstract view of a canonical path is its list of
  components.
\<close>

section \<open>The canonicalisation loop\<close>

abbreviation slash :: char where "slash \<equiv> CHR ''/''"

text \<open>\<open>rfindPathSep(s)\<close>.\<close>

definition rfindPathSep :: "string \<Rightarrow> nat option" where
  "rfindPathSep s =
     (if slash \<in> set s then Some (length s - 1 - length (takeWhile (\<lambda>c. c \<noteq> slash) (rev s))) else None)"

text \<open>\<open>result.erase(pos)\<close>: \<open>npos\<close> is past the end and makes \<open>erase\<close> throw.\<close>

definition erase_from :: "string \<Rightarrow> nat option \<Rightarrow> string res" where
  "erase_from s pos =
     (case pos of None \<Rightarrow> Inl (NixError AssertionFailure ''std::out_of_range'') | Some i \<Rightarrow> Inr (take i s))"

type_synonym 's path_hook = "string \<Rightarrow> string \<Rightarrow> 's \<Rightarrow> (string \<times> string \<times> 's) res"

partial_function (option) canonPath_loop ::
  "'s path_hook \<Rightarrow> string \<Rightarrow> string \<Rightarrow> 's \<Rightarrow> (string \<times> 's) res option" where
  "canonPath_loop hook res rem st =
     (let rem1 = dropWhile (\<lambda>c. c = slash) rem in
      if rem1 = [] then Some (Inr (res, st))
      else
        let nextComp = takeWhile (\<lambda>c. c \<noteq> slash) rem1 in
        if nextComp = ''.'' then canonPath_loop hook res (drop 1 rem1) st
        else if nextComp = ''..'' then
          (if res \<noteq> [] then
             (case erase_from res (rfindPathSep res) of
                Inl e \<Rightarrow> Some (Inl e)
              | Inr res1 \<Rightarrow> canonPath_loop hook res1 (drop 2 rem1) st)
           else canonPath_loop hook res (drop 2 rem1) st)
        else
          (case hook (res @ slash # nextComp) (drop (length nextComp) rem1) st of
             Inl e \<Rightarrow> Some (Inl e)
           | Inr r \<Rightarrow> canonPath_loop hook (fst r) (fst (snd r)) (snd (snd r))))"

declare canonPath_loop.simps [code]

definition canonPathInner :: "'s path_hook \<Rightarrow> string \<Rightarrow> 's \<Rightarrow> string res option" where
  "canonPathInner hook remaining st =
     (case assert_res (remaining \<noteq> []) of
        Inl e \<Rightarrow> Some (Inl e)
      | Inr _ \<Rightarrow>
          map_option (\<lambda>r. bind_res r (\<lambda>(res, _). Inr (if res = [] then [slash] else res)))
            (canonPath_loop hook [] remaining st))"

text \<open>The hook \<open>[](auto &, auto &) {}\<close>.\<close>

definition no_hook :: "unit path_hook" where
  "no_hook res rem st = Inr (res, rem, st)"

definition absPathPure :: "string \<Rightarrow> string res option" where
  "absPathPure path = canonPathInner no_hook path ()"

section \<open>\<open>canonPath\<close>: following symbolic links\<close>

text \<open>
  The file system is the parameter \<open>readLink\<close>: the target of a path that is a symbolic link,
  \<open>None\<close> for anything else. \<open>followCount\<close> is the state of the hook.
\<close>

definition parent_path :: "string \<Rightarrow> string" where
  "parent_path p = (case rfindPathSep p of None \<Rightarrow> [] | Some 0 \<Rightarrow> [slash] | Some i \<Rightarrow> take i p)"

definition is_absolute :: "string \<Rightarrow> bool" where
  "is_absolute p = (case p of [] \<Rightarrow> False | c # _ \<Rightarrow> c = slash)"

definition maxFollow :: nat where "maxFollow = 1024"

definition symlink_hook :: "bool \<Rightarrow> (string \<Rightarrow> string option) \<Rightarrow> nat path_hook" where
  "symlink_hook resolveSymlinks readLink res remaining followCount =
     (case (if resolveSymlinks then readLink res else None) of
        None \<Rightarrow> Inr (res, remaining, followCount)
      | Some target \<Rightarrow>
          if followCount + 1 \<ge> maxFollow
          then Inl (NixError Error ''infinite symlink recursion in path '%1%'.'')
          else
            let remaining1 = concatStrings [target, remaining] in
            if is_absolute remaining1 then Inr ([], remaining1, followCount + 1)
            else
              let res1 = parent_path res
              in Inr (if res1 = [slash] then [] else res1, remaining1, followCount + 1))"

definition canonPath :: "(string \<Rightarrow> string option) \<Rightarrow> string \<Rightarrow> bool \<Rightarrow> string res option" where
  "canonPath readLink path resolveSymlinks =
     (if path = [] then Some (Inl (NixError Error ''cannot canonicalise an empty path''))
      else if \<not> is_absolute path then Some (Inl (NixError Error ''not an absolute path: %s''))
      else canonPathInner (symlink_hook resolveSymlinks readLink) path 0)"

definition baseNameOf :: "string \<Rightarrow> string" where
  "baseNameOf path =
     (if path = [] then []
      else
        let k = length (takeWhile (\<lambda>c. c = slash) (rev path));
            last = length path - 1 - min k (length path - 1);
            pos = (case rfindPathSep (take (last + 1) path) of None \<Rightarrow> 0 | Some i \<Rightarrow> i + 1)
        in take (last + 1 - pos) (drop pos path))"

section \<open>\<open>CanonPath\<close>\<close>

datatype CanonPath = CanonPath (path_abs: string)

definition ensureNoNullBytes :: "string \<Rightarrow> unit res" where
  "ensureNoNullBytes s =
     throw_if (CHR 0x00 \<in> set s) BadCanonPath ''path segment '%s' must not contain null bytes''"

text \<open>The constructors. An unreturned canonicalisation would be \<open>None\<close>.\<close>

definition of_absPathPure :: "string \<Rightarrow> CanonPath res option" where
  "of_absPathPure raw = map_option (\<lambda>r. bind_res r (\<lambda>p. Inr (CanonPath p))) (absPathPure raw)"

definition mk_CanonPath_cstr :: "string \<Rightarrow> CanonPath res option" where
  "mk_CanonPath_cstr raw = of_absPathPure (concatStrings [[slash], raw])"

definition mk_CanonPath :: "string \<Rightarrow> CanonPath res option" where
  "mk_CanonPath raw =
     map_option (\<lambda>r. bind_res r (\<lambda>p. bind_res (ensureNoNullBytes raw) (\<lambda>_. Inr p)))
       (of_absPathPure (concatStrings [[slash], raw]))"

definition mk_CanonPath_rel :: "string \<Rightarrow> CanonPath \<Rightarrow> CanonPath res option" where
  "mk_CanonPath_rel raw base =
     map_option (\<lambda>r. bind_res r (\<lambda>p. bind_res (ensureNoNullBytes raw) (\<lambda>_. Inr p)))
       (of_absPathPure
         (if length raw > 0 \<and> raw ! 0 = slash then raw else concatStrings [path_abs base, [slash], raw]))"

definition root :: CanonPath where "root = CanonPath [slash]"

definition isRoot :: "CanonPath \<Rightarrow> bool" where
  "isRoot p = (length (path_abs p) \<le> 1)"

definition rel :: "CanonPath \<Rightarrow> string" where
  "rel p = drop 1 (path_abs p)"

definition absOrEmpty :: "CanonPath \<Rightarrow> string" where
  "absOrEmpty p = (if isRoot p then [] else path_abs p)"

text \<open>
  \<open>CanonPath::Iterator\<close>: the state is the view \<open>remaining\<close>; two iterators of one path are equal
  when they point at the same character, so the end iterator is the empty view.
\<close>

definition iter_deref :: "string \<Rightarrow> string" where
  "iter_deref remaining = takeWhile (\<lambda>c. c \<noteq> slash) remaining"

definition iter_next :: "string \<Rightarrow> string" where
  "iter_next remaining = drop 1 (dropWhile (\<lambda>c. c \<noteq> slash) remaining)"

lemma length_iter_next [termination_simp]: "r \<noteq> [] \<Longrightarrow> length (iter_next r) < length r"
proof -
  assume "r \<noteq> []"
  have "length (dropWhile (\<lambda>c. c \<noteq> slash) r) \<le> length r" by (rule length_dropWhile_le)
  moreover have "0 < length r" using \<open>r \<noteq> []\<close> by blast
  ultimately show ?thesis unfolding iter_next_def length_drop by arith
qed

function iter_elems :: "string \<Rightarrow> string list" where
  "iter_elems r = (if r = [] then [] else iter_deref r # iter_elems (iter_next r))"
  by pat_completeness auto
termination by (relation "measure length") (auto simp: length_iter_next)

declare iter_elems.simps [simp del]

definition path_elems :: "CanonPath \<Rightarrow> string list" where
  "path_elems p = iter_elems (rel p)"

definition fromFilename :: "string \<Rightarrow> CanonPath res option" where
  "fromFilename segment =
     map_option (\<lambda>r. bind_res r (\<lambda>p.
       if segment \<noteq> rel p \<or> length (path_elems p) \<noteq> 1
       then Inl (NixError BadCanonPath ''invalid filename '%s'.'') else Inr p))
     (mk_CanonPath segment)"

text \<open>\<open>substr(0, path.rfind('/'))\<close> with \<open>npos\<close> is the whole string; \<open>resize\<close> to \<open>npos\<close> throws.\<close>

definition rfind_or_len :: "string \<Rightarrow> nat" where
  "rfind_or_len s = (case rfindPathSep s of None \<Rightarrow> length s | Some i \<Rightarrow> i)"

definition parent :: "CanonPath \<Rightarrow> CanonPath option" where
  "parent p =
     (if isRoot p then None
      else Some (CanonPath (take (max 1 (rfind_or_len (path_abs p))) (path_abs p))))"

definition pop :: "CanonPath \<Rightarrow> CanonPath res" where
  "pop p =
     bind_res (assert_res (\<not> isRoot p)) (\<lambda>_.
       case rfindPathSep (path_abs p) of
         None \<Rightarrow> Inl (NixError AssertionFailure ''std::length_error'')
       | Some i \<Rightarrow> Inr (CanonPath (take (max 1 i) (path_abs p))))"

definition dirOf :: "CanonPath \<Rightarrow> string option" where
  "dirOf p = (if isRoot p then None else Some (take (rfind_or_len (path_abs p)) (path_abs p)))"

definition baseName :: "CanonPath \<Rightarrow> string option" where
  "baseName p =
     (if isRoot p then None else Some (drop (rfind_or_len (path_abs p) + 1) (path_abs p)))"

definition isWithin :: "CanonPath \<Rightarrow> CanonPath \<Rightarrow> bool" where
  "isWithin p par =
     (let s = path_abs p; t = path_abs par in
      \<not> (length s < length t \<or> take (length t) s \<noteq> t
         \<or> (length t > 1 \<and> length s > length t \<and> s ! length t \<noteq> slash)))"

definition removePrefix :: "CanonPath \<Rightarrow> CanonPath \<Rightarrow> CanonPath res" where
  "removePrefix p pre =
     bind_res (assert_res (isWithin p pre)) (\<lambda>_.
       if isRoot pre then Inr p
       else if length (path_abs p) = length (path_abs pre) then Inr root
       else Inr (CanonPath (drop (length (path_abs pre)) (path_abs p))))"

definition extend :: "CanonPath \<Rightarrow> CanonPath \<Rightarrow> CanonPath" where
  "extend p x =
     (if isRoot x then p
      else if isRoot p then CanonPath (path_abs p @ rel x)
      else CanonPath (path_abs p @ path_abs x))"

definition push :: "CanonPath \<Rightarrow> string \<Rightarrow> CanonPath res" where
  "push p c =
     bind_res (assert_res (slash \<notin> set c)) (\<lambda>_.
     bind_res (assert_res (c \<noteq> ''.'' \<and> c \<noteq> ''..'')) (\<lambda>_.
     bind_res (ensureNoNullBytes c) (\<lambda>_.
       Inr (CanonPath ((if \<not> isRoot p then path_abs p @ [slash] else path_abs p) @ c)))))"

definition mk_CanonPath_elems :: "string list \<Rightarrow> CanonPath res" where
  "mk_CanonPath_elems elems = fold_res (\<lambda>c p. push p c) elems (CanonPath [slash])"

text \<open>
  \<open>operator<=>\<close>: \<open>char\<close> is signed on the platforms Nix is built for (x86-64), so bytes from 128 on
  compare below 0, the value that stands for the separator.
\<close>

definition path_key :: "char \<Rightarrow> int" where
  "path_key c = (if c = slash then 0 else sint (byte_of_char c))"

fun cmp_keys :: "string \<Rightarrow> string \<Rightarrow> int" where
  "cmp_keys (a # s) (b # t) =
     (if path_key a < path_key b then -1 else if path_key b < path_key a then 1 else cmp_keys s t)"
| "cmp_keys [] [] = 0"
| "cmp_keys [] (b # t) = -1"
| "cmp_keys (a # s) [] = 1"

definition path_cmp :: "CanonPath \<Rightarrow> CanonPath \<Rightarrow> int" where
  "path_cmp p q = cmp_keys (path_abs p) (path_abs q)"

text \<open>
  A \<open>std::set<CanonPath>\<close> is the list of its elements in increasing order. \<open>lower_bound\<close> is the first
  element that is not less, \<open>count\<close> looks for an equivalent one.
\<close>

definition lower_bound :: "CanonPath list \<Rightarrow> CanonPath \<Rightarrow> CanonPath option" where
  "lower_bound s p = find (\<lambda>a. \<not> path_cmp a p < 0) s"

definition path_count :: "CanonPath list \<Rightarrow> CanonPath \<Rightarrow> bool" where
  "path_count s p = list_ex (\<lambda>a. path_cmp a p = 0) s"

lemma pop_shorter: "pop p = Inr p1 \<Longrightarrow> length (path_abs p1) < length (path_abs p)"
proof -
  assume "pop p = Inr p1"
  then obtain i where i: "1 < length (path_abs p)" "rfindPathSep (path_abs p) = Some i"
      "p1 = CanonPath (take (max 1 i) (path_abs p))"
    by (auto simp: pop_def res_simps isRoot_def split: option.splits)
  then have "i < length (path_abs p)" by (auto simp: rfindPathSep_def split: if_splits)
  with i show ?thesis by simp
qed

function allowed_loop :: "CanonPath list \<Rightarrow> CanonPath \<Rightarrow> bool res" where
  "allowed_loop allowed p =
     (if isRoot p then Inr False
      else
        (case pop p of
           Inl e \<Rightarrow> Inl e
         | Inr p1 \<Rightarrow> if path_count allowed p1 then Inr True else allowed_loop allowed p1))"
  by pat_completeness auto
termination
  by (relation "measure (\<lambda>(a, p). length (path_abs p))") (auto dest: pop_shorter)

declare allowed_loop.simps [simp del]

definition isAllowed :: "CanonPath \<Rightarrow> CanonPath list \<Rightarrow> bool res" where
  "isAllowed p allowed =
     (case lower_bound allowed p of
        Some lb \<Rightarrow> if isWithin lb p then Inr True else allowed_loop allowed p
      | None \<Rightarrow> allowed_loop allowed p)"

function skip_common :: "string \<Rightarrow> string \<Rightarrow> string \<times> string" where
  "skip_common p1 p2 =
     (if p1 \<noteq> [] \<and> p2 \<noteq> [] \<and> iter_deref p1 = iter_deref p2
      then skip_common (iter_next p1) (iter_next p2) else (p1, p2))"
  by pat_completeness auto
termination by (relation "measure (\<lambda>(p, q). length p)") (auto simp: length_iter_next)

declare skip_common.simps [simp del]

function dotdots :: "string \<Rightarrow> string \<Rightarrow> string" where
  "dotdots p1 r =
     (if p1 = [] then r
      else dotdots (iter_next p1) ((if r \<noteq> [] then r @ [slash] else r) @ ''..''))"
  by pat_completeness auto
termination by (relation "measure (\<lambda>(p, q). length p)") (auto simp: length_iter_next)

declare dotdots.simps [simp del]

definition makeRelative :: "CanonPath \<Rightarrow> CanonPath \<Rightarrow> string" where
  "makeRelative this path =
     (let (p1, p2) = skip_common (rel this) (rel path) in
      if p1 = [] \<and> p2 = [] then ''.''
      else if p1 = [] then p2
      else
        let r = dotdots p1 []
        in if p2 \<noteq> [] then (if r \<noteq> [] then r @ [slash] else r) @ p2 else r)"

section \<open>Components\<close>

text \<open>The text of a list of components, and what the components of a canonical path look like.\<close>

definition rend :: "string list \<Rightarrow> string" where
  "rend cs = concat (map (\<lambda>c. slash # c) cs)"

definition comp_ok :: "string \<Rightarrow> bool" where
  "comp_ok c = (c \<noteq> [] \<and> slash \<notin> set c \<and> c \<noteq> ''.'' \<and> c \<noteq> ''..'')"

definition rend_root :: "string list \<Rightarrow> string" where
  "rend_root cs = (if cs = [] then [slash] else rend cs)"

text \<open>The abstract specification of canonicalisation, one component at a time.\<close>

definition resolve_step :: "string \<Rightarrow> string list \<Rightarrow> string list" where
  "resolve_step c cs = (if c = [] \<or> c = ''.'' then cs else if c = ''..'' then butlast cs else cs @ [c])"

definition raw_comps :: "string \<Rightarrow> string list" where
  "raw_comps s = splitString s [slash]"

definition resolve :: "string \<Rightarrow> string list" where
  "resolve s = fold resolve_step (raw_comps s) []"

lemma rend_simps [simp]:
  "rend [] = []" "rend (c # cs) = slash # c @ rend cs" "rend (cs @ ds) = rend cs @ rend ds"
  by (simp_all add: rend_def)

lemma rend_eq_Nil [simp]: "(rend cs = []) = (cs = [])"
  by (cases cs) auto

lemma rend_butlast_last: "cs \<noteq> [] \<Longrightarrow> rend cs = rend (butlast cs) @ slash # last cs"
  using rend_simps(3) [of "butlast cs" "[last cs]"] by simp

lemma rfindPathSep_app: "slash \<notin> set c \<Longrightarrow> rfindPathSep (s @ slash # c) = Some (length s)"
proof -
  assume "slash \<notin> set c"
  then have "takeWhile (\<lambda>x. x \<noteq> slash) (rev c @ slash # rev s) = rev c"
    by (subst takeWhile_append2) auto
  then show ?thesis by (simp add: rfindPathSep_def)
qed

lemma rfindPathSep_rend:
  "cs \<noteq> [] \<Longrightarrow> comp_ok (last cs) \<Longrightarrow> rfindPathSep (rend cs) = Some (length (rend (butlast cs)))"
  by (subst rend_butlast_last) (auto intro!: rfindPathSep_app simp: comp_ok_def)

lemma take_rend_butlast: "cs \<noteq> [] \<Longrightarrow> take (length (rend (butlast cs))) (rend cs) = rend (butlast cs)"
  by (subst (2) rend_butlast_last) auto

lemma comp_ok_last: "list_all comp_ok cs \<Longrightarrow> cs \<noteq> [] \<Longrightarrow> comp_ok (last cs)"
  by (auto simp: list_all_iff)

lemma comp_ok_butlast: "list_all comp_ok cs \<Longrightarrow> list_all comp_ok (butlast cs)"
  by (auto simp: list_all_iff dest: in_set_butlastD)

section \<open>One round of the loop\<close>

lemma loop_end:
  "dropWhile (\<lambda>c. c = slash) rem = [] \<Longrightarrow> canonPath_loop hook res rem st = Some (Inr (res, st))"
  by (subst canonPath_loop.simps) (simp add: Let_def)

lemma loop_dot:
  "dropWhile (\<lambda>c. c = slash) rem = r \<Longrightarrow> r \<noteq> [] \<Longrightarrow>
   takeWhile (\<lambda>c. c \<noteq> slash) r = ''.'' \<Longrightarrow>
   canonPath_loop hook res rem st = canonPath_loop hook res (drop 1 r) st"
  by (subst canonPath_loop.simps, unfold Let_def) simp

lemma loop_dotdot_Nil:
  "dropWhile (\<lambda>c. c = slash) rem = r \<Longrightarrow> r \<noteq> [] \<Longrightarrow>
   takeWhile (\<lambda>c. c \<noteq> slash) r = ''..'' \<Longrightarrow>
   canonPath_loop hook [] rem st = canonPath_loop hook [] (drop 2 r) st"
  by (subst canonPath_loop.simps, unfold Let_def) simp

lemma loop_dotdot:
  "dropWhile (\<lambda>c. c = slash) rem = r \<Longrightarrow> r \<noteq> [] \<Longrightarrow>
   takeWhile (\<lambda>c. c \<noteq> slash) r = ''..'' \<Longrightarrow> cs \<noteq> [] \<Longrightarrow> list_all comp_ok cs \<Longrightarrow>
   canonPath_loop hook (rend cs) rem st = canonPath_loop hook (rend (butlast cs)) (drop 2 r) st"
  by (subst canonPath_loop.simps, unfold Let_def)
    (simp add: rfindPathSep_rend comp_ok_last erase_from_def take_rend_butlast)

lemma loop_comp:
  "dropWhile (\<lambda>c. c = slash) rem = r \<Longrightarrow> r \<noteq> [] \<Longrightarrow>
   takeWhile (\<lambda>c. c \<noteq> slash) r = c \<Longrightarrow> comp_ok c \<Longrightarrow>
   canonPath_loop hook (rend cs) rem st =
     (case hook (rend (cs @ [c])) (drop (length c) r) st of
        Inl e \<Rightarrow> Some (Inl e)
      | Inr (res', rem', st') \<Rightarrow> canonPath_loop hook res' rem' st')"
  by (subst canonPath_loop.simps, unfold Let_def)
    (auto simp: comp_ok_def case_prod_beta split: sum.split)

lemma next_comp_cases:
  assumes "dropWhile (\<lambda>c. c = slash) rem = r" "r \<noteq> []"
  obtains "takeWhile (\<lambda>c. c \<noteq> slash) r = ''.''" | "takeWhile (\<lambda>c. c \<noteq> slash) r = ''..''"
  | c where "takeWhile (\<lambda>c. c \<noteq> slash) r = c" "comp_ok c"
proof -
  have "hd r \<noteq> slash" using hd_dropWhile [of "\<lambda>c. c = slash" rem] assms by simp
  with assms(2) have "takeWhile (\<lambda>c. c \<noteq> slash) r \<noteq> []" by (cases r) auto
  moreover have "slash \<notin> set (takeWhile (\<lambda>c. c \<noteq> slash) r)" by (auto dest: set_takeWhileD)
  ultimately show ?thesis using that by (auto simp: comp_ok_def)
qed

section \<open>Hooks that keep paths canonical\<close>

text \<open>
  The contract of a hook: on a canonical result it either accepts the new component and leaves the
  rest alone, or it replaces result and remaining path and uses up some of a budget. \<open>good\<close> is what
  the hook knows about an accepted result.
\<close>

locale resolve_hook =
  fixes hook :: "'s path_hook"
    and good :: "string list \<Rightarrow> bool"
    and budget :: "'s \<Rightarrow> nat"
  assumes good_Nil: "good []"
    and good_butlast: "good cs \<Longrightarrow> good (butlast cs)"
    and hook_Inr:
      "good cs \<Longrightarrow> list_all comp_ok cs \<Longrightarrow> comp_ok c \<Longrightarrow>
       hook (rend (cs @ [c])) rem st = Inr (res', rem', st') \<Longrightarrow>
       (res' = rend (cs @ [c]) \<and> good (cs @ [c]) \<and> rem' = rem \<and> st' = st)
       \<or> (\<exists>cs'. res' = rend cs' \<and> good cs' \<and> list_all comp_ok cs' \<and> budget st' < budget st)"
begin

theorem loop_returns:
  "good cs \<Longrightarrow> list_all comp_ok cs \<Longrightarrow>
   \<exists>r. canonPath_loop hook (rend cs) rem st = Some r \<and>
     (\<forall>res st'. r = Inr (res, st') \<longrightarrow> (\<exists>cs'. res = rend cs' \<and> good cs' \<and> list_all comp_ok cs'))"
proof (induction "(st, rem)" arbitrary: cs st rem rule: wf_induct_rule [OF wf_measures
    [of "[\<lambda>(st, rem). budget st, \<lambda>(st, rem). length rem]"]])
  case (1 st rem)
  define r where "r = dropWhile (\<lambda>c. c = slash) rem"
  then have r: "dropWhile (\<lambda>c. c = slash) rem = r" by simp
  have len: "length r \<le> length rem" unfolding r_def by (rule length_dropWhile_le)
  have step: "\<exists>r. canonPath_loop hook (rend cs') rem' st' = Some r \<and>
      (\<forall>res st'. r = Inr (res, st') \<longrightarrow> (\<exists>cs'. res = rend cs' \<and> good cs' \<and> list_all comp_ok cs'))"
    if "good cs'" "list_all comp_ok cs'" "budget st' < budget st \<or> (st' = st \<and> length rem' < length rem)"
    for cs' rem' st'
    using that "1.hyps" [of st' rem' cs'] by auto
  show ?case
  proof (cases "r = []")
    case True
    with r "1.prems" show ?thesis by (auto simp: loop_end)
  next
    case False
    have less: "length (drop k r) < length rem" if "0 < k" for k
      using len False that by (cases r) auto
    from r False show ?thesis
    proof (cases rule: next_comp_cases)
      case a: 1
      from step [OF "1.prems", of st "drop 1 r"] less [of 1] show ?thesis
        unfolding loop_dot [OF r False a] by simp
    next
      case b: 2
      show ?thesis
      proof (cases "cs = []")
        case True
        from step [OF "1.prems", of st "drop 2 r"] less [of 2] show ?thesis
          unfolding True rend_simps(1) loop_dotdot_Nil [OF r False b] by simp
      next
        case cs: False
        from step [OF good_butlast [OF "1.prems"(1)] comp_ok_butlast [OF "1.prems"(2)],
            of st "drop 2 r"] less [of 2] show ?thesis
          unfolding loop_dotdot [OF r False b cs "1.prems"(2)] by simp
      qed
    next
      case c: (3 c)
      have l: "length (drop (length c) r) < length rem"
        using less [of "length c"] c(2) by (simp add: comp_ok_def)
      show ?thesis
      proof (cases "hook (rend (cs @ [c])) (drop (length c) r) st")
        case (Inl e)
        then show ?thesis unfolding loop_comp [OF r False c] by simp
      next
        case (Inr t)
        obtain res' rem' st' where t: "t = (res', rem', st')" by (cases t)
        have eq: "canonPath_loop hook (rend cs) rem st = canonPath_loop hook res' rem' st'"
          unfolding loop_comp [OF r False c] using Inr t by simp
        from hook_Inr [OF "1.prems" c(2)] Inr t
        consider "res' = rend (cs @ [c])" "good (cs @ [c])" "rem' = drop (length c) r" "st' = st"
          | cs' where "res' = rend cs'" "good cs'" "list_all comp_ok cs'" "budget st' < budget st" by blast
        then show ?thesis
        proof cases
          case 1
          with step [of "cs @ [c]" st' rem'] l c(2) "1.prems"(2) show ?thesis unfolding eq by simp
        next
          case 2
          with step [of _ st' rem'] show ?thesis unfolding eq by simp
        qed
      qed
    qed
  qed
qed

end

section \<open>The two hooks of the code\<close>

interpretation plain: resolve_hook no_hook "list_all comp_ok" "\<lambda>_. 0"
  by unfold_locales (auto simp: no_hook_def intro: comp_ok_butlast)

definition no_symlinks :: "(string \<Rightarrow> string option) \<Rightarrow> string list \<Rightarrow> bool" where
  "no_symlinks readLink cs = (\<forall>n. 0 < n \<and> n \<le> length cs \<longrightarrow> readLink (rend (take n cs)) = None)"

lemma no_symlinks_butlast: "no_symlinks readLink cs \<Longrightarrow> no_symlinks readLink (butlast cs)"
  by (auto simp: no_symlinks_def butlast_conv_take)

lemma no_symlinks_snoc:
  "no_symlinks readLink cs \<Longrightarrow> readLink (rend (cs @ [c])) = None \<Longrightarrow> no_symlinks readLink (cs @ [c])"
  unfolding no_symlinks_def by (auto simp: take_Cons' le_Suc_eq)

lemma parent_path_rend:
  assumes "list_all comp_ok cs" "comp_ok c"
  shows "(if parent_path (rend (cs @ [c])) = [slash] then [] else parent_path (rend (cs @ [c]))) = rend cs"
proof -
  have rf: "rfindPathSep (rend (cs @ [c])) = Some (length (rend cs))"
    using assms rfindPathSep_rend [of "cs @ [c]"] by simp
  show ?thesis
  proof (cases cs)
    case Nil
    with rf show ?thesis by (simp add: parent_path_def)
  next
    case (Cons d ds)
    then have "length (rend cs) = Suc (length d + length (rend ds))" by simp
    then have "parent_path (rend (cs @ [c])) = rend cs" using rf by (simp add: parent_path_def)
    moreover have "rend cs \<noteq> [slash]" using Cons assms(1) by (auto simp: comp_ok_def)
    ultimately show ?thesis by simp
  qed
qed

interpretation symlinks: resolve_hook "symlink_hook resolveSymlinks readLink"
    "\<lambda>cs. resolveSymlinks \<longrightarrow> no_symlinks readLink cs" "\<lambda>followCount. maxFollow - followCount"
  for resolveSymlinks readLink
proof (unfold_locales, goal_cases)
  case 1
  then show ?case by (simp add: no_symlinks_def)
next
  case (2 cs)
  then show ?case by (simp add: no_symlinks_butlast)
next
  case (3 cs c rem st res' rem' st')
  let ?link = "if resolveSymlinks then readLink (rend (cs @ [c])) else None"
  show ?case
  proof (cases ?link)
    case None
    with 3 show ?thesis
      by (auto simp: symlink_hook_def intro: no_symlinks_snoc split: if_splits)
  next
    case (Some t)
    with 3(4) have fc: "st + 1 < maxFollow" "st' = st + 1"
      by (auto simp: symlink_hook_def Let_def split: if_splits)
    have "res' = [] \<or> res' = rend cs"
      using 3(4) Some fc parent_path_rend [OF 3(2,3)]
      by (auto simp: symlink_hook_def Let_def split: if_splits)
    then have "\<exists>cs'. res' = rend cs' \<and> (resolveSymlinks \<longrightarrow> no_symlinks readLink cs') \<and> list_all comp_ok cs'"
    proof
      assume "res' = []"
      then show ?thesis by (intro exI [of _ "[]"]) (simp add: no_symlinks_def)
    next
      assume "res' = rend cs"
      with 3(1,2) show ?thesis by blast
    qed
    with fc show ?thesis by auto
  qed
qed

section \<open>The plain loop computes the specification\<close>

lemma raw_comps_step:
  "raw_comps s = takeWhile (\<lambda>c. c \<noteq> slash) s #
    (case dropWhile (\<lambda>c. c \<noteq> slash) s of [] \<Rightarrow> [] | c # cs \<Rightarrow> raw_comps cs)"
  unfolding raw_comps_def by (subst splitString.simps) (auto split: list.split)

lemma raw_comps_last:
  "dropWhile (\<lambda>c. c \<noteq> slash) s = [] \<Longrightarrow> raw_comps s = [takeWhile (\<lambda>c. c \<noteq> slash) s]"
proof -
  assume d: "dropWhile (\<lambda>c. c \<noteq> slash) s = []"
  show ?thesis by (subst raw_comps_step, subst d) simp
qed

lemma raw_comps_more:
  "dropWhile (\<lambda>c. c \<noteq> slash) s = c # t \<Longrightarrow> raw_comps s = takeWhile (\<lambda>c. c \<noteq> slash) s # raw_comps t"
  by (subst raw_comps_step) simp

lemma resolve_step_simps [simp]:
  "resolve_step [] cs = cs" "resolve_step ''.'' cs = cs" "resolve_step ''..'' cs = butlast cs"
  "comp_ok c \<Longrightarrow> resolve_step c cs = cs @ [c]"
  by (auto simp: resolve_step_def comp_ok_def)

lemma raw_comps_slash: "raw_comps (slash # s) = [] # raw_comps s"
  by (subst raw_comps_step) simp

lemma raw_comps_Nil [simp]: "raw_comps [] = [[]]"
  by (subst raw_comps_step) simp

lemma fold_resolve_drop_slash:
  "fold resolve_step (raw_comps (dropWhile (\<lambda>c. c = slash) s)) cs = fold resolve_step (raw_comps s) cs"
  by (induction s) (auto simp: raw_comps_slash)

lemma fold_resolve_next:
  "fold resolve_step (raw_comps r) cs =
   fold resolve_step (raw_comps (drop (length (takeWhile (\<lambda>c. c \<noteq> slash) r)) r))
     (resolve_step (takeWhile (\<lambda>c. c \<noteq> slash) r) cs)"
proof -
  have d: "drop (length (takeWhile (\<lambda>c. c \<noteq> slash) r)) r = dropWhile (\<lambda>c. c \<noteq> slash) r"
    by (rule dropWhile_eq_drop [symmetric])
  show ?thesis
  proof (cases "dropWhile (\<lambda>c. c \<noteq> slash) r")
    case Nil
    show ?thesis unfolding d raw_comps_last [OF Nil] Nil by simp
  next
    case (Cons x t)
    then have "x = slash" using hd_dropWhile [of "\<lambda>c. c \<noteq> slash" r] by simp
    then show ?thesis unfolding d raw_comps_more [OF Cons] Cons by (simp add: raw_comps_slash)
  qed
qed

theorem accepting_loop:
  assumes hook: "\<And>res rem st. hook res rem st = Inr (res, rem, st)"
  shows "list_all comp_ok cs \<Longrightarrow>
   canonPath_loop hook (rend cs) rem st =
   Some (Inr (rend (fold resolve_step (raw_comps rem) cs), st))"
proof (induction rem arbitrary: cs rule: measure_induct_rule [where f = length])
  case (less rem)
  define r where "r = dropWhile (\<lambda>c. c = slash) rem"
  then have r: "dropWhile (\<lambda>c. c = slash) rem = r" by simp
  have len: "length r \<le> length rem" unfolding r_def by (rule length_dropWhile_le)
  have eq: "fold resolve_step (raw_comps rem) cs = fold resolve_step (raw_comps r) cs"
    unfolding r_def by (rule fold_resolve_drop_slash [symmetric])
  show ?case
  proof (cases "r = []")
    case True
    then have "fold resolve_step (raw_comps rem) cs = cs" unfolding eq by simp
    with r True show ?thesis by (simp only: loop_end)
  next
    case False
    have shorter: "length (drop k r) < length rem" if "0 < k" for k
      using len False that by (cases r) auto
    from r False show ?thesis
    proof (cases rule: next_comp_cases)
      case a: 1
      from less.IH [OF shorter [of 1] less.prems] a show ?thesis
        unfolding loop_dot [OF r False a] eq fold_resolve_next [of r] by simp
    next
      case b: 2
      show ?thesis
      proof (cases "cs = []")
        case True
        from less.IH [OF shorter [of 2] less.prems] b True show ?thesis
          unfolding eq fold_resolve_next [of r] by (simp add: loop_dotdot_Nil [OF r False b] numeral_2_eq_2)
      next
        case cs: False
        from less.IH [OF shorter [of 2] comp_ok_butlast [OF less.prems]] b show ?thesis
          unfolding loop_dotdot [OF r False b cs less.prems] eq fold_resolve_next [of r]
          by (simp add: numeral_2_eq_2)
      qed
    next
      case c: (3 c)
      then have "0 < length c" by (auto simp: comp_ok_def)
      from less.IH [OF shorter [OF this], of "cs @ [c]"] less.prems c show ?thesis
        unfolding loop_comp [OF r False c] eq fold_resolve_next [of r]
          hook [of "rend (cs @ [c])"]
        by simp
    qed
  qed
qed

lemmas plain_loop = accepting_loop [of no_hook, OF no_hook_def]

section \<open>\<open>CanonPath\<close> as a list of components\<close>

definition valid_comp :: "string \<Rightarrow> bool" where
  "valid_comp c = (comp_ok c \<and> CHR 0x00 \<notin> set c)"

definition of_comps :: "string list \<Rightarrow> CanonPath" where
  "of_comps cs = CanonPath (rend_root cs)"

text \<open>The class invariant documented in \<open>canon-path.hh\<close>.\<close>

definition canon :: "CanonPath \<Rightarrow> bool" where
  "canon p = (list_all valid_comp (path_elems p) \<and> p = of_comps (path_elems p))"

lemma comp_ok_notslash: "comp_ok c \<Longrightarrow> x \<in> set c \<Longrightarrow> x \<noteq> slash"
  by (auto simp: comp_ok_def)

lemma valid_comp_ok: "list_all valid_comp cs \<Longrightarrow> list_all comp_ok cs"
  by (auto simp: list_all_iff valid_comp_def)

lemma iter_elems_rend:
  "list_all comp_ok cs \<Longrightarrow> iter_elems (drop 1 (rend cs)) = cs"
proof (induction cs)
  case Nil
  then show ?case by (simp add: iter_elems.simps)
next
  case (Cons c cs)
  then have c: "\<forall>x\<in>set c. x \<noteq> slash" and ne: "c \<noteq> []" by (auto simp: comp_ok_def)
  have deref: "iter_deref (c @ rend cs) = c"
    using c by (cases cs) (simp_all add: iter_deref_def takeWhile_append)
  have nxt: "iter_next (c @ rend cs) = drop 1 (rend cs)"
  proof (cases cs)
    case Nil
    have "dropWhile (\<lambda>c. c \<noteq> slash) c = []" using c by simp
    with Nil show ?thesis unfolding iter_next_def by (simp only: rend_simps append_Nil2)
  qed (use c in \<open>simp add: iter_next_def dropWhile_append\<close>)
  show ?case
    using Cons ne by (subst iter_elems.simps) (simp add: deref nxt)
qed

lemma rel_of_comps [simp]: "rel (of_comps cs) = drop 1 (rend cs)"
  by (simp add: rel_def of_comps_def rend_root_def)

lemma path_elems_of_comps [simp]: "list_all comp_ok cs \<Longrightarrow> path_elems (of_comps cs) = cs"
  using iter_elems_rend [of cs] by (simp add: path_elems_def)

lemma canon_of_comps: "list_all valid_comp cs \<Longrightarrow> canon (of_comps cs)"
  by (simp add: canon_def valid_comp_ok)

lemma canonE:
  assumes "canon p" obtains cs where "p = of_comps cs" "list_all valid_comp cs" "list_all comp_ok cs"
  using assms valid_comp_ok unfolding canon_def by blast

lemma of_comps_inj:
  "list_all comp_ok cs \<Longrightarrow> list_all comp_ok ds \<Longrightarrow> (of_comps cs = of_comps ds) = (cs = ds)"
  by (metis path_elems_of_comps)

lemma length_rend_pos: "list_all comp_ok cs \<Longrightarrow> cs \<noteq> [] \<Longrightarrow> 1 < length (rend cs)"
  by (cases cs) (auto simp: comp_ok_def)

lemma isRoot_of_comps [simp]: "list_all comp_ok cs \<Longrightarrow> isRoot (of_comps cs) = (cs = [])"
  using length_rend_pos [of cs] by (auto simp: isRoot_def of_comps_def rend_root_def)

lemma root_of_comps: "root = of_comps []"
  by (simp add: root_def of_comps_def rend_root_def)

lemma take_parent:
  assumes "list_all comp_ok cs" "cs \<noteq> []"
  shows "rfindPathSep (rend_root cs) = Some (length (rend (butlast cs)))"
    "take (max 1 (length (rend (butlast cs)))) (rend_root cs) = rend_root (butlast cs)"
proof -
  show "rfindPathSep (rend_root cs) = Some (length (rend (butlast cs)))"
    using assms by (simp add: rend_root_def rfindPathSep_rend comp_ok_last)
  show "take (max 1 (length (rend (butlast cs)))) (rend_root cs) = rend_root (butlast cs)"
  proof (cases "butlast cs = []")
    case True
    with assms(2) obtain c where "cs = [c]" by (metis append_butlast_last_id append_Nil)
    then show ?thesis by (simp add: rend_root_def)
  next
    case False
    then have "1 < length (rend (butlast cs))"
      using length_rend_pos comp_ok_butlast assms(1) by blast
    with assms(2) False show ?thesis by (simp add: rend_root_def take_rend_butlast)
  qed
qed

lemma parent_of_comps:
  "list_all comp_ok cs \<Longrightarrow> parent (of_comps cs) = (if cs = [] then None else Some (of_comps (butlast cs)))"
  using take_parent [of cs] by (simp add: parent_def) (simp add: of_comps_def rfind_or_len_def)

lemma pop_of_comps:
  "list_all comp_ok cs \<Longrightarrow> cs \<noteq> [] \<Longrightarrow> pop (of_comps cs) = Inr (of_comps (butlast cs))"
  using take_parent [of cs] by (simp add: pop_def) (simp add: of_comps_def)

lemma extend_of_comps:
  "list_all comp_ok cs \<Longrightarrow> list_all comp_ok ds \<Longrightarrow> extend (of_comps cs) (of_comps ds) = of_comps (cs @ ds)"
proof -
  assume "list_all comp_ok cs" "list_all comp_ok ds"
  moreover have "slash # drop (Suc 0) (rend ds) = rend ds" if "ds \<noteq> []" using that by (cases ds) auto
  ultimately show ?thesis
    by (simp add: extend_def) (simp add: of_comps_def rend_root_def)
qed

lemma push_of_comps:
  assumes "list_all comp_ok cs" "valid_comp c"
  shows "push (of_comps cs) c = Inr (of_comps (cs @ [c]))"
proof -
  have "push (of_comps cs) c = Inr (CanonPath ((if cs \<noteq> [] then rend_root cs @ [slash] else rend_root cs) @ c))"
    using assms by (simp add: push_def valid_comp_def comp_ok_def ensureNoNullBytes_def) (simp add: of_comps_def)
  then show ?thesis by (simp add: of_comps_def rend_root_def)
qed

lemma mk_CanonPath_elems_of:
  "list_all valid_comp cs \<Longrightarrow> mk_CanonPath_elems cs = Inr (of_comps cs)"
proof -
  have "list_all comp_ok ds \<Longrightarrow> list_all valid_comp cs \<Longrightarrow>
      fold_res (\<lambda>c p. push p c) cs (of_comps ds) = Inr (of_comps (ds @ cs))" for ds
    by (induction cs arbitrary: ds) (simp_all add: push_of_comps valid_comp_def)
  from this [of "[]"] show "list_all valid_comp cs \<Longrightarrow> ?thesis"
    by (simp add: mk_CanonPath_elems_def) (simp add: of_comps_def rend_root_def)
qed

section \<open>Canonicalising\<close>

lemma splitString_pieces:
  "c \<in> set (splitString s [d]) \<Longrightarrow> d \<notin> set c \<and> set c \<subseteq> set s"
proof (induction s arbitrary: c rule: measure_induct_rule [where f = length])
  case (less s)
  show ?case
  proof (cases "d \<in> set s")
    case True
    then obtain l r where s: "s = l @ d # r" "d \<notin> set l" by (blast dest: split_list_first)
    with less.prems have "c = l \<or> c \<in> set (splitString r [d])" by (simp add: splitString_sep)
    then show ?thesis using less.IH [of r c] s by auto
  next
    case False
    with less.prems show ?thesis by (simp add: splitString_noSep)
  qed
qed

lemma fold_resolve_valid:
  assumes "list_all P cs" "\<And>c. c \<in> set ps \<Longrightarrow> comp_ok c \<Longrightarrow> P c" "\<And>c. c \<in> set ps \<Longrightarrow> slash \<notin> set c"
  shows "list_all P (fold resolve_step ps cs)"
  using assms
proof (induction ps arbitrary: cs)
  case (Cons c ps)
  have "list_all P (resolve_step c cs)"
    using Cons.prems(1) Cons.prems(2,3) [of c]
    by (auto simp: resolve_step_def comp_ok_def list_all_iff dest: in_set_butlastD)
  with Cons show ?case by simp
qed simp

lemma resolve_comp_ok: "list_all comp_ok (resolve s)"
  unfolding resolve_def raw_comps_def
  by (rule fold_resolve_valid) (auto dest: splitString_pieces)

lemma resolve_valid: "CHR 0x00 \<notin> set s \<Longrightarrow> list_all valid_comp (resolve s)"
  unfolding resolve_def raw_comps_def
  by (rule fold_resolve_valid) (auto dest: splitString_pieces simp: valid_comp_def)

lemma resolve_slash: "resolve (slash # s) = resolve s"
  by (simp add: resolve_def raw_comps_slash)

lemma absPathPure_eq: "s \<noteq> [] \<Longrightarrow> absPathPure s = Some (Inr (rend_root (resolve s)))"
  using plain_loop [of "[]" s "()"]
  by (simp add: absPathPure_def canonPathInner_def resolve_def rend_root_def)

lemma mk_CanonPath_eq:
  "mk_CanonPath raw =
     Some (if CHR 0x00 \<in> set raw
           then Inl (NixError BadCanonPath ''path segment '%s' must not contain null bytes'')
           else Inr (of_comps (resolve raw)))"
  by (auto simp: mk_CanonPath_def of_absPathPure_def concatStrings_eq_concat absPathPure_eq
      resolve_slash ensureNoNullBytes_def of_comps_def throw_if_def)

lemma raw_comps_append: "raw_comps (s @ slash # t) = raw_comps s @ raw_comps t"
proof (induction s rule: measure_induct_rule [where f = length])
  case (less s)
  show ?case
  proof (cases "slash \<in> set s")
    case True
    then obtain l r where s: "s = l @ slash # r" "slash \<notin> set l" by (blast dest: split_list_first)
    with less.IH [of r] show ?thesis by (simp add: raw_comps_def splitString_sep)
  next
    case False
    then show ?thesis by (simp add: raw_comps_def splitString_sep splitString_noSep)
  qed
qed

lemma fold_resolve_ok: "list_all comp_ok ds \<Longrightarrow> fold resolve_step ds cs = cs @ ds"
  by (induction ds arbitrary: cs) auto

lemma raw_comps_rend: "list_all comp_ok cs \<Longrightarrow> raw_comps (rend cs) = [] # cs"
proof (induction cs rule: rev_induct)
  case (snoc c cs)
  then have "raw_comps (rend cs @ slash # c) = ([] # cs) @ [c]"
    by (simp add: raw_comps_append) (simp add: raw_comps_def splitString_noSep comp_ok_def)
  then show ?case by simp
qed simp

lemma resolve_rend: "list_all comp_ok cs \<Longrightarrow> resolve (rend cs) = cs"
  by (simp add: resolve_def raw_comps_rend fold_resolve_ok)

lemma raw_comps_rel:
  "list_all comp_ok cs \<Longrightarrow> cs \<noteq> [] \<Longrightarrow> raw_comps (drop 1 (rend cs)) = cs"
  using raw_comps_rend [of cs] by (cases cs) (simp_all add: raw_comps_slash)

text \<open>Resolving a relative path against a canonical one continues from its components.\<close>

lemma mk_CanonPath_rel_eq:
  assumes "list_all comp_ok cs" "CHR 0x00 \<notin> set raw" "raw = [] \<or> hd raw \<noteq> slash"
  shows "mk_CanonPath_rel raw (of_comps cs) = Some (Inr (of_comps (fold resolve_step (raw_comps raw) cs)))"
proof -
  have "resolve (rend_root cs @ slash # raw) = fold resolve_step (raw_comps raw) cs"
    using assms(1)
    by (simp add: resolve_def raw_comps_append rend_root_def raw_comps_rend fold_resolve_ok raw_comps_slash)
  moreover have "\<not> (0 < length raw \<and> raw ! 0 = slash)" using assms(3) by (cases raw) auto
  ultimately show ?thesis
    using assms(2)
    by (auto simp: mk_CanonPath_rel_def of_absPathPure_def concatStrings_eq_concat absPathPure_eq
        ensureNoNullBytes_def of_comps_def)
qed

section \<open>Containment\<close>

lemma rend_inj: "list_all comp_ok cs \<Longrightarrow> list_all comp_ok ds \<Longrightarrow> (rend cs = rend ds) = (cs = ds)"
  by (metis resolve_rend)

text \<open>Two component lists agree where their texts agree up to a separator.\<close>

lemma rend_prefix:
  "list_all comp_ok cs \<Longrightarrow> list_all comp_ok ds \<Longrightarrow> rend ds = rend cs @ t \<Longrightarrow> t = [] \<or> hd t = slash \<Longrightarrow>
   \<exists>es. ds = cs @ es \<and> t = rend es"
proof (induction cs arbitrary: ds)
  case Nil
  then show ?case by simp
next
  case (Cons c cs)
  then obtain d ds' where ds: "ds = d # ds'" by (cases ds) auto
  have c: "slash \<notin> set c" "slash \<notin> set d" using Cons.prems(1,2) ds by (auto simp: comp_ok_def)
  have eq: "d @ rend ds' = c @ (rend cs @ t)" using Cons.prems(3) ds by simp
  have start: "u = [] \<or> hd u = slash" if "u = rend ds' \<or> u = rend cs @ t" for u
    using that Cons.prems(4) by (cases ds'; cases cs) auto
  have tw: "takeWhile (\<lambda>x. x \<noteq> slash) (w @ u) = w"
    if "slash \<notin> set w" "u = [] \<or> hd u = slash" for w u
    using that by (cases u) (auto simp: takeWhile_append takeWhile_eq_all_conv)
  have "d = c" using tw [OF c(2)] tw [OF c(1)] start eq by metis
  with eq Cons.IH [of ds'] Cons.prems ds show ?case by auto
qed

lemma isWithin_of_comps:
  assumes "list_all comp_ok cs" "list_all comp_ok ds"
  shows "isWithin (of_comps ds) (of_comps cs) = prefix cs ds"
proof (cases "cs = []")
  case True
  have "length (rend_root ds) \<ge> 1 \<and> take 1 (rend_root ds) = [slash]"
    by (cases ds) (auto simp: rend_root_def)
  with True show ?thesis by (auto simp: isWithin_def of_comps_def rend_root_def Let_def not_less)
next
  case False
  note len = length_rend_pos [OF assms(1) False]
  show ?thesis
  proof
    assume "isWithin (of_comps ds) (of_comps cs)"
    then have le: "length (rend cs) \<le> length (rend_root ds)"
      and take: "take (length (rend cs)) (rend_root ds) = rend cs"
      and sep: "length (rend cs) < length (rend_root ds) \<Longrightarrow> rend_root ds ! length (rend cs) = slash"
      using False len by (auto simp: isWithin_def of_comps_def rend_root_def Let_def not_less)
    have "ds \<noteq> []" using le len by (auto simp: rend_root_def)
    then have r: "rend_root ds = rend ds" by (simp add: rend_root_def)
    define t where "t = drop (length (rend cs)) (rend ds)"
    have "rend ds = rend cs @ t" using take r by (metis append_take_drop_id t_def)
    moreover have "t = [] \<or> hd t = slash"
      using sep r by (metis t_def hd_drop_conv_nth not_le drop_eq_Nil)
    ultimately show "prefix cs ds" using rend_prefix [OF assms] by (auto simp: prefix_def)
  next
    assume "prefix cs ds"
    then obtain es where "ds = cs @ es" by (auto simp: prefix_def)
    with False show "isWithin (of_comps ds) (of_comps cs)"
      by (cases es) (auto simp: isWithin_def of_comps_def rend_root_def Let_def nth_append)
  qed
qed

lemma removePrefix_of_comps:
  assumes "list_all comp_ok cs" "list_all comp_ok es"
  shows "removePrefix (of_comps (cs @ es)) (of_comps cs) = Inr (of_comps es)"
proof -
  have w: "isWithin (of_comps (cs @ es)) (of_comps cs)"
    using assms by (simp add: isWithin_of_comps)
  show ?thesis
  proof (cases "cs = []")
    case True
    with w assms show ?thesis by (simp add: removePrefix_def)
  next
    case False
    with w assms have "removePrefix (of_comps (cs @ es)) (of_comps cs) =
      (if length (rend (cs @ es)) = length (rend cs) then Inr root
       else Inr (CanonPath (drop (length (rend cs)) (rend (cs @ es)))))"
      by (simp add: removePrefix_def) (simp add: of_comps_def rend_root_def)
    with False show ?thesis by (cases es) (simp_all add: root_of_comps of_comps_def rend_root_def)
  qed
qed

section \<open>Relative paths\<close>

text \<open>What is left of an iterator is the text of the components that are left.\<close>

lemma iter_rend:
  assumes "comp_ok c" "list_all comp_ok cs"
  shows "iter_deref (drop 1 (rend (c # cs))) = c" "iter_next (drop 1 (rend (c # cs))) = drop 1 (rend cs)"
    "drop 1 (rend (c # cs)) \<noteq> []"
proof -
  have c: "\<forall>x\<in>set c. x \<noteq> slash" and ne: "c \<noteq> []" using assms by (auto simp: comp_ok_def)
  then have d: "dropWhile (\<lambda>x. x \<noteq> slash) c = []" "takeWhile (\<lambda>x. x \<noteq> slash) c = c" by simp_all
  show "iter_deref (drop 1 (rend (c # cs))) = c"
    using c by (cases cs) (simp_all add: iter_deref_def takeWhile_append)
  show "iter_next (drop 1 (rend (c # cs))) = drop 1 (rend cs)"
  proof (cases cs)
    case Nil
    with d show ?thesis by (simp add: iter_next_def del: dropWhile_eq_Nil_conv)
  qed (use c in \<open>simp add: iter_next_def dropWhile_append\<close>)
  show "drop 1 (rend (c # cs)) \<noteq> []" using ne by simp
qed

lemma drop1_rend_Nil: "list_all comp_ok cs \<Longrightarrow> (drop 1 (rend cs) = []) = (cs = [])"
  using iter_rend(3) [of "hd cs" "tl cs"] by (cases cs) auto

fun common :: "string list \<Rightarrow> string list \<Rightarrow> string list \<times> string list" where
  "common (c # cs) (d # ds) = (if c = d then common cs ds else (c # cs, d # ds))"
| "common [] ds = ([], ds)"
| "common cs [] = (cs, [])"

lemma common_spec:
  "common cs ds = (us, vs) \<Longrightarrow> \<exists>ps. cs = ps @ us \<and> ds = ps @ vs"
proof (induction cs ds rule: common.induct)
  case (1 c cs d ds)
  then show ?case by (auto split: if_splits)
qed auto

lemma skip_common_rend:
  "list_all comp_ok cs \<Longrightarrow> list_all comp_ok ds \<Longrightarrow>
   skip_common (drop 1 (rend cs)) (drop 1 (rend ds)) =
   (case common cs ds of (us, vs) \<Rightarrow> (drop 1 (rend us), drop 1 (rend vs)))"
proof (induction cs ds rule: common.induct)
  case (1 c cs d ds)
  note it = iter_rend [of c cs] iter_rend [of d ds]
  show ?case
  proof (cases "c = d")
    case True
    with 1 it show ?thesis
      by (subst skip_common.simps) (simp del: rend_simps drop_Suc_Cons One_nat_def drop_eq_Nil)
  next
    case False
    with 1 it show ?thesis
      by (subst skip_common.simps) (simp del: rend_simps drop_Suc_Cons One_nat_def drop_eq_Nil)
  qed
next
  case (2 ds)
  then show ?case by (subst skip_common.simps) simp
next
  case (3 c cs)
  then show ?case by (subst skip_common.simps) simp
qed

lemma dotdots_rend:
  "list_all comp_ok cs \<Longrightarrow>
   dotdots (drop 1 (rend cs)) r =
   (if cs = [] then r
    else (if r \<noteq> [] then r @ [slash] else r) @ drop 1 (rend (replicate (length cs) ''..'')))"
proof (induction cs arbitrary: r)
  case Nil
  then show ?case by (subst dotdots.simps) simp
next
  case (Cons c cs)
  have "dotdots (drop 1 (rend (c # cs))) r =
      dotdots (drop 1 (rend cs)) ((if r \<noteq> [] then r @ [slash] else r) @ ''..'')"
    using Cons.prems iter_rend [of c cs]
    by (subst dotdots.simps) (simp del: rend_simps drop_Suc_Cons One_nat_def)
  with Cons show ?case by (cases cs) auto
qed

lemma makeRelative_of_comps:
  assumes "list_all comp_ok cs" "list_all comp_ok ds" "common cs ds = (us, vs)"
  shows "makeRelative (of_comps cs) (of_comps ds) =
    (if us = [] \<and> vs = [] then ''.'' else drop 1 (rend (replicate (length us) ''..'' @ vs)))"
proof -
  obtain ps where ps: "cs = ps @ us" "ds = ps @ vs" using common_spec [OF assms(3)] by blast
  then have ok: "list_all comp_ok us" "list_all comp_ok vs" using assms by auto
  have sk: "skip_common (rel (of_comps cs)) (rel (of_comps ds)) = (drop 1 (rend us), drop 1 (rend vs))"
    using skip_common_rend [OF assms(1,2)] assms(3) by simp
  have r: "rend vs = slash # drop 1 (rend vs)" if "vs \<noteq> []" using that by (cases vs) auto
  show ?thesis
    unfolding makeRelative_def sk Let_def
    using ok r by (auto simp: drop1_rend_Nil [simplified] dotdots_rend [simplified]) (cases us; simp)+
qed

section \<open>The order of paths\<close>

lemma of_char_eq_0 [simp]: "(of_char c = (0 :: nat)) = (c = CHR 0x00)"
proof -
  have "of_char (CHR 0x00) = (0 :: nat)" by simp
  then show ?thesis by (metis of_char_eq_iff)
qed

lemma byte_of_char_eq_0: "(byte_of_char c = 0) = (c = CHR 0x00)"
  by (simp add: unat_eq_zero [symmetric])

lemma path_key_ascii: "(of_char c :: nat) < 128 \<Longrightarrow> path_key c = (if c = slash then 0 else int (of_char c))"
proof -
  assume c: "(of_char c :: nat) < 128"
  have u: "uint (byte_of_char c) = int (of_char c)" by (metis uint_nat unat_byte_of_char)
  then have "uint (byte_of_char c) < 128" using c by linarith
  then have "sint (byte_of_char c) = uint (byte_of_char c)"
    using uint_ge_0 [of "byte_of_char c"]
    by (simp add: sint_uint) (intro signed_take_bit_int_eq_self, auto simp: order.trans [of _ 0])
  with u show ?thesis by (simp add: path_key_def)
qed

lemma path_key_inj:
  assumes "path_key c = path_key d" "c \<noteq> CHR 0x00" "d \<noteq> CHR 0x00" shows "c = d"
proof -
  have z: "sint (byte_of_char x) \<noteq> 0" if "x \<noteq> CHR 0x00" for x
    using that by (metis word_eq_iff_signed sint_0 byte_of_char_eq_0)
  have inj: "(sint (byte_of_char c) = sint (byte_of_char d)) = (c = d)"
    by (metis word_eq_iff_signed byte_of_char_eq_iff)
  from assms z [of c] z [of d] inj show ?thesis
    by (auto simp: path_key_def split: if_splits)
qed

abbreviation noNul :: "string \<Rightarrow> bool" where "noNul s \<equiv> CHR 0x00 \<notin> set s"

lemma cmp_keys_values: "cmp_keys s t \<in> {-1, 0, 1}"
  by (induction s t rule: cmp_keys.induct) auto

lemma cmp_keys_0: "noNul s \<Longrightarrow> noNul t \<Longrightarrow> (cmp_keys s t = 0) = (s = t)"
proof (induction s t rule: cmp_keys.induct)
  case (1 a s b t)
  then show ?case using path_key_inj [of a b] by auto
qed auto

lemma cmp_keys_append: "0 \<le> cmp_keys (p @ u) p"
proof (induction p)
  case Nil
  show ?case by (cases u) auto
qed auto

text \<open>A string between \<open>p\<close> and an extension of \<open>p\<close> extends \<open>p\<close>.\<close>

lemma cmp_keys_between:
  "0 \<le> cmp_keys x p \<Longrightarrow> cmp_keys x (p @ u) \<le> 0 \<Longrightarrow> noNul x \<Longrightarrow> noNul p \<Longrightarrow>
   \<exists>t. x = p @ t \<and> cmp_keys t u \<le> 0"
proof (induction x p rule: cmp_keys.induct)
  case (1 a x b p)
  then have "path_key a = path_key b" by (auto split: if_splits)
  moreover have "a \<noteq> CHR 0x00" "b \<noteq> CHR 0x00" using 1 by auto
  ultimately have "a = b" by (rule path_key_inj)
  with 1 show ?case by auto
qed auto

lemma lower_bound_between:
  assumes "sorted_wrt (\<lambda>a b. path_cmp a b < 0) allowed" "a \<in> set allowed" "\<not> path_cmp a p < 0"
  shows "\<exists>lb. lower_bound allowed p = Some lb \<and> lb \<in> set allowed \<and> \<not> path_cmp lb p < 0 \<and>
    (lb = a \<or> path_cmp lb a < 0)"
  using assms
  by (induction allowed) (auto simp: lower_bound_def)

lemma lower_bound_in: "lower_bound allowed p = Some lb \<Longrightarrow> lb \<in> set allowed"
  by (auto simp: lower_bound_def find_Some_iff)

definition ascii_path :: "CanonPath \<Rightarrow> bool" where
  "ascii_path p = list_all (\<lambda>c. (of_char c :: nat) < 128) (path_abs p)"

lemma rend_noNul: "list_all valid_comp cs \<Longrightarrow> noNul (rend cs)"
  by (induction cs) (auto simp: valid_comp_def)

lemma path_abs_noNul: "canon p \<Longrightarrow> noNul (path_abs p)"
  by (elim canonE) (auto simp: of_comps_def rend_root_def dest: rend_noNul)

lemma path_cmp_0: "canon p \<Longrightarrow> canon q \<Longrightarrow> (path_cmp p q = 0) = (p = q)"
  by (cases p; cases q) (simp add: path_cmp_def cmp_keys_0 path_abs_noNul [of "CanonPath _", simplified])

lemma path_count_iff:
  "list_all canon allowed \<Longrightarrow> canon p \<Longrightarrow> path_count allowed p = (p \<in> set allowed)"
  by (induction allowed) (auto simp: path_count_def path_cmp_0)

lemma allowed_loop_of_comps:
  assumes "list_all canon allowed"
  shows "list_all valid_comp cs \<Longrightarrow>
    allowed_loop allowed (of_comps cs) = Inr (\<exists>n < length cs. of_comps (take n cs) \<in> set allowed)"
proof (induction "length cs" arbitrary: cs)
  case 0
  then show ?case by (simp add: allowed_loop.simps)
next
  case (Suc k)
  then have ne: "cs \<noteq> []" and v: "list_all valid_comp (butlast cs)"
    by (auto simp: list_all_iff dest: in_set_butlastD)
  note ok = valid_comp_ok [OF Suc.prems]
  have "allowed_loop allowed (of_comps cs) =
      (if of_comps (butlast cs) \<in> set allowed then Inr True
       else Inr (\<exists>n < length (butlast cs). of_comps (take n (butlast cs)) \<in> set allowed))"
    using Suc(1) [of "butlast cs"] Suc(2) v ne ok
    by (subst allowed_loop.simps)
      (simp add: pop_of_comps path_count_iff [OF assms] canon_of_comps)
  moreover have "(\<exists>n < length cs. of_comps (take n cs) \<in> set allowed) =
      (of_comps (butlast cs) \<in> set allowed
       \<or> (\<exists>n < length (butlast cs). of_comps (take n (butlast cs)) \<in> set allowed))"
  proof -
    have len: "length cs = Suc (length (butlast cs))" using ne by simp
    have "take n (butlast cs) = take n cs" if "n < length (butlast cs)" for n
      using that by (simp add: butlast_conv_take)
    moreover have "take (length (butlast cs)) cs = butlast cs" by (simp add: butlast_conv_take)
    ultimately show ?thesis unfolding len less_Suc_eq by (auto simp del: length_butlast)
  qed
  ultimately show ?case by auto
qed

lemma within_lower_bound:
  assumes "canon p" "canon a" "canon lb" "ascii_path lb" "isWithin a p"
    "\<not> path_cmp lb p < 0" "lb = a \<or> path_cmp lb a < 0"
  shows "isWithin lb p"
proof -
  obtain cs where p: "p = of_comps cs" "list_all comp_ok cs" using canonE [OF assms(1)] by metis
  obtain ds where a: "a = of_comps ds" "list_all comp_ok ds" using canonE [OF assms(2)] by metis
  obtain es where lb: "lb = of_comps es" "list_all comp_ok es" using canonE [OF assms(3)] by metis
  from assms(5) p a obtain fs where fs: "ds = cs @ fs" by (auto simp: isWithin_of_comps prefix_def)
  show ?thesis
  proof (cases "cs = [] \<or> lb = a")
    case True
    with p lb assms(5) show ?thesis by (auto simp: isWithin_of_comps)
  next
    case False
    then have abs: "path_abs p = rend cs" "path_abs a = rend cs @ rend fs"
      using p a fs by (auto simp: of_comps_def rend_root_def)
    from False assms(6,7) abs have "0 \<le> cmp_keys (path_abs lb) (rend cs)"
      "cmp_keys (path_abs lb) (rend cs @ rend fs) \<le> 0" by (auto simp: path_cmp_def)
    from cmp_keys_between [OF this] path_abs_noNul [OF assms(3)] path_abs_noNul [OF assms(1)] abs
    obtain t where t: "path_abs lb = rend cs @ t" "cmp_keys t (rend fs) \<le> 0" by auto
    have "es \<noteq> []"
    proof
      assume "es = []"
      then have "rend cs @ t = [slash]" using t(1) lb(1) by (simp add: of_comps_def rend_root_def)
      then have "length (rend cs @ t) = 1" by (simp only: list.size)
      with length_rend_pos [of cs] False p(2) show False by simp
    qed
    then have es: "rend es = rend cs @ t" using t(1) lb(1) by (simp add: of_comps_def rend_root_def)
    have "t = [] \<or> hd t = slash"
    proof (cases t)
      case (Cons x t')
      then have x: "(of_char x :: nat) < 128" "x \<noteq> CHR 0x00"
        using assms(4) t(1) path_abs_noNul [OF assms(3)] by (auto simp: ascii_path_def)
      from t(2) Cons obtain f fs' where "fs = f # fs'" by (cases fs) auto
      with t(2) Cons have "path_key x \<le> path_key slash" by (auto split: if_splits)
      then have "path_key x \<le> 0" by (simp add: path_key_def)
      moreover have "(0 :: nat) < of_char x" using x(2) by (metis gr0I of_char_eq_0)
      ultimately have "x = slash" using path_key_ascii [OF x(1)] by (auto split: if_splits)
      with Cons show ?thesis by simp
    qed simp
    from rend_prefix [OF p(2) lb(2) es this] show ?thesis
      using p lb by (auto simp: isWithin_of_comps)
  qed
qed

lemma raw_comps_rend_gen: "list_all (\<lambda>c. slash \<notin> set c) cs \<Longrightarrow> raw_comps (rend cs) = [] # cs"
proof (induction cs rule: rev_induct)
  case (snoc c cs)
  then have "raw_comps (rend cs @ slash # c) = ([] # cs) @ [c]"
    by (simp add: raw_comps_append) (simp add: raw_comps_def splitString_noSep)
  then show ?case by simp
qed simp

lemma fold_dotdots: "fold resolve_step (replicate (length us) ''..'') (ps @ us) = ps"
  by (induction us rule: rev_induct) (simp_all add: butlast_append)

lemma allowed_loop_within:
  assumes "canon p" "list_all canon allowed"
  shows "allowed_loop allowed p = Inr (\<exists>a \<in> set allowed. isWithin p a \<and> a \<noteq> p)"
proof -
  obtain cs where p: "p = of_comps cs" "list_all valid_comp cs" "list_all comp_ok cs"
    using canonE [OF assms(1)] by metis
  have "(\<exists>n < length cs. of_comps (take n cs) \<in> set allowed) = (\<exists>a \<in> set allowed. isWithin p a \<and> a \<noteq> p)"
  proof
    assume "\<exists>n < length cs. of_comps (take n cs) \<in> set allowed"
    then obtain n where n: "n < length cs" "of_comps (take n cs) \<in> set allowed" by blast
    have ok: "list_all comp_ok (take n cs)"
      using p(3) by (metis append_take_drop_id list_all_append)
    have "take n cs \<noteq> cs" using n(1) by (metis le_antisym less_le_not_le linear take_all_iff)
    then have "of_comps (take n cs) \<noteq> p" using of_comps_inj [OF ok p(3)] unfolding p(1) by blast
    moreover have "isWithin p (of_comps (take n cs))"
      using isWithin_of_comps [OF ok p(3)] take_is_prefix [of n cs] unfolding p(1) by blast
    ultimately show "\<exists>a \<in> set allowed. isWithin p a \<and> a \<noteq> p" using n(2) by blast
  next
    assume "\<exists>a \<in> set allowed. isWithin p a \<and> a \<noteq> p"
    then obtain a where a: "a \<in> set allowed" "isWithin p a" "a \<noteq> p" by blast
    then have "canon a" using assms(2) by (simp add: list_all_iff)
    then obtain ds where ds: "a = of_comps ds" "list_all comp_ok ds" using canonE by metis
    with a p obtain es where es: "cs = ds @ es" by (auto simp: isWithin_of_comps prefix_def)
    with a(3) ds p have "es \<noteq> []" by auto
    with es a(1) ds(1) show "\<exists>n < length cs. of_comps (take n cs) \<in> set allowed"
      by (intro exI [of _ "length ds"]) simp
  qed
  with allowed_loop_of_comps [OF assms(2) p(2)] p(1) show ?thesis by simp
qed

lemma within_not_less:
  assumes "canon p" "canon a" "isWithin a p" shows "\<not> path_cmp a p < 0"
proof -
  obtain cs where p: "p = of_comps cs" "list_all comp_ok cs" using canonE [OF assms(1)] by metis
  obtain ds where a: "a = of_comps ds" "list_all comp_ok ds" using canonE [OF assms(2)] by metis
  have "\<exists>t. path_abs a = path_abs p @ t"
  proof (cases "cs = []")
    case True
    then show ?thesis
      using p(1) a(1) by (cases ds) (auto simp: of_comps_def rend_root_def)
  next
    case False
    from assms(3) have "prefix cs ds" unfolding p(1) a(1) isWithin_of_comps [OF p(2) a(2)] .
    then obtain es where "ds = cs @ es" by (auto simp: prefix_def)
    with False p(1) a(1) show ?thesis by (simp add: of_comps_def rend_root_def)
  qed
  then show ?thesis using cmp_keys_append by (auto simp: path_cmp_def not_less)
qed

section \<open>Properties\<close>

text \<open>\<open>CanonPath(raw)\<close> always returns; it throws exactly when the text contains a NUL byte, and
  otherwise the result satisfies the class invariant and its components are those of the text with
  empty ones and \<open>.\<close> dropped and every \<open>..\<close> removing the component before it.\<close>

theorem mk_CanonPath_spec:
  "\<exists>r. mk_CanonPath raw = Some r \<and>
     ((\<exists>e. r = Inl e) = (CHR 0x00 \<in> set raw)) \<and>
     (\<forall>p. r = Inr p \<longrightarrow> canon p \<and> path_elems p = resolve raw)"
  by (auto simp: mk_CanonPath_eq canon_of_comps resolve_valid resolve_comp_ok)

theorem mk_CanonPath_spec_witness:
  "\<exists>p. mk_CanonPath ''a/./b//../c'' = Some (Inr p) \<and> canon p \<and> path_elems p = [''a'', ''c'']"
  using mk_CanonPath_spec [of "''a/./b//../c''"]
  by (simp add: resolve_def raw_comps_def splitString.simps resolve_step_def) (metis sum.exhaust)

text \<open>C17: Whatever the symbolic links of the file system are (even cyclic ones), \<open>canonPath\<close> returns:
  either an error, or a canonical path, and when it resolves symbolic links no part of the returned
  path is a symbolic link.\<close>

theorem canonPath_sound:
  "\<exists>r. canonPath readLink path resolveSymlinks = Some r \<and>
     (\<forall>p. r = Inr p \<longrightarrow>
        (\<exists>cs. p = rend_root cs \<and> list_all comp_ok cs \<and>
          (resolveSymlinks \<longrightarrow> (\<forall>n. 0 < n \<and> n \<le> length cs \<longrightarrow> readLink (rend (take n cs)) = None))))"
proof -
  have "no_symlinks readLink []" by (simp add: no_symlinks_def)
  then obtain r where r: "canonPath_loop (symlink_hook resolveSymlinks readLink) [] path 0 = Some r"
    "\<forall>res st'. r = Inr (res, st') \<longrightarrow>
      (\<exists>cs. res = rend cs \<and> (resolveSymlinks \<longrightarrow> no_symlinks readLink cs) \<and> list_all comp_ok cs)"
    using symlinks.loop_returns [of resolveSymlinks readLink "[]" path 0] by auto
  show ?thesis
  proof (cases r)
    case (Inl e)
    with r(1) show ?thesis by (auto simp: canonPath_def canonPathInner_def)
  next
    case (Inr t)
    then obtain cs where cs: "fst t = rend cs" "resolveSymlinks \<longrightarrow> no_symlinks readLink cs"
      "list_all comp_ok cs" using r(2) by (cases t) auto
    then have "(if fst t = [] then [slash] else fst t) = rend_root cs" by (simp add: rend_root_def)
    with cs r(1) Inr show ?thesis
      by (auto simp: canonPath_def canonPathInner_def no_symlinks_def case_prod_beta)
  qed
qed

theorem canonPath_sound_witness:
  "canonPath (\<lambda>p. if p = ''/a'' then Some ''c'' else None) ''/a/b'' True = Some (Inr ''/c/b'') \<and>
   (\<exists>cs. ''/c/b'' = rend_root cs \<and> list_all comp_ok cs)"
proof -
  have "canonPath (\<lambda>p. if p = ''/a'' then Some ''c'' else None) ''/a/b'' True = Some (Inr ''/c/b'')"
    by code_simp
  with canonPath_sound [of "\<lambda>p. if p = ''/a'' then Some ''c'' else None" "''/a/b''" True]
  show ?thesis by auto
qed

text \<open>On canonical paths \<open>isWithin\<close> is the prefix relation of the component lists, and a path
  inside another one is that one extended by what \<open>removePrefix\<close> leaves.\<close>

theorem isWithin_removePrefix:
  assumes "canon p" "canon q"
  shows "isWithin q p = prefix (path_elems p) (path_elems q) \<and>
    (isWithin q p \<longrightarrow> (\<exists>x. removePrefix q p = Inr x \<and> canon x \<and> extend p x = q))"
proof -
  obtain cs where p: "p = of_comps cs" "list_all valid_comp cs" "list_all comp_ok cs"
    using canonE [OF assms(1)] by metis
  obtain ds where q: "q = of_comps ds" "list_all valid_comp ds" "list_all comp_ok ds"
    using canonE [OF assms(2)] by metis
  from p q show ?thesis
    by (auto simp: isWithin_of_comps removePrefix_of_comps prefix_def extend_of_comps canon_of_comps)
qed

theorem isWithin_removePrefix_witness:
  "isWithin (of_comps [''a'', ''b'']) (of_comps [''a'']) = prefix [''a''] [''a'', ''b'']"
proof -
  have ok: "list_all valid_comp [''a'', ''b'']" "list_all valid_comp [''a'']"
    by (simp_all add: valid_comp_def comp_ok_def)
  show ?thesis
    using isWithin_removePrefix [OF canon_of_comps [OF ok(2)] canon_of_comps [OF ok(1)]]
      valid_comp_ok [OF ok(1)] valid_comp_ok [OF ok(2)] by simp
qed

text \<open>Interpreting the result of \<open>makeRelative\<close> relative to the starting path gives the target,
  as its documentation promises.\<close>

theorem makeRelative_correct:
  assumes "canon p" "canon q"
  shows "mk_CanonPath_rel (makeRelative p q) p = Some (Inr q)"
proof -
  obtain cs where p: "p = of_comps cs" "list_all valid_comp cs" "list_all comp_ok cs"
    using canonE [OF assms(1)] by metis
  obtain ds where q: "q = of_comps ds" "list_all valid_comp ds" "list_all comp_ok ds"
    using canonE [OF assms(2)] by metis
  obtain us vs where c: "common cs ds = (us, vs)" by (cases "common cs ds")
  then obtain ps where ps: "cs = ps @ us" "ds = ps @ vs" using common_spec by blast
  define es where "es = replicate (length us) ''..'' @ vs"
  have rel: "makeRelative p q = (if us = [] \<and> vs = [] then ''.'' else drop 1 (rend es))"
    using p q c by (simp add: makeRelative_of_comps es_def del: rend_simps)
  have ok: "list_all (\<lambda>c. c \<noteq> [] \<and> slash \<notin> set c \<and> CHR 0x00 \<notin> set c) es"
  proof -
    have "list_all valid_comp vs" using q(2) ps(2) by simp
    then have "list_all (\<lambda>c. c \<noteq> [] \<and> slash \<notin> set c \<and> CHR 0x00 \<notin> set c) vs"
      by (rule list.pred_mono_strong) (simp add: valid_comp_def comp_ok_def)
    then show ?thesis by (simp add: es_def list_all_iff set_replicate_conv_if)
  qed
  then have "list_all (\<lambda>c. slash \<notin> set c) es" by (simp add: list_all_iff)
  then have raw: "raw_comps (drop 1 (rend es)) = es" if "es \<noteq> []"
    using that raw_comps_rend_gen [of es] by (cases es) (simp_all add: raw_comps_slash)
  have fold: "fold resolve_step es cs = ds"
    using q(3) fold_dotdots [of us ps] unfolding es_def ps by (simp add: fold_resolve_ok)
  show ?thesis
  proof (cases "es = []")
    case True
    then have "us = []" "vs = []" by (auto simp: es_def)
    then have "cs = ds" using ps by simp
    with rel p q \<open>us = []\<close> \<open>vs = []\<close> show ?thesis
      by (simp add: mk_CanonPath_rel_eq raw_comps_def splitString_noSep)
  next
    case False
    then obtain e es' where es: "es = e # es'" by (cases es) auto
    have nul: "CHR 0x00 \<notin> set (rend es)" using ok by (induction es) auto
    have "hd (drop 1 (rend es)) \<noteq> slash" using ok es by (cases e) auto
    moreover have "CHR 0x00 \<notin> set (drop 1 (rend es))" using nul by (meson in_set_dropD)
    moreover have "makeRelative p q = drop 1 (rend es)" using rel False by (auto simp: es_def)
    moreover from calculation have "mk_CanonPath_rel (drop 1 (rend es)) (of_comps cs) =
        Some (Inr (of_comps (fold resolve_step (raw_comps (drop 1 (rend es))) cs)))"
      using p(3) by (intro mk_CanonPath_rel_eq) auto
    ultimately show ?thesis by (simp only: raw [OF False] fold p(1) q(1))
  qed
qed

theorem makeRelative_correct_witness:
  "mk_CanonPath_rel (makeRelative (of_comps [''a'', ''b'']) (of_comps [''a'', ''c'', ''d''])) (of_comps [''a'', ''b''])
   = Some (Inr (of_comps [''a'', ''c'', ''d'']))"
  by (rule makeRelative_correct; rule canon_of_comps) (simp_all add: valid_comp_def comp_ok_def)

text \<open>C26: For paths whose bytes are all ASCII, \<open>isAllowed\<close> decides its documented contract: the path is
  inside an allowed path or an allowed path is inside it (the set is sorted by \<open>operator<=>\<close>).\<close>

theorem isAllowed_correct:
  assumes "canon p" "list_all canon allowed" "sorted_wrt (\<lambda>a b. path_cmp a b < 0) allowed"
    and "list_all ascii_path allowed"
  shows "isAllowed p allowed = Inr (\<exists>a \<in> set allowed. isWithin p a \<or> isWithin a p)"
proof -
  have canon: "canon a" if "a \<in> set allowed" for a using assms(2) that by (simp add: list_all_iff)
  have self: "isWithin p p" using canonE [OF assms(1)] by (metis isWithin_of_comps prefix_order.refl)
  show ?thesis
  proof (cases "\<exists>a \<in> set allowed. isWithin a p")
    case True
    then obtain a where a: "a \<in> set allowed" "isWithin a p" by blast
    from lower_bound_between [OF assms(3) a(1) within_not_less [OF assms(1) canon [OF a(1)] a(2)]] obtain lb where lb:
      "lower_bound allowed p = Some lb" "lb \<in> set allowed" "\<not> path_cmp lb p < 0"
      "lb = a \<or> path_cmp lb a < 0" by blast
    have "isWithin lb p"
      using within_lower_bound [OF assms(1) canon [OF a(1)] canon [OF lb(2)] _ a(2) lb(3,4)]
        assms(4) lb(2) by (simp add: list_all_iff)
    with lb True show ?thesis by (auto simp: isAllowed_def)
  next
    case False
    then have "isAllowed p allowed = allowed_loop allowed p"
      by (auto simp: isAllowed_def dest: lower_bound_in split: option.splits)
    also have "\<dots> = Inr (\<exists>a \<in> set allowed. isWithin p a \<or> isWithin a p)"
      using False self unfolding allowed_loop_within [OF assms(1,2)] by blast
    finally show ?thesis .
  qed
qed

theorem isAllowed_correct_witness:
  "isAllowed (of_comps [''a'']) [of_comps [''a'', ''b''], of_comps [''c'']] = Inr True"
proof -
  have v: "valid_comp ''a''" "valid_comp ''b''" "valid_comp ''c''" by (simp_all add: valid_comp_def comp_ok_def)
  have "isAllowed (of_comps [''a'']) [of_comps [''a'', ''b''], of_comps [''c'']] =
      Inr (\<exists>a \<in> set [of_comps [''a'', ''b''], of_comps [''c'']]. isWithin (of_comps [''a'']) a \<or> isWithin a (of_comps [''a'']))"
  proof (rule isAllowed_correct)
    show "sorted_wrt (\<lambda>a b. path_cmp a b < 0) [of_comps [''a'', ''b''], of_comps [''c'']]" by code_simp
    show "list_all ascii_path [of_comps [''a'', ''b''], of_comps [''c'']]" by code_simp
  qed (use v in \<open>simp_all add: canon_of_comps\<close>)
  also have "\<dots> = Inr True" using v by (simp add: isWithin_of_comps valid_comp_def)
  finally show ?thesis .
qed

text \<open>With a name that starts with a non-ASCII byte in the allowed set, the signed comparison of
  \<open>operator<=>\<close> puts that name before the separator, and \<open>isAllowed\<close> rejects the parent directory of
  an allowed path.\<close>

theorem isAllowed_non_ascii:
  "let allowed = [CanonPath (''/foo'' @ [CHR 0xC3, CHR 0xA9]), CanonPath ''/foo/bar''] in
     sorted_wrt (\<lambda>a b. path_cmp a b < 0) allowed \<and>
     isWithin (CanonPath ''/foo/bar'') (CanonPath ''/foo'') \<and>
     isAllowed (CanonPath ''/foo'') allowed = Inr False"
  by code_simp

text \<open>\<open>push\<close> refuses separators, dots and NUL but not the empty component, and the resulting path
  breaks the class invariant.\<close>

theorem push_empty_component:
  "push (CanonPath ''/foo'') [] = Inr (CanonPath ''/foo/'') \<and> \<not> canon (CanonPath ''/foo/'')"
proof
  show "push (CanonPath ''/foo'') [] = Inr (CanonPath ''/foo/'')" by code_simp
  have "path_elems (CanonPath ''/foo/'') = [''foo'']" by code_simp
  moreover have "of_comps [''foo''] = CanonPath ''/foo''" by code_simp
  ultimately show "\<not> canon (CanonPath ''/foo/'')" unfolding canon_def by (metis CanonPath.inject append_Nil2 list.inject not_Cons_self2)
qed

text \<open>\<open>fromFilename\<close> accepts exactly the valid path components, and gives the one-component path.\<close>

theorem fromFilename_iff:
  "(fromFilename s = Some (Inr p)) = (valid_comp s \<and> p = of_comps [s])"
proof
  assume "fromFilename s = Some (Inr p)"
  then have p: "p = of_comps (resolve s)" "CHR 0x00 \<notin> set s" "s = drop 1 (rend (resolve s))"
      "length (resolve s) = 1"
    by (auto simp: fromFilename_def mk_CanonPath_eq res_simps resolve_comp_ok split: if_splits)
  then obtain c where c: "resolve s = [c]" by (cases "resolve s") auto
  with p have "s = c" by simp
  with c resolve_comp_ok [of s] p show "valid_comp s \<and> p = of_comps [s]" by (simp add: valid_comp_def)
next
  assume s: "valid_comp s \<and> p = of_comps [s]"
  then have "resolve s = [s]"
    by (simp add: valid_comp_def comp_ok_def resolve_def raw_comps_def splitString_noSep resolve_step_def)
  with s show "fromFilename s = Some (Inr p)"
    by (simp add: fromFilename_def mk_CanonPath_eq valid_comp_def)
qed

end
