(* ===== verification/Store_Path.thy ===== *)
theory Store_Path
  imports Hashes Canon_Path
begin

text \<open>
  Store paths: \<open>src/src/libstore/path.cc\<close>, \<open>include/nix/store/path.hh\<close>, and the parsing and
  printing of full store paths in \<open>store-dir-config.cc\<close> and \<open>store-api.cc\<close>. The abstract
  specification of a name is the regular expression of \<open>path-regex.hh\<close>.
\<close>

section \<open>Names\<close>

definition HashLen :: nat where "HashLen = 32"

definition MaxPathLen :: nat where "MaxPathLen = 211"

definition name_char :: "char \<Rightarrow> bool" where
  "name_char c =
     ((CHR ''0'' \<le> c \<and> c \<le> CHR ''9'') \<or> (CHR ''a'' \<le> c \<and> c \<le> CHR ''z'')
      \<or> (CHR ''A'' \<le> c \<and> c \<le> CHR ''Z'') \<or> c = CHR ''+'' \<or> c = CHR ''-''
      \<or> c = CHR ''.'' \<or> c = CHR ''_'' \<or> c = CHR ''?'' \<or> c = CHR ''='')"

definition checkName_dots :: "string \<Rightarrow> unit res" where
  "checkName_dots name =
     (if name ! 0 = CHR ''.'' then
        (if length name = 1 then Inl (NixError BadStorePathName ''name '%s' is not valid'')
         else if name ! 1 = CHR ''-'' then
           Inl (NixError BadStorePathName
             ''name '%s' is not valid: first dash-separated component must not be '%s'.'')
         else if name ! 1 = CHR ''.'' then
           (if length name = 2 then Inl (NixError BadStorePathName ''name '%s' is not valid'')
            else if name ! 2 = CHR ''-'' then
              Inl (NixError BadStorePathName
                ''name '%s' is not valid: first dash-separated component must not be '%s'.'')
            else Inr ())
         else Inr ())
      else Inr ())"

definition checkName :: "string \<Rightarrow> unit res" where
  "checkName name =
     bind_res (throw_if (name = []) BadStorePathName ''name must not be empty'') (\<lambda>_.
     bind_res (throw_if (length name > MaxPathLen) BadStorePathName
                 ''name '%s' must be no longer than %d characters'') (\<lambda>_.
     bind_res (checkName_dots name) (\<lambda>_.
       throw_if (\<not> list_all name_char name) BadStorePathName
         ''name '%s' contains illegal character '%s'.'')))"

text \<open>The message of a \<open>BadStorePathName\<close> is passed on inside a \<open>BadStorePath\<close>.\<close>

definition checkPathName :: "string \<Rightarrow> string \<Rightarrow> unit res" where
  "checkPathName path name =
     (case checkName name of
        Inl (NixError c msg) \<Rightarrow>
          if c = BadStorePathName
          then Inl (NixError BadStorePath ''path '%s' is not a valid store path: %s'')
          else Inl (NixError c msg)
      | Inr u \<Rightarrow> Inr u)"

section \<open>\<open>StorePath\<close>\<close>

datatype StorePath = StorePath (base: string)

definition hashPart :: "StorePath \<Rightarrow> string" where
  "hashPart p = take HashLen (base p)"

text \<open>\<open>substr(HashLen + 1)\<close> of a \<open>string_view\<close> throws when the position is past the end.\<close>

definition path_name :: "StorePath \<Rightarrow> string res" where
  "path_name p =
     (if HashLen + 1 \<le> length (base p) then Inr (drop (HashLen + 1) (base p))
      else Inl (NixError AssertionFailure ''std::out_of_range''))"

definition bad_hash_char :: "char \<Rightarrow> bool" where
  "bad_hash_char c =
     (c = CHR ''e'' \<or> c = CHR ''o'' \<or> c = CHR ''u'' \<or> c = CHR ''t''
      \<or> \<not> ((CHR ''0'' \<le> c \<and> c \<le> CHR ''9'') \<or> (CHR ''a'' \<le> c \<and> c \<le> CHR ''z'')))"

definition mk_StorePath :: "string \<Rightarrow> StorePath res" where
  "mk_StorePath bn =
     bind_res (throw_if (length bn < HashLen + 1) BadStorePath
                 '''%s' is too short to be a valid store path'') (\<lambda>_.
     bind_res (throw_if (list_ex bad_hash_char (hashPart (StorePath bn))) BadStorePath
                 ''store path '%s' contains illegal base-32 character '%s'.'') (\<lambda>_.
     bind_res (path_name (StorePath bn)) (\<lambda>n.
     bind_res (checkPathName bn n) (\<lambda>_. Inr (StorePath bn)))))"

definition mk_StorePath_hash :: "Hash \<Rightarrow> string \<Rightarrow> StorePath res" where
  "mk_StorePath_hash h name =
     bind_res (hash_to_string h Nix32 False) (\<lambda>hs.
       let p = StorePath (hs @ ''-'' @ name) in
       bind_res (path_name p) (\<lambda>n.
       bind_res (checkPathName (base p) n) (\<lambda>_. Inr p)))"

definition drvExtension :: string where "drvExtension = ''.drv''"

definition isDerivation :: "StorePath \<Rightarrow> bool res" where
  "isDerivation p = bind_res (path_name p) (\<lambda>n. Inr (hasSuffix n drvExtension))"

definition requireDerivation :: "StorePath \<Rightarrow> unit res" where
  "requireDerivation p =
     bind_res (isDerivation p) (\<lambda>b.
       throw_if (\<not> b) FormatError ''store path '%s' is not a valid derivation path'')"

section \<open>Full store paths\<close>

text \<open>
  \<open>std::filesystem::path\<close>: equality compares the elements, so repeated separators do not count but a
  trailing one does; \<open>filename\<close> is what follows the last separator.
\<close>

definition fs_elems :: "string \<Rightarrow> string list" where
  "fs_elems p = filter (\<lambda>c. c \<noteq> []) (splitString p [slash])"

definition fs_equal :: "string \<Rightarrow> string \<Rightarrow> bool" where
  "fs_equal p q =
     (is_absolute p = is_absolute q \<and> fs_elems p = fs_elems q \<and>
      (fs_elems p \<noteq> [] \<longrightarrow> (last p = slash) = (last q = slash)))"

definition fs_filename :: "string \<Rightarrow> string" where
  "fs_filename p = drop (case rfindPathSep p of None \<Rightarrow> 0 | Some i \<Rightarrow> i + 1) p"

definition parseStorePath :: "string \<Rightarrow> string \<Rightarrow> StorePath res option" where
  "parseStorePath storeDir path =
     (if path = [] then Some (Inl (NixError BadStorePath ''empty path is not a valid store path''))
      else
        map_option (\<lambda>r. bind_res r (\<lambda>p.
          if \<not> fs_equal (parent_path p) storeDir
          then Inl (NixError BadStorePath ''path %s is not in the Nix store'')
          else mk_StorePath (fs_filename p)))
          (canonPath (\<lambda>_. None) path False))"

definition maybeParseStorePath :: "string \<Rightarrow> string \<Rightarrow> StorePath option option" where
  "maybeParseStorePath storeDir path =
     map_option (\<lambda>r. case r of Inl _ \<Rightarrow> None | Inr p \<Rightarrow> Some p) (parseStorePath storeDir path)"

definition isStorePath :: "string \<Rightarrow> string \<Rightarrow> bool option" where
  "isStorePath storeDir path = map_option (\<lambda>o'. o' \<noteq> None) (maybeParseStorePath storeDir path)"

definition printStorePath :: "string \<Rightarrow> StorePath \<Rightarrow> string" where
  "printStorePath storeDir path = storeDir @ ''/'' @ base path"

text \<open>A \<open>StorePathSet\<close> is the list of its elements in increasing order.\<close>

definition printStorePathSet :: "string \<Rightarrow> StorePath list \<Rightarrow> string list" where
  "printStorePathSet storeDir paths = map (printStorePath storeDir) paths"

text \<open>The class invariant that \<open>to_string\<close> and \<open>name\<close> rely on, and the one documented for names.\<close>

definition name_regex :: "string \<Rightarrow> bool" where
  "name_regex name =
     (name \<noteq> [] \<and> list_all name_char name \<and>
      \<not> (\<exists>k \<in> {1, 2}. take k name = replicate k (CHR ''.'') \<and>
           (length name = k \<or> (k < length name \<and> name ! k = CHR ''-''))))"

definition path_wf :: "StorePath \<Rightarrow> bool" where
  "path_wf p =
     (\<exists>h n. base p = h @ ''-'' @ n \<and> length h = HashLen \<and> \<not> list_ex bad_hash_char h \<and>
        name_regex n \<and> length n \<le> MaxPathLen)"

section \<open>Names\<close>

lemma dots_regex:
  "n \<noteq> [] \<Longrightarrow> (checkName_dots n = Inr ()) =
     (\<not> (\<exists>k \<in> {1, 2}. take k n = replicate k (CHR ''.'') \<and>
           (length n = k \<or> (k < length n \<and> n ! k = CHR ''-''))))"
proof -
  assume "n \<noteq> []"
  then consider a where "n = [a]" | a b where "n = [a, b]" | a b c t where "n = a # b # c # t"
    by (metis list.exhaust)
  then show ?thesis
    by cases (auto simp: checkName_dots_def numeral_2_eq_2)
qed

lemma checkName_iff: "(checkName n = Inr ()) = (name_regex n \<and> length n \<le> MaxPathLen)"
  by (cases "n = []") (auto simp: checkName_def res_simps dots_regex name_regex_def throw_if_def split: if_splits)

lemma checkName_error: "checkName n = Inl e \<Longrightarrow> \<exists>msg. e = NixError BadStorePathName msg"
  by (auto simp: checkName_def checkName_dots_def throw_if_def bind_res_Inl_iff split: if_splits)

lemma checkPathName_iff: "(checkPathName p n = Inr ()) = (name_regex n \<and> length n \<le> MaxPathLen)"
  unfolding checkPathName_def checkName_iff [symmetric]
  by (auto split: sum.splits nix_error.splits dest: checkName_error)

section \<open>Construction\<close>

lemma mk_StorePath_iff:
  "(mk_StorePath s = Inr p) =
     (\<exists>h c n. p = StorePath s \<and> s = h @ c # n \<and> length h = HashLen \<and> \<not> list_ex bad_hash_char h \<and>
        name_regex n \<and> length n \<le> MaxPathLen)"
proof
  assume "mk_StorePath s = Inr p"
  then have a: "p = StorePath s" "HashLen + 1 \<le> length s" "\<not> list_ex bad_hash_char (take HashLen s)"
      "name_regex (drop (HashLen + 1) s)" "length (drop (HashLen + 1) s) \<le> MaxPathLen"
    by (auto simp: mk_StorePath_def res_simps path_name_def hashPart_def checkPathName_iff split: if_splits)
  then have "s = take HashLen s @ s ! HashLen # drop (HashLen + 1) s"
    by (simp add: id_take_nth_drop)
  with a show "\<exists>h c n. p = StorePath s \<and> s = h @ c # n \<and> length h = HashLen \<and> \<not> list_ex bad_hash_char h \<and>
        name_regex n \<and> length n \<le> MaxPathLen"
    by (intro exI [of _ "take HashLen s"] exI [of _ "s ! HashLen"] exI [of _ "drop (HashLen + 1) s"]) auto
next
  assume "\<exists>h c n. p = StorePath s \<and> s = h @ c # n \<and> length h = HashLen \<and> \<not> list_ex bad_hash_char h \<and>
        name_regex n \<and> length n \<le> MaxPathLen"
  then obtain h c n where a: "p = StorePath s" "s = h @ c # n" "length h = HashLen"
    "\<not> list_ex bad_hash_char h" "name_regex n" "length n \<le> MaxPathLen" by blast
  then have "checkPathName s n = Inr ()" by (simp add: checkPathName_iff)
  with a show "mk_StorePath s = Inr p"
    by (simp add: mk_StorePath_def path_name_def hashPart_def)
qed

lemma mk_StorePath_wf: "path_wf p \<Longrightarrow> mk_StorePath (base p) = Inr p"
  unfolding path_wf_def mk_StorePath_iff by (cases p) force

lemma nix32_good_char: "c \<in> set nix32_characters \<Longrightarrow> \<not> bad_hash_char c"
proof -
  have "list_all (\<lambda>c. \<not> bad_hash_char c) nix32_characters"
    by (simp add: nix32_characters_def bad_hash_char_def less_eq_char_def)
  then show "c \<in> set nix32_characters \<Longrightarrow> ?thesis" by (simp add: list_all_iff)
qed

lemma bad_hash_char_seps: "bad_hash_char slash" "bad_hash_char (CHR 0x00)" "bad_hash_char (CHR '':'')"
  by (simp_all add: bad_hash_char_def less_eq_char_def)

lemma bad_hash_char_props: "\<not> bad_hash_char c \<Longrightarrow> c \<noteq> slash \<and> c \<noteq> CHR 0x00 \<and> c \<noteq> CHR '':''"
  using bad_hash_char_seps by blast

lemma name_char_seps: "\<not> name_char slash" "\<not> name_char (CHR 0x00)" "\<not> name_char (CHR '':'')"
  by (simp_all add: name_char_def less_eq_char_def)

lemma name_char_props: "name_char c \<Longrightarrow> c \<noteq> slash \<and> c \<noteq> CHR 0x00 \<and> c \<noteq> CHR '':''"
  using name_char_seps by blast

lemma path_wf_chars:
  assumes "path_wf p" "c \<in> set (base p)" shows "c \<noteq> slash \<and> c \<noteq> CHR 0x00 \<and> c \<noteq> CHR '':''"
  using assms bad_hash_char_props [of c] name_char_props [of c]
  by (auto simp: path_wf_def list_ex_iff name_regex_def list_all_iff)

lemma path_wf_comp: "path_wf p \<Longrightarrow> comp_ok (base p)"
proof -
  assume w: "path_wf p"
  then have "33 \<le> length (base p)" by (auto simp: path_wf_def HashLen_def)
  then have "base p \<noteq> []" "base p \<noteq> ''.''" "base p \<noteq> ''..''" by auto
  with path_wf_chars [OF w] show ?thesis by (auto simp: comp_ok_def)
qed

lemma set_nix32_encode: "set (nix32_encode bs) \<subseteq> set nix32_characters"
  using nix32_digit_lt length_nix32_characters
  by (auto simp: nix32_encode_def split: if_splits)

section \<open>Parsing and printing\<close>

lemma fs_equal_refl [simp]: "fs_equal p p"
  by (simp add: fs_equal_def)

lemma canonPath_plain:
  assumes "is_absolute path"
  shows "canonPath (\<lambda>_. None) path False = Some (Inr (rend_root (resolve path)))"
proof -
  have "path \<noteq> []" using assms by (auto simp: is_absolute_def)
  moreover have "canonPath_loop (symlink_hook False (\<lambda>_. None)) (rend []) path 0 =
      Some (Inr (rend (fold resolve_step (raw_comps path) []), 0))"
    by (rule accepting_loop) (simp_all add: symlink_hook_def)
  ultimately show ?thesis
    using assms by (simp add: canonPath_def canonPathInner_def resolve_def rend_root_def)
qed

lemma rend_root_absolute: "is_absolute (rend_root cs)"
  by (cases cs) (simp_all add: is_absolute_def rend_root_def)

lemma fs_elems_rend: "list_all comp_ok cs \<Longrightarrow> fs_elems (rend_root cs) = cs"
proof -
  assume ok: "list_all comp_ok cs"
  then have "\<forall>c \<in> set cs. c \<noteq> []" by (auto simp: list_all_iff comp_ok_def)
  then have "filter (\<lambda>c. c \<noteq> []) cs = cs" by simp
  moreover have "raw_comps (rend_root cs) = [] # (if cs = [] then [[]] else cs)"
    using raw_comps_rend [OF ok] raw_comps_slash [of "[]"] by (simp add: rend_root_def)
  ultimately show ?thesis by (simp add: fs_elems_def raw_comps_def)
qed

lemma last_rend: "list_all comp_ok cs \<Longrightarrow> cs \<noteq> [] \<Longrightarrow> last (rend cs) \<noteq> slash"
proof -
  assume "list_all comp_ok cs" "cs \<noteq> []"
  then have "comp_ok (last cs)" by (rule comp_ok_last)
  then have "last cs \<noteq> []" "last (last cs) \<noteq> slash"
    using last_in_set [of "last cs"] by (simp add: comp_ok_def, metis comp_ok_def)
  then show ?thesis by (subst rend_butlast_last [OF \<open>cs \<noteq> []\<close>]) simp
qed

lemma fs_equal_rend:
  "list_all comp_ok cs \<Longrightarrow> list_all comp_ok ds \<Longrightarrow> fs_equal (rend_root cs) (rend_root ds) = (cs = ds)"
proof -
  assume ok: "list_all comp_ok cs" "list_all comp_ok ds"
  have "cs \<noteq> [] \<Longrightarrow> last (rend_root cs) \<noteq> slash" "ds \<noteq> [] \<Longrightarrow> last (rend_root ds) \<noteq> slash"
    using last_rend ok by (simp_all add: rend_root_def)
  with ok show ?thesis by (auto simp: fs_equal_def rend_root_absolute fs_elems_rend)
qed

lemma parent_path_rend_root:
  assumes "list_all comp_ok cs" "cs \<noteq> []"
  shows "parent_path (rend_root cs) = rend_root (butlast cs)" "fs_filename (rend_root cs) = last cs"
proof -
  note rf = take_parent(1) [OF assms]
  have len: "length (rend (butlast cs)) = 0 \<longleftrightarrow> butlast cs = []" by simp
  show "parent_path (rend_root cs) = rend_root (butlast cs)"
  proof (cases "butlast cs = []")
    case True
    with rf show ?thesis by (simp add: parent_path_def) (simp add: rend_root_def)
  next
    case False
    then obtain k where k: "length (rend (butlast cs)) = Suc k" by (metis len not0_implies_Suc)
    have "take (length (rend (butlast cs))) (rend cs) = rend (butlast cs)"
      using assms(2) by (rule take_rend_butlast)
    with rf k assms(2) False show ?thesis by (simp add: parent_path_def) (simp add: rend_root_def)
  qed
  show "fs_filename (rend_root cs) = last cs"
    using assms(2) rf rend_butlast_last [OF assms(2)] by (simp add: fs_filename_def rend_root_def)
qed

lemma parseStorePath_eq:
  assumes "is_absolute path" "list_all comp_ok ds"
  shows "parseStorePath (rend_root ds) path = Some (
    if resolve path = [] then (if ds = [] then mk_StorePath [] else Inl (NixError BadStorePath ''path %s is not in the Nix store''))
    else if butlast (resolve path) = ds then mk_StorePath (last (resolve path))
    else Inl (NixError BadStorePath ''path %s is not in the Nix store''))"
proof -
  have ne: "path \<noteq> []" using assms by (auto simp: is_absolute_def)
  have root: "parent_path (rend_root []) = rend_root []" "fs_filename (rend_root []) = []"
    by (simp_all add: rend_root_def parent_path_def fs_filename_def rfindPathSep_def)
  show ?thesis
  proof (cases "resolve path = []")
    case True
    with ne assms root show ?thesis
      by (auto simp: parseStorePath_def canonPath_plain fs_equal_rend)
  next
    case False
    with ne assms show ?thesis
      by (simp add: parseStorePath_def canonPath_plain parent_path_rend_root resolve_comp_ok
          fs_equal_rend comp_ok_butlast)
  qed
qed

lemma resolve_print:
  assumes "list_all comp_ok ds" "comp_ok b"
  shows "resolve (rend_root ds @ slash # b) = ds @ [b]"
proof -
  have "raw_comps b = [b]" using assms(2) by (simp add: raw_comps_def splitString_noSep comp_ok_def)
  then show ?thesis
    using assms by (cases "ds = []")
      (simp_all add: rend_root_def resolve_def raw_comps_append raw_comps_rend fold_resolve_ok raw_comps_slash)
qed

lemma mk_StorePath_hash_wf:
  assumes "hashSize h = 20" "length (hash h) = maxHashSize" "name_regex name" "length name \<le> MaxPathLen"
  shows "\<exists>p. mk_StorePath_hash h name = Inr p \<and> path_wf p \<and> path_name p = Inr name \<and>
    hashPart p = nix32_encode (hash_bytes h) \<and> mk_StorePath (base p) = Inr p"
proof -
  let ?hs = "nix32_encode (hash_bytes h)"
  have len: "length (hash_bytes h) = 20" using assms(1,2) by (simp add: hash_bytes_def maxHashSize_def)
  then have "hash_bytes h \<noteq> []" by auto
  then have hs: "length ?hs = HashLen" using len by (simp add: length_nix32_encode HashLen_def)
  have good: "\<not> list_ex bad_hash_char ?hs"
    using set_nix32_encode [of "hash_bytes h"] nix32_good_char by (auto simp: list_ex_iff)
  have name: "path_name (StorePath (?hs @ ''-'' @ name)) = Inr name"
    using hs by (simp add: path_name_def)
  have wf: "path_wf (StorePath (?hs @ ''-'' @ name))"
    unfolding path_wf_def using hs good assms(3,4) by auto
  have "mk_StorePath_hash h name = Inr (StorePath (?hs @ ''-'' @ name))"
    using name assms checkPathName_iff [of "?hs @ ''-'' @ name" name]
    by (simp add: mk_StorePath_hash_def hash_to_string_def Let_def)
  with name wf hs mk_StorePath_wf [OF wf] show ?thesis by (auto simp: hashPart_def)
qed

section \<open>Properties\<close>

text \<open>\<open>checkName\<close> accepts exactly the names of at most 211 characters that match the regular
  expression of \<open>path-regex.hh\<close> (allowed characters only, and not a first dash-separated component
  \<open>.\<close> or \<open>..\<close>).\<close>

theorem checkName_regex:
  "(checkName name = Inr ()) = (name_regex name \<and> length name \<le> MaxPathLen)"
  by (rule checkName_iff)

text \<open>A store path constructed from a 20-byte hash and a valid name is well formed, has that
  name, and reading its printed form back gives the same path.\<close>

theorem mk_StorePath_hash_roundtrip:
  assumes "hashSize h = 20" "length (hash h) = maxHashSize" "name_regex name" "length name \<le> MaxPathLen"
  shows "\<exists>p. mk_StorePath_hash h name = Inr p \<and> path_wf p \<and> path_name p = Inr name \<and>
    hashPart p = nix32_encode (hash_bytes h) \<and> mk_StorePath (base p) = Inr p"
  using assms by (rule mk_StorePath_hash_wf)

theorem mk_StorePath_hash_roundtrip_witness:
  "\<exists>p. mk_StorePath_hash example_hash ''hello-2.12'' = Inr p \<and> path_wf p \<and> path_name p = Inr ''hello-2.12''"
proof -
  have "checkName ''hello-2.12'' = Inr ()"
    by (simp add: checkName_def checkName_dots_def MaxPathLen_def name_char_def less_eq_char_def)
  then have "name_regex ''hello-2.12''" "length ''hello-2.12'' \<le> MaxPathLen"
    by (simp_all only: checkName_iff)
  then show ?thesis
    using mk_StorePath_hash_roundtrip [of example_hash "''hello-2.12''"]
    by (auto simp: example_hash_def maxHashSize_def)
qed

text \<open>C32: For a canonical store directory, printing a well-formed store path and parsing the text
  gives the path back, and whatever parses was a path whose canonical form is the printed path.\<close>

theorem parse_print_StorePath:
  assumes "list_all comp_ok ds"
  shows "(path_wf p \<longrightarrow> parseStorePath (rend_root ds) (printStorePath (rend_root ds) p) = Some (Inr p)) \<and>
    (is_absolute path \<longrightarrow> ds \<noteq> [] \<longrightarrow> parseStorePath (rend_root ds) path = Some (Inr p) \<longrightarrow>
       rend_root (resolve path) = printStorePath (rend_root ds) p)"
proof (intro conjI impI)
  assume wf: "path_wf p"
  have abs: "is_absolute (printStorePath (rend_root ds) p)"
    by (cases ds) (simp_all add: printStorePath_def is_absolute_def rend_root_def)
  show "parseStorePath (rend_root ds) (printStorePath (rend_root ds) p) = Some (Inr p)"
    using parseStorePath_eq [OF abs assms] resolve_print [OF assms path_wf_comp [OF wf]] mk_StorePath_wf [OF wf]
    by (simp add: printStorePath_def)
next
  assume a: "is_absolute path" "ds \<noteq> []" "parseStorePath (rend_root ds) path = Some (Inr p)"
  then have r: "resolve path \<noteq> []" "butlast (resolve path) = ds" "p = StorePath (last (resolve path))"
    using parseStorePath_eq [OF a(1) assms] by (auto simp: mk_StorePath_iff split: if_splits)
  then show "rend_root (resolve path) = printStorePath (rend_root ds) p"
    using a(2) rend_butlast_last [OF r(1)] by (simp add: printStorePath_def rend_root_def)
qed

theorem parse_print_StorePath_witness:
  "parseStorePath (rend_root [''nix'', ''store'']) (printStorePath (rend_root [''nix'', ''store''])
     (StorePath (replicate 32 (CHR ''0'') @ ''-x''))) =
   Some (Inr (StorePath (replicate 32 (CHR ''0'') @ ''-x'')))"
proof -
  have "name_regex ''x''" by (simp add: name_regex_def name_char_def less_eq_char_def)
  moreover have "\<not> bad_hash_char (CHR ''0'')" by (simp add: bad_hash_char_def less_eq_char_def)
  ultimately have "path_wf (StorePath (replicate 32 (CHR ''0'') @ ''-x''))"
    unfolding path_wf_def
    by (intro exI [of _ "replicate 32 (CHR ''0'')"] exI [of _ "''x''"]) (auto simp: HashLen_def MaxPathLen_def list_ex_iff)
  moreover have "list_all comp_ok [''nix'', ''store'']" by (simp add: comp_ok_def)
  ultimately show ?thesis using parse_print_StorePath by blast
qed

text \<open>The character after the 32 hash characters is never looked at: \<open>StorePath\<close> accepts a base
  name that has a separator where the dash belongs, and the result is not a well-formed store path.\<close>

theorem mk_StorePath_unchecked_dash:
  "mk_StorePath (replicate 32 (CHR ''0'') @ ''/x'') = Inr (StorePath (replicate 32 (CHR ''0'') @ ''/x'')) \<and>
   \<not> path_wf (StorePath (replicate 32 (CHR ''0'') @ ''/x''))"
proof
  have "name_regex ''x''" by (simp add: name_regex_def name_char_def less_eq_char_def)
  moreover have "\<not> bad_hash_char (CHR ''0'')" by (simp add: bad_hash_char_def less_eq_char_def)
  ultimately show "mk_StorePath (replicate 32 (CHR ''0'') @ ''/x'') = Inr (StorePath (replicate 32 (CHR ''0'') @ ''/x''))"
    unfolding mk_StorePath_iff
    by (intro exI [of _ "replicate 32 (CHR ''0'')"] exI [of _ slash] exI [of _ "''x''"])
      (auto simp: HashLen_def MaxPathLen_def list_ex_iff)
  show "\<not> path_wf (StorePath (replicate 32 (CHR ''0'') @ ''/x''))"
    using path_wf_chars [of "StorePath (replicate 32 (CHR ''0'') @ ''/x'')" slash] by auto
qed

end
