(* ===== verification/Content_Address.thy ===== *)
theory Content_Address
  imports Store_Path
begin

unbundle bit_operations_syntax

text \<open>
  Content addresses (\<open>src/src/libstore/content-address.cc\<close>, \<open>src/src/libutil/file-content-address.cc\<close>)
  and the computation of store paths from them (\<open>store-dir-config.cc\<close>, \<open>outputPathName\<close> of
  \<open>derivations.cc\<close>). The digest function is a parameter \<open>digest\<close>, as in the theory of hashes.
\<close>

section \<open>Methods\<close>

datatype FileSerialisationMethod = FSM_Flat | FSM_NixArchive

datatype FileIngestionMethod = FIM_Flat | FIM_NixArchive | FIM_Git

datatype CAMethod = Flat | NixArchive | Git | Text

definition parseFileSerialisationMethodOpt :: "string \<Rightarrow> FileSerialisationMethod option" where
  "parseFileSerialisationMethodOpt input =
     (if input = ''flat'' then Some FSM_Flat else if input = ''nar'' then Some FSM_NixArchive else None)"

definition parseFileSerialisationMethod :: "string \<Rightarrow> FileSerialisationMethod res" where
  "parseFileSerialisationMethod input =
     (case parseFileSerialisationMethodOpt input of
        Some ret \<Rightarrow> Inr ret
      | None \<Rightarrow> Inl (NixError UsageError ''Unknown file serialiation method '%s', expect `flat` or `nar`''))"

text \<open>\<open>static_cast\<close> between the two enumerations, whose first two values agree.\<close>

definition ingestion_of_serialisation :: "FileSerialisationMethod \<Rightarrow> FileIngestionMethod" where
  "ingestion_of_serialisation m = (case m of FSM_Flat \<Rightarrow> FIM_Flat | FSM_NixArchive \<Rightarrow> FIM_NixArchive)"

definition parseFileIngestionMethod :: "string \<Rightarrow> FileIngestionMethod res" where
  "parseFileIngestionMethod input =
     (if input = ''git'' then Inr FIM_Git
      else case parseFileSerialisationMethodOpt input of
        Some ret \<Rightarrow> Inr (ingestion_of_serialisation ret)
      | None \<Rightarrow> Inl (NixError UsageError ''Unknown file ingestion method '%s', expect `flat`, `nar`, or `git`''))"

definition renderFileSerialisationMethod :: "FileSerialisationMethod \<Rightarrow> string" where
  "renderFileSerialisationMethod m = (case m of FSM_Flat \<Rightarrow> ''flat'' | FSM_NixArchive \<Rightarrow> ''nar'')"

definition renderFileIngestionMethod :: "FileIngestionMethod \<Rightarrow> string" where
  "renderFileIngestionMethod m =
     (case m of
        FIM_Flat \<Rightarrow> renderFileSerialisationMethod FSM_Flat
      | FIM_NixArchive \<Rightarrow> renderFileSerialisationMethod FSM_NixArchive
      | FIM_Git \<Rightarrow> ''git'')"

definition makeFileIngestionPrefix :: "xp_settings \<Rightarrow> FileIngestionMethod \<Rightarrow> string res" where
  "makeFileIngestionPrefix xp m =
     (case m of
        FIM_Flat \<Rightarrow> Inr []
      | FIM_NixArchive \<Rightarrow> Inr ''r:''
      | FIM_Git \<Rightarrow> bind_res (require xp GitHashing) (\<lambda>_. Inr ''git:''))"

definition getFileIngestionMethod :: "CAMethod \<Rightarrow> FileIngestionMethod" where
  "getFileIngestionMethod m =
     (case m of Flat \<Rightarrow> FIM_Flat | NixArchive \<Rightarrow> FIM_NixArchive | Git \<Rightarrow> FIM_Git | Text \<Rightarrow> FIM_Flat)"

definition method_of_ingestion :: "FileIngestionMethod \<Rightarrow> CAMethod" where
  "method_of_ingestion m = (case m of FIM_Flat \<Rightarrow> Flat | FIM_NixArchive \<Rightarrow> NixArchive | FIM_Git \<Rightarrow> Git)"

definition method_render :: "CAMethod \<Rightarrow> string" where
  "method_render m = (case m of Text \<Rightarrow> ''text'' | _ \<Rightarrow> renderFileIngestionMethod (getFileIngestionMethod m))"

definition method_parse :: "string \<Rightarrow> CAMethod res" where
  "method_parse m =
     (if m = ''text'' then Inr Text
      else bind_res (parseFileIngestionMethod m) (\<lambda>f. Inr (method_of_ingestion f)))"

definition renderPrefix :: "xp_settings \<Rightarrow> CAMethod \<Rightarrow> string res" where
  "renderPrefix xp m =
     (case m of Text \<Rightarrow> Inr ''text:'' | _ \<Rightarrow> makeFileIngestionPrefix xp (getFileIngestionMethod m))"

text \<open>\<open>parsePrefix\<close> takes the view by reference: the method and what is left of the text.\<close>

definition parsePrefix :: "xp_settings \<Rightarrow> string \<Rightarrow> (CAMethod \<times> string) res" where
  "parsePrefix xp m =
     (case splitPrefix m ''r:'' of
        (True, m1) \<Rightarrow> Inr (NixArchive, m1)
      | (False, m1) \<Rightarrow>
          (case splitPrefix m1 ''git:'' of
             (True, m2) \<Rightarrow> bind_res (require xp GitHashing) (\<lambda>_. Inr (Git, m2))
           | (False, m2) \<Rightarrow>
               (case splitPrefix m2 ''text:'' of
                  (True, m3) \<Rightarrow> Inr (Text, m3)
                | (False, m3) \<Rightarrow> Inr (Flat, m3))))"

definition renderPrefixModern :: "xp_settings \<Rightarrow> CAMethod \<Rightarrow> string res" where
  "renderPrefixModern xp m =
     (case m of
        Text \<Rightarrow> Inr ''text:''
      | _ \<Rightarrow> bind_res (makeFileIngestionPrefix xp (getFileIngestionMethod m)) (\<lambda>p. Inr (''fixed:'' @ p)))"

definition renderWithAlgo :: "xp_settings \<Rightarrow> CAMethod \<Rightarrow> HashAlgorithm \<Rightarrow> string res" where
  "renderWithAlgo xp m ha = bind_res (renderPrefixModern xp m) (\<lambda>p. Inr (p @ printHashAlgo ha))"

section \<open>Content addresses\<close>

record ContentAddress =
  ca_method :: CAMethod
  ca_hash :: Hash

definition ca_render :: "xp_settings \<Rightarrow> ContentAddress \<Rightarrow> string res" where
  "ca_render xp ca =
     bind_res (renderPrefixModern xp (ca_method ca)) (\<lambda>p.
     bind_res (hash_to_string (ca_hash ca) Nix32 True) (\<lambda>h. Inr (p @ h)))"

definition parseHashAlgorithm :: "xp_settings \<Rightarrow> string \<Rightarrow> (HashAlgorithm \<times> string) res" where
  "parseHashAlgorithm xp rest =
     (case splitPrefixTo rest (CHR '':'') of
        None \<Rightarrow> Inl (NixError UsageError
          ''content address hash must be in form '<algo>:<hash>', but found: %s'')
      | Some (hashAlgoRaw, rest1) \<Rightarrow>
          bind_res (parseHashAlgo xp hashAlgoRaw) (\<lambda>hashAlgo. Inr (hashAlgo, rest1)))"

definition parse_fixed_method :: "xp_settings \<Rightarrow> string \<Rightarrow> (CAMethod \<times> string) res" where
  "parse_fixed_method xp rest =
     (case splitPrefix rest ''r:'' of
        (True, rest1) \<Rightarrow> Inr (NixArchive, rest1)
      | (False, rest1) \<Rightarrow>
          (case splitPrefix rest1 ''git:'' of
             (True, rest2) \<Rightarrow> bind_res (require xp GitHashing) (\<lambda>_. Inr (Git, rest2))
           | (False, rest2) \<Rightarrow> Inr (Flat, rest2)))"

definition parseContentAddressMethodPrefix ::
    "xp_settings \<Rightarrow> string \<Rightarrow> (CAMethod \<times> HashAlgorithm \<times> string) res" where
  "parseContentAddressMethodPrefix xp rest =
     (case splitPrefixTo rest (CHR '':'') of
        None \<Rightarrow> Inl (NixError UsageError
          ''not a content address because it is not in the form '<prefix>:<rest>': %s'')
      | Some (pre, rest1) \<Rightarrow>
          if pre = ''text'' then
            bind_res (parseHashAlgorithm xp rest1) (\<lambda>(hashAlgo, rest2). Inr (Text, hashAlgo, rest2))
          else if pre = ''fixed'' then
            bind_res (parse_fixed_method xp rest1) (\<lambda>(m, rest2).
            bind_res (parseHashAlgorithm xp rest2) (\<lambda>(hashAlgo, rest3). Inr (m, hashAlgo, rest3)))
          else Inl (NixError UsageError
            ''content address prefix '%s' is unrecognized. Recogonized prefixes are 'text' or 'fixed'.''))"

definition ca_parse :: "xp_settings \<Rightarrow> string \<Rightarrow> ContentAddress res" where
  "ca_parse xp rawCa =
     bind_res (parseContentAddressMethodPrefix xp rawCa) (\<lambda>(caMethod, hashAlgo, rest).
     bind_res (parseNonSRIUnprefixed xp rest hashAlgo) (\<lambda>h.
       Inr \<lparr>ca_method = caMethod, ca_hash = h\<rparr>))"

definition parseWithAlgo :: "xp_settings \<Rightarrow> string \<Rightarrow> (CAMethod \<times> HashAlgorithm) res" where
  "parseWithAlgo xp caMethod =
     bind_res (parseContentAddressMethodPrefix xp (caMethod @ '':'')) (\<lambda>(m, a, _). Inr (m, a))"

definition ca_parseOpt :: "xp_settings \<Rightarrow> string \<Rightarrow> ContentAddress option res" where
  "ca_parseOpt xp rawCaOpt =
     (if rawCaOpt = [] then Inr None else bind_res (ca_parse xp rawCaOpt) (\<lambda>ca. Inr (Some ca)))"

definition renderContentAddress :: "xp_settings \<Rightarrow> ContentAddress option \<Rightarrow> string res" where
  "renderContentAddress xp ca = (case ca of Some c \<Rightarrow> ca_render xp c | None \<Rightarrow> Inr [])"

definition printMethodAlgo :: "xp_settings \<Rightarrow> ContentAddress \<Rightarrow> string res" where
  "printMethodAlgo xp ca =
     bind_res (renderPrefix xp (ca_method ca)) (\<lambda>p. Inr (p @ printHashAlgo (algo (ca_hash ca))))"

section \<open>Content addresses with references\<close>

record StoreReferences =
  others :: "StorePath list"
  self :: bool

definition refs_empty :: "StoreReferences \<Rightarrow> bool" where
  "refs_empty r = (\<not> self r \<and> others r = [])"

definition refs_size :: "StoreReferences \<Rightarrow> nat" where
  "refs_size r = (if self r then 1 else 0) + length (others r)"

datatype CAWithReferences =
    TextInfo (text_hash: Hash) (text_references: "StorePath list")
  | FixedOutputInfo (foi_method: FileIngestionMethod) (foi_hash: Hash) (foi_references: StoreReferences)

definition withoutRefs :: "ContentAddress \<Rightarrow> CAWithReferences" where
  "withoutRefs ca =
     (case ca_method ca of
        Text \<Rightarrow> TextInfo (ca_hash ca) []
      | m \<Rightarrow> FixedOutputInfo (getFileIngestionMethod m) (ca_hash ca) \<lparr>others = [], self = False\<rparr>)"

definition fromParts :: "CAMethod \<Rightarrow> Hash \<Rightarrow> StoreReferences \<Rightarrow> CAWithReferences res" where
  "fromParts m h refs =
     (case m of
        Text \<Rightarrow>
          if self refs then Inl (NixError Error ''self-reference not allowed with text hashing'')
          else Inr (TextInfo h (others refs))
      | _ \<Rightarrow> Inr (FixedOutputInfo (getFileIngestionMethod m) h refs))"

definition getMethod :: "CAWithReferences \<Rightarrow> CAMethod" where
  "getMethod ca =
     (case ca of TextInfo _ _ \<Rightarrow> Text | FixedOutputInfo m _ _ \<Rightarrow> method_of_ingestion m)"

definition getHash :: "CAWithReferences \<Rightarrow> Hash" where
  "getHash ca = (case ca of TextInfo h _ \<Rightarrow> h | FixedOutputInfo _ h _ \<Rightarrow> h)"

section \<open>Store paths from content\<close>

type_synonym digest_fun = "HashAlgorithm \<Rightarrow> string \<Rightarrow> byte list"

definition makeStorePath_str ::
    "digest_fun \<Rightarrow> xp_settings \<Rightarrow> string \<Rightarrow> string \<Rightarrow> string \<Rightarrow> string \<Rightarrow> StorePath res" where
  "makeStorePath_str digest xp storeDir type hs name =
     (let s = type @ '':'' @ hs @ '':'' @ storeDir @ '':'' @ name in
      bind_res (hashString digest xp SHA256 s) (\<lambda>d.
      bind_res (compressHash xp d 20) (\<lambda>h. mk_StorePath_hash h name)))"

definition makeStorePath ::
    "digest_fun \<Rightarrow> xp_settings \<Rightarrow> string \<Rightarrow> string \<Rightarrow> Hash \<Rightarrow> string \<Rightarrow> StorePath res" where
  "makeStorePath digest xp storeDir type h name =
     bind_res (hash_to_string h Base16 True) (\<lambda>hs. makeStorePath_str digest xp storeDir type hs name)"

definition outputPathName :: "string \<Rightarrow> string \<Rightarrow> string" where
  "outputPathName drvName outputName =
     (if outputName \<noteq> ''out'' then drvName @ ''-'' @ outputName else drvName)"

definition makeOutputPath ::
    "digest_fun \<Rightarrow> xp_settings \<Rightarrow> string \<Rightarrow> string \<Rightarrow> Hash \<Rightarrow> string \<Rightarrow> StorePath res" where
  "makeOutputPath digest xp storeDir outid h name =
     makeStorePath digest xp storeDir (''output:'' @ outid) h (outputPathName name outid)"

definition makeType :: "string \<Rightarrow> string \<Rightarrow> StoreReferences \<Rightarrow> string" where
  "makeType storeDir type references =
     (let t = fold (\<lambda>i t. t @ '':'' @ printStorePath storeDir i) (others references) type
      in if self references then t @ '':self'' else t)"

definition makeFixedOutputPath ::
    "digest_fun \<Rightarrow> xp_settings \<Rightarrow> string \<Rightarrow> string \<Rightarrow> FileIngestionMethod \<Rightarrow> Hash \<Rightarrow> StoreReferences
     \<Rightarrow> StorePath res" where
  "makeFixedOutputPath digest xp storeDir name m h references =
     bind_res (throw_if (m = FIM_Git \<and> \<not> (algo h = SHA1 \<or> algo h = SHA256)) Error
         ''Git file ingestion must use SHA-1 or SHA-256 hash, but instead using: %s'') (\<lambda>_.
       if algo h = SHA256 \<and> m = FIM_NixArchive then
         makeStorePath digest xp storeDir (makeType storeDir ''source'' references) h name
       else
         bind_res (throw_if (\<not> refs_empty references) Error
             ''fixed output derivation '%s' is not allowed to refer to other store paths'') (\<lambda>_.
         bind_res (makeFileIngestionPrefix xp m) (\<lambda>pre.
         bind_res (hash_to_string h Base16 True) (\<lambda>hs.
         bind_res (hashString digest xp SHA256 (''fixed:out:'' @ pre @ hs @ '':'')) (\<lambda>d.
           makeStorePath digest xp storeDir ''output:out'' d name)))))"

definition makeFixedOutputPathFromCA ::
    "digest_fun \<Rightarrow> xp_settings \<Rightarrow> string \<Rightarrow> string \<Rightarrow> CAWithReferences \<Rightarrow> StorePath res" where
  "makeFixedOutputPathFromCA digest xp storeDir name ca =
     (case ca of
        TextInfo h references \<Rightarrow>
          bind_res (assert_res (algo h = SHA256)) (\<lambda>_.
            makeStorePath digest xp storeDir
              (makeType storeDir ''text'' \<lparr>others = references, self = False\<rparr>) h name)
      | FixedOutputInfo m h references \<Rightarrow> makeFixedOutputPath digest xp storeDir name m h references)"

section \<open>Round trips of methods and content addresses\<close>

definition method_enabled :: "xp_settings \<Rightarrow> CAMethod \<Rightarrow> bool" where
  "method_enabled xp m = (m = Git \<longrightarrow> isEnabled xp GitHashing)"

lemma require_enabled: "isEnabled xp f \<Longrightarrow> require xp f = Inr ()"
  by (simp add: require_def)

lemma makeFileIngestionPrefix_eq:
  "method_enabled xp m \<Longrightarrow> makeFileIngestionPrefix xp (getFileIngestionMethod m) =
     Inr (case m of NixArchive \<Rightarrow> ''r:'' | Git \<Rightarrow> ''git:'' | _ \<Rightarrow> [])"
  by (cases m) (simp_all add: makeFileIngestionPrefix_def getFileIngestionMethod_def method_enabled_def
      require_enabled)

lemma printHashAlgo_hd:
  "splitPrefix (printHashAlgo a @ s) ''r:'' = (False, printHashAlgo a @ s)"
  "splitPrefix (printHashAlgo a @ s) ''git:'' = (False, printHashAlgo a @ s)"
  "splitPrefix (printHashAlgo a @ s) ''text:'' = (False, printHashAlgo a @ s)"
  by (cases a; simp add: printHashAlgo_def splitPrefix_def)+

lemma parseHashAlgorithm_print:
  "algo_enabled xp a \<Longrightarrow> parseHashAlgorithm xp (printHashAlgo a @ CHR '':'' # s) = Inr (a, s)"
  by (simp add: parseHashAlgorithm_def splitPrefixTo_append printHashAlgo_chars parse_print_algo)

lemma splitPrefix_app [simp]: "splitPrefix (p @ s) p = (True, s)"
  by (simp add: splitPrefix_def)

lemma parse_render_prefix:
  assumes "method_enabled xp m" "algo_enabled xp a"
  shows "\<exists>p. renderPrefixModern xp m = Inr p \<and>
    parseContentAddressMethodPrefix xp (p @ printHashAlgo a @ CHR '':'' # s) = Inr (m, a, s)"
proof -
  let ?q = "case m of NixArchive \<Rightarrow> ''r:'' | Git \<Rightarrow> ''git:'' | _ \<Rightarrow> []"
  have sp: "splitPrefixTo (CHR ''f'' # CHR ''i'' # CHR ''x'' # CHR ''e'' # CHR ''d'' # CHR '':'' # t) (CHR '':'') = Some (''fixed'', t)"
    "splitPrefixTo (CHR ''t'' # CHR ''e'' # CHR ''x'' # CHR ''t'' # CHR '':'' # t) (CHR '':'') = Some (''text'', t)" for t
    by simp_all
  have g: "splitPrefix (CHR ''r'' # CHR '':'' # t) ''r:'' = (True, t)"
    "splitPrefix (CHR ''g'' # CHR ''i'' # CHR ''t'' # CHR '':'' # t) ''r:'' = (False, ''git:'' @ t)"
    "splitPrefix (CHR ''g'' # CHR ''i'' # CHR ''t'' # CHR '':'' # t) ''git:'' = (True, t)" for t
    by (simp_all add: splitPrefix_def)
  show ?thesis
  proof (cases m)
    case Text
    from assms sp(2) show ?thesis unfolding Text
      by (simp add: renderPrefixModern_def parseContentAddressMethodPrefix_def parseHashAlgorithm_print
          del: splitPrefixTo.simps)
  next
    case Flat
    from assms sp(1) show ?thesis unfolding Flat
      by (simp add: renderPrefixModern_def makeFileIngestionPrefix_eq parseContentAddressMethodPrefix_def
          parse_fixed_method_def printHashAlgo_hd parseHashAlgorithm_print del: splitPrefixTo.simps)
  next
    case NixArchive
    from assms sp(1) g(1) show ?thesis unfolding NixArchive
      by (simp add: renderPrefixModern_def makeFileIngestionPrefix_eq parseContentAddressMethodPrefix_def
          parse_fixed_method_def printHashAlgo_hd parseHashAlgorithm_print del: splitPrefixTo.simps)
  next
    case Git
    with assms have "require xp GitHashing = Inr ()" by (simp add: method_enabled_def require_enabled)
    with assms sp(1) g(2,3) show ?thesis unfolding Git
      by (simp add: renderPrefixModern_def makeFileIngestionPrefix_eq parseContentAddressMethodPrefix_def
          parse_fixed_method_def printHashAlgo_hd parseHashAlgorithm_print del: splitPrefixTo.simps)
  qed
qed

lemma parseNonSRI_nix32:
  assumes "hash_wf h" "algo_enabled xp (algo h)"
  shows "parseNonSRIUnprefixed xp (nix32_encode (hash_bytes h)) (algo h) = Inr h"
  using assms baseFromSize_encode(2) [OF hash_bytes_len [OF assms(1)]]
    parseLowLevel_ok [of h xp nix32_decode] nix32_roundtrip [OF hash_bytes_small [OF assms(1)]]
  by (simp add: parseNonSRIUnprefixed_def parseExplicitFormatUnprefixed_def baseExplicit_def)

section \<open>The text that is hashed into a store path\<close>

lemma concatStringsSep_head: "concatStringsSep sep (t # xs) = t @ concat (map (\<lambda>x. sep @ x) xs)"
  by (induction xs arbitrary: t) (auto simp: concatStringsSep_Cons)

lemma makeType_pieces:
  "makeType storeDir type r =
     concatStringsSep '':'' (type # map (printStorePath storeDir) (others r) @ (if self r then [''self''] else []))"
proof -
  have "fold (\<lambda>i t. t @ '':'' @ printStorePath storeDir i) ps t =
      concatStringsSep '':'' (t # map (printStorePath storeDir) ps)" for ps t
    unfolding concatStringsSep_head by (induction ps arbitrary: t) auto
  then show ?thesis by (simp add: makeType_def Let_def concatStringsSep_head)
qed

definition path_pieces :: "string \<Rightarrow> string \<Rightarrow> StoreReferences \<Rightarrow> Hash \<Rightarrow> string \<Rightarrow> string list" where
  "path_pieces storeDir type r h name =
     type # map (printStorePath storeDir) (others r) @ (if self r then [''self''] else []) @
     [printHashAlgo (algo h), base16_encode (hash_bytes h), storeDir, name]"

lemma concatStringsSep_append:
  "xs \<noteq> [] \<Longrightarrow> ys \<noteq> [] \<Longrightarrow>
   concatStringsSep sep (xs @ ys) = concatStringsSep sep xs @ sep @ concatStringsSep sep ys"
  by (induction xs) (auto simp: concatStringsSep_Cons)

lemma makeStorePath_pieces:
  assumes "hash_wf h"
  shows "makeStorePath digest xp storeDir (makeType storeDir type r) h name =
    bind_res (hashString digest xp SHA256 (concatStringsSep '':'' (path_pieces storeDir type r h name))) (\<lambda>d.
    bind_res (compressHash xp d 20) (\<lambda>c. mk_StorePath_hash c name))"
proof -
  have "concatStringsSep '':'' (path_pieces storeDir type r h name) =
      makeType storeDir type r @ '':'' @ printHashAlgo (algo h) @ '':'' @ base16_encode (hash_bytes h) @ '':'' @
      storeDir @ '':'' @ name"
    unfolding path_pieces_def makeType_pieces
    using concatStringsSep_append [of "type # map (printStorePath storeDir) (others r) @ (if self r then [''self''] else [])"
      "[printHashAlgo (algo h), base16_encode (hash_bytes h), storeDir, name]" "'':''"]
    by simp
  then show ?thesis
    using assms by (simp add: makeStorePath_def hash_to_string_wf makeStorePath_str_def Let_def)
qed

lemma base16_alphabet: "set (base16_encode bs) \<subseteq> set base16Chars"
proof (induction bs)
  case (Cons b bs)
  have n: "nib < 16 \<Longrightarrow> base16Chars ! nib \<in> set base16Chars" for nib by (intro nth_mem) (simp add: base16Chars_def)
  then show ?case
    using Cons n [of "unat (drop_bit 4 b)"] n [of "unat (b AND 0x0f)"] nibble_bounds [of b] by auto
qed simp

lemma base16_no_colon: "CHR '':'' \<notin> set (base16_encode bs)"
proof -
  have "CHR '':'' \<notin> set base16Chars" by (simp add: base16Chars_def)
  with base16_alphabet show ?thesis by blast
qed

lemma path_pieces_no_colon:
  assumes "CHR '':'' \<notin> set storeDir" "CHR '':'' \<notin> set type" "CHR '':'' \<notin> set name" "list_all path_wf (others r)"
    "x \<in> set (path_pieces storeDir type r h name)"
  shows "CHR '':'' \<notin> set x"
proof -
  have p: "CHR '':'' \<notin> set (base p)" if "p \<in> set (others r)" for p
    using assms(4) that path_wf_chars by (auto simp: list_all_iff)
  show ?thesis
    using assms(1,2,3,5) base16_no_colon printHashAlgo_chars p
    by (auto simp: path_pieces_def printStorePath_def split: if_splits)
qed

lemma printStorePath_inj: "printStorePath storeDir p = printStorePath storeDir q \<Longrightarrow> p = q"
  by (cases p; cases q) (simp add: printStorePath_def)

lemma printHashAlgo_inj: "printHashAlgo a = printHashAlgo b \<Longrightarrow> a = b"
  by (cases a; cases b) (simp_all add: printHashAlgo_def)

lemma base16_inj: "base16_encode xs = base16_encode ys \<Longrightarrow> xs = ys"
  by (metis base16_roundtrip sum.inject(2) bytes_of_string_of_bytes)

lemma nix32_inj: "length xs < 2 ^ 60 \<Longrightarrow> length ys < 2 ^ 60 \<Longrightarrow> nix32_encode xs = nix32_encode ys \<Longrightarrow> xs = ys"
  by (metis nix32_roundtrip sum.inject(2) bytes_of_string_of_bytes)

text \<open>A well-formed hash is determined by its algorithm and its bytes.\<close>

lemma hash_wf_eqI:
  "hash_wf h \<Longrightarrow> hash_wf h2 \<Longrightarrow> algo h = algo h2 \<Longrightarrow> hash_bytes h = hash_bytes h2 \<Longrightarrow> h = (h2 :: Hash)"
proof -
  assume a: "hash_wf h" "hash_wf h2" "algo h = algo h2" "hash_bytes h = hash_bytes h2"
  then have "hashSize h = hashSize h2" by (simp add: hash_wf_def)
  moreover have "hash h = hash h2"
    using a by (metis append_take_drop_id hash_bytes_def hash_wf_def)
  ultimately show ?thesis using a(3) by (cases h; cases h2) simp
qed

lemma refs_pieces_inj:
  assumes "map (printStorePath d) ps @ (if b then [''self''] else []) =
           map (printStorePath d) qs @ (if c then [''self''] else [])"
  shows "ps = qs \<and> b = c"
proof -
  have self: "printStorePath d p \<noteq> ''self''" for p
  proof
    assume "printStorePath d p = ''self''"
    then have "slash \<in> set ''self''" by (metis printStorePath_def append_Cons in_set_conv_decomp append_assoc)
    then show False by simp
  qed
  define f where "f x = (x = ''self'')" for x :: string
  have "filter (\<lambda>x. x \<noteq> ''self'') (map (printStorePath d) ps @ (if b then [''self''] else [])) = map (printStorePath d) ps" for ps b
    using self by (auto simp: filter_id_conv)
  then have m: "map (printStorePath d) ps = map (printStorePath d) qs" using assms by metis
  then have "ps = qs" using printStorePath_inj by (metis inj_on_def inj_map_eq_map injI)
  with assms show ?thesis by (auto split: if_splits)
qed

lemma path_pieces_inj:
  assumes "path_pieces d t r h n = path_pieces d t r2 h2 n2" "hash_wf h" "hash_wf h2"
  shows "r = r2 \<and> h = h2 \<and> n = n2"
proof -
  let ?L = "\<lambda>r. map (printStorePath d) (others r) @ (if self r then [''self''] else [])"
  let ?R = "\<lambda>h n. [printHashAlgo (algo h), base16_encode (hash_bytes h), d, n]"
  have "?L r @ ?R h n = ?L r2 @ ?R h2 n2"
    using assms(1) by (simp add: path_pieces_def)
  then have "?L r = ?L r2 \<and> ?R h n = ?R h2 n2" by (subst (asm) append_eq_append_conv) auto
  then have "?L r = ?L r2" "algo h = algo h2" "hash_bytes h = hash_bytes h2" "n = n2"
    using printHashAlgo_inj base16_inj by auto
  moreover from this(1) have "others r = others r2 \<and> self r = self r2" by (rule refs_pieces_inj)
  ultimately have "others r = others r2" "self r = self r2" "algo h = algo h2"
    "hash_bytes h = hash_bytes h2" "n = n2" by auto
  with assms show ?thesis by (auto intro: hash_wf_eqI) 
qed

lemma compressHash_shape:
  assumes "compressHash xp h 20 = Inr c" shows "hashSize c = 20" "length (hash c) = 64"
  using assms by (auto simp: compressHash_def res_simps maxHashSize_def dest!: new_Hash_InrD)

text \<open>The two paths to the digest of a store path, and what equal store paths say about them.\<close>

definition path_digest :: "digest_fun \<Rightarrow> xp_settings \<Rightarrow> string \<Rightarrow> Hash res" where
  "path_digest digest xp s = bind_res (hashString digest xp SHA256 s) (\<lambda>d. compressHash xp d 20)"

lemma mk_StorePath_hash_inj:
  assumes "mk_StorePath_hash c n = Inr p" "mk_StorePath_hash c2 n2 = Inr p"
    and "hashSize c = 20" "length (hash c) = 64" "hashSize c2 = 20" "length (hash c2) = 64"
  shows "n = n2 \<and> hash_bytes c = hash_bytes c2"
proof -
  have b: "base p = nix32_encode (hash_bytes c) @ ''-'' @ n" "base p = nix32_encode (hash_bytes c2) @ ''-'' @ n2"
    using assms by (auto simp: mk_StorePath_hash_def res_simps hash_to_string_def Let_def)
  have l: "length (hash_bytes c) = 20" "length (hash_bytes c2) = 20" using assms by (simp_all add: hash_bytes_def)
  then have "hash_bytes c \<noteq> []" "hash_bytes c2 \<noteq> []" by auto
  then have "length (nix32_encode (hash_bytes c)) = length (nix32_encode (hash_bytes c2))"
    using l by (simp add: length_nix32_encode)
  with b have "nix32_encode (hash_bytes c) = nix32_encode (hash_bytes c2)" "n = n2" by auto
  with l nix32_inj [of "hash_bytes c" "hash_bytes c2"] show ?thesis by simp
qed

lemma makeStorePath_inj:
  assumes "makeStorePath digest xp d (makeType d t r) h n = Inr p"
    and "makeStorePath digest xp d (makeType d t r2) h2 n2 = Inr p"
    and "CHR '':'' \<notin> set d" "CHR '':'' \<notin> set t" "CHR '':'' \<notin> set n" "CHR '':'' \<notin> set n2"
    and "list_all path_wf (others r)" "list_all path_wf (others r2)" "hash_wf h" "hash_wf h2"
  shows "(r = r2 \<and> h = h2 \<and> n = n2) \<or>
    (\<exists>s s' c c'. s \<noteq> s' \<and> path_digest digest xp s = Inr c \<and> path_digest digest xp s' = Inr c' \<and>
       hash_bytes c = hash_bytes c')"
proof -
  let ?s = "\<lambda>r h n. concatStringsSep '':'' (path_pieces d t r h n)"
  from assms(1,2) makeStorePath_pieces [OF assms(9)] makeStorePath_pieces [OF assms(10)]
  obtain c c2 where c: "path_digest digest xp (?s r h n) = Inr c" "mk_StorePath_hash c n = Inr p"
    and c2: "path_digest digest xp (?s r2 h2 n2) = Inr c2" "mk_StorePath_hash c2 n2 = Inr p"
    by (auto simp: res_simps path_digest_def)
  have shape: "hashSize c = 20" "length (hash c) = 64" "hashSize c2 = 20" "length (hash c2) = 64"
    using c(1) c2(1) by (auto simp: path_digest_def res_simps dest: compressHash_shape)
  from mk_StorePath_hash_inj [OF c(2) c2(2) shape] have eq: "hash_bytes c = hash_bytes c2" by simp
  show ?thesis
  proof (cases "?s r h n = ?s r2 h2 n2")
    case False
    with c(1) c2(1) eq show ?thesis by blast
  next
    case True
    have "path_pieces d t r h n = splitString (?s r h n) '':''"
      using path_pieces_no_colon [OF assms(3,4,5,7)]
      by (intro splitString_concat [symmetric]) (auto simp: path_pieces_def)
    also have "\<dots> = path_pieces d t r2 h2 n2"
      unfolding True using path_pieces_no_colon [OF assms(3,4,6,8)]
      by (intro splitString_concat) (auto simp: path_pieces_def)
    finally show ?thesis using path_pieces_inj assms(9,10) by blast
  qed
qed

lemma makeStorePath_wf:
  assumes "hashSize g \<noteq> 0" "name_regex name" "length name \<le> MaxPathLen"
  shows "\<exists>p. makeStorePath digest xp d t g name = Inr p \<and> path_wf p \<and> path_name p = Inr name"
proof -
  have hs: "hash_to_string g Base16 True = Inr (printHashAlgo (algo g) @ '':'' @ base16_encode (hash_bytes g))"
    using assms(1) by (simp add: hash_to_string_def Let_def assert_res_def)
  let ?s = "t @ '':'' @ (printHashAlgo (algo g) @ '':'' @ base16_encode (hash_bytes g)) @ '':'' @ d @ '':'' @ name"
  obtain g' where g': "hashString digest xp SHA256 ?s = Inr g'" "algo g' = SHA256"
    by (simp add: hashString_def new_Hash_enabled Let_def)
  obtain c where c: "compressHash xp g' 20 = Inr c"
    using g'(2) by (simp add: compressHash_def new_Hash_enabled)
  obtain p where p: "mk_StorePath_hash c name = Inr p" "path_wf p" "path_name p = Inr name"
    using mk_StorePath_hash_wf [of c name] compressHash_shape [OF c] assms(2,3) by (auto simp: maxHashSize_def)
  show ?thesis using hs g'(1) c p unfolding makeStorePath_def makeStorePath_str_def Let_def
    by (simp only: bind_res.simps) simp
qed

lemma ca_parse_render:
  assumes "hash_wf (ca_hash ca)" "algo_enabled xp (algo (ca_hash ca))" "method_enabled xp (ca_method ca)"
  shows "\<exists>s t. ca_render xp ca = Inr s \<and> ca_parse xp s = Inr ca \<and>
    renderWithAlgo xp (ca_method ca) (algo (ca_hash ca)) = Inr t \<and>
    parseWithAlgo xp t = Inr (ca_method ca, algo (ca_hash ca)) \<and>
    method_parse (method_render (ca_method ca)) = Inr (ca_method ca)"
proof -
  let ?m = "ca_method ca" and ?h = "ca_hash ca"
  obtain p where p: "renderPrefixModern xp ?m = Inr p"
    "\<And>s. parseContentAddressMethodPrefix xp (p @ printHashAlgo (algo ?h) @ CHR '':'' # s) = Inr (?m, algo ?h, s)"
    using parse_render_prefix [OF assms(3,2)] by (metis Inr_inject)
  have "ca_render xp ca = Inr (p @ printHashAlgo (algo ?h) @ CHR '':'' # nix32_encode (hash_bytes ?h))"
    using p(1) assms(1) by (simp add: ca_render_def hash_to_string_wf)
  moreover have "ca_parse xp (p @ printHashAlgo (algo ?h) @ CHR '':'' # nix32_encode (hash_bytes ?h)) = Inr ca"
    using parseNonSRI_nix32 [OF assms(1,2)] by (simp add: ca_parse_def p(2))
  moreover have "renderWithAlgo xp ?m (algo ?h) = Inr (p @ printHashAlgo (algo ?h))"
    using p(1) by (simp add: renderWithAlgo_def)
  moreover have "parseWithAlgo xp (p @ printHashAlgo (algo ?h)) = Inr (?m, algo ?h)"
    using p(2) [of "[]"] by (simp add: parseWithAlgo_def)
  moreover have "method_parse (method_render ?m) = Inr ?m"
    by (cases ?m) (simp_all add: method_parse_def method_render_def renderFileIngestionMethod_def
        getFileIngestionMethod_def renderFileSerialisationMethod_def parseFileIngestionMethod_def
        parseFileSerialisationMethodOpt_def ingestion_of_serialisation_def method_of_ingestion_def)
  ultimately show ?thesis by blast
qed

section \<open>Properties\<close>

text \<open>C24: A content address of a well-formed hash whose features are enabled renders to a text that
  parses back to it, and the method with its algorithm alone renders and parses back as well.\<close>

theorem ca_render_parse:
  assumes "hash_wf (ca_hash ca)" "algo_enabled xp (algo (ca_hash ca))" "method_enabled xp (ca_method ca)"
  shows "\<exists>s t. ca_render xp ca = Inr s \<and> ca_parse xp s = Inr ca \<and>
    renderWithAlgo xp (ca_method ca) (algo (ca_hash ca)) = Inr t \<and>
    parseWithAlgo xp t = Inr (ca_method ca, algo (ca_hash ca)) \<and>
    method_parse (method_render (ca_method ca)) = Inr (ca_method ca)"
  using assms by (rule ca_parse_render)

theorem ca_render_parse_witness:
  "\<exists>s. ca_render [] \<lparr>ca_method = NixArchive, ca_hash = example_hash\<rparr> = Inr s \<and>
     ca_parse [] s = Inr \<lparr>ca_method = NixArchive, ca_hash = example_hash\<rparr>"
  using ca_render_parse [of "\<lparr>ca_method = NixArchive, ca_hash = example_hash\<rparr>" "[]"] example_hash_wf
  by (auto simp: method_enabled_def algo_enabled_def example_hash_def)


text \<open>For a valid name and a SHA-256 hash, text and archive addresses with any references give a
  well-formed store path of that name; a flat or Git address with references is refused.\<close>

theorem makeFixedOutputPathFromCA_wf:
  assumes "name_regex name" "length name \<le> MaxPathLen" "hash_wf h" "algo h = SHA256"
  shows "(\<exists>p. makeFixedOutputPathFromCA digest xp d name (TextInfo h rs) = Inr p \<and> path_wf p \<and> path_name p = Inr name) \<and>
    (\<exists>p. makeFixedOutputPathFromCA digest xp d name (FixedOutputInfo FIM_NixArchive h r) = Inr p \<and> path_wf p \<and> path_name p = Inr name) \<and>
    (refs_empty r \<longrightarrow> (\<exists>p. makeFixedOutputPathFromCA digest xp d name (FixedOutputInfo FIM_Flat h r) = Inr p \<and>
       path_wf p \<and> path_name p = Inr name)) \<and>
    (\<not> refs_empty r \<longrightarrow> m \<noteq> FIM_NixArchive \<longrightarrow>
       (\<exists>e. makeFixedOutputPathFromCA digest xp d name (FixedOutputInfo m h r) = Inl e))"
proof -
  have made: "\<exists>p. makeStorePath digest xp d t g name = Inr p \<and> path_wf p \<and> path_name p = Inr name"
    if "hashSize g \<noteq> 0" for t g
    using makeStorePath_wf [OF that assms(1,2)] .
  have sz: "hashSize h \<noteq> 0" using assms(3,4) by (simp add: hash_wf_def regularHashSize_def)
  have hs: "hash_to_string h Base16 True = Inr (printHashAlgo (algo h) @ '':'' @ base16_encode (hash_bytes h))"
    using sz by (simp add: hash_to_string_def Let_def assert_res_def)
  obtain d' where d': "hashString digest xp SHA256 (''fixed:out:'' @ [] @
      (printHashAlgo (algo h) @ '':'' @ base16_encode (hash_bytes h)) @ '':'') = Inr d'" "hashSize d' \<noteq> 0"
    by (simp add: hashString_def new_Hash_enabled Let_def regularHashSize_def)
  have "makeFixedOutputPathFromCA digest xp d name (FixedOutputInfo FIM_Flat h r) =
      makeStorePath digest xp d ''output:out'' d' name" if "refs_empty r"
    using that hs d'(1) unfolding makeFixedOutputPathFromCA_def makeFixedOutputPath_def
    by (simp only: CAWithReferences.case FileIngestionMethod.simps makeFileIngestionPrefix_def throw_if_False bind_res.simps
        simp_thms if_False)
  then have flat: "refs_empty r \<longrightarrow> (\<exists>p. makeFixedOutputPathFromCA digest xp d name (FixedOutputInfo FIM_Flat h r) = Inr p \<and>
       path_wf p \<and> path_name p = Inr name)"
    using made [OF d'(2)] by simp
  show ?thesis
    using made [OF sz] assms(4) flat
    by (auto simp: makeFixedOutputPathFromCA_def makeFixedOutputPath_def throw_if_def)
qed

theorem makeFixedOutputPathFromCA_wf_witness:
  "\<exists>p. makeFixedOutputPathFromCA (\<lambda>a s. replicate 32 7) [] ''/nix/store'' ''x''
     (TextInfo \<lparr>hashSize = 32, hash = replicate 64 0, algo = SHA256\<rparr> []) = Inr p \<and> path_wf p \<and> path_name p = Inr ''x''"
proof -
  have "name_regex ''x''" by (simp add: name_regex_def name_char_def less_eq_char_def)
  moreover have "hash_wf \<lparr>hashSize = 32, hash = replicate 64 0, algo = SHA256\<rparr>"
    by (simp add: hash_wf_def regularHashSize_def maxHashSize_def)
  ultimately show ?thesis
    using makeFixedOutputPathFromCA_wf [of "''x''" "\<lparr>hashSize = 32, hash = replicate 64 0, algo = SHA256\<rparr>"]
    by (simp add: MaxPathLen_def)
qed


end
