(* ===== verification/Names.thy ===== *)
theory Names
  imports Nix_Strings Hashes "HOL-Library.Product_Lexorder"
begin

text \<open>
  Package names and versions: \<open>src/src/libstore/names.cc\<close>. \<open>string2Int<int>\<close> of \<open>util.cc\<close> is
  \<open>boost::lexical_cast\<close> (not part of the repository) and is a parameter: the number that a text
  denotes, \<open>None\<close> when it is not the text of an \<open>int\<close>. The matching of \<open>DrvName\<close> against a regular
  expression calls \<open>std::regex\<close> and is not modelled.
\<close>

section \<open>Derivation names\<close>

text \<open>\<open>isalpha\<close> and \<open>isdigit\<close> in the C locale.\<close>

definition is_alpha :: "char \<Rightarrow> bool" where
  "is_alpha c = ((CHR ''a'' \<le> c \<and> c \<le> CHR ''z'') \<or> (CHR ''A'' \<le> c \<and> c \<le> CHR ''Z''))"

definition is_digit :: "char \<Rightarrow> bool" where
  "is_digit c = (CHR ''0'' \<le> c \<and> c \<le> CHR ''9'')"

fun split_version :: "string \<Rightarrow> (string \<times> string) option" where
  "split_version (c # d # s) =
     (if c = CHR ''-'' \<and> \<not> is_alpha d then Some ([], d # s)
      else map_option (\<lambda>(n, v). (c # n, v)) (split_version (d # s)))"
| "split_version s = None"

record DrvName =
  fullName :: string
  drv_name :: string
  version :: string
  hits :: nat

definition mk_DrvName :: "string \<Rightarrow> DrvName" where
  "mk_DrvName s =
     (case split_version s of
        None \<Rightarrow> \<lparr>fullName = s, drv_name = s, version = [], hits = 0\<rparr>
      | Some (n, v) \<Rightarrow> \<lparr>fullName = s, drv_name = n, version = v, hits = 0\<rparr>)"

definition drvNamesFromArgs :: "string list \<Rightarrow> DrvName list" where
  "drvNamesFromArgs opArgs = map mk_DrvName opArgs"

section \<open>Versions\<close>

abbreviation version_sep :: "char \<Rightarrow> bool" where
  "version_sep c \<equiv> c = CHR ''.'' \<or> c = CHR ''-''"

text \<open>The iterator \<open>p\<close> is the rest of the string: the component and the new rest.\<close>

definition nextComponent :: "string \<Rightarrow> string \<times> string" where
  "nextComponent p0 =
     (let p = dropWhile (\<lambda>c. version_sep c) p0 in
      case p of
        [] \<Rightarrow> ([], [])
      | c # _ \<Rightarrow>
          if is_digit c then (takeWhile is_digit p, dropWhile is_digit p)
          else (takeWhile (\<lambda>c. \<not> is_digit c \<and> \<not> version_sep c) p,
                dropWhile (\<lambda>c. \<not> is_digit c \<and> \<not> version_sep c) p))"

definition componentsLT :: "(string \<Rightarrow> int option) \<Rightarrow> string \<Rightarrow> string \<Rightarrow> bool" where
  "componentsLT string2Int c1 c2 =
     (let n1 = string2Int c1; n2 = string2Int c2 in
      if n1 \<noteq> None \<and> n2 \<noteq> None then the n1 < the n2
      else if c1 = [] \<and> n2 \<noteq> None then True
      else if c1 = ''pre'' \<and> c2 \<noteq> ''pre'' then True
      else if c2 = ''pre'' then False
      else if n2 \<noteq> None then True
      else if n1 \<noteq> None then False
      else c1 < c2)"

lemma nextComponent_Nil:
  "dropWhile (\<lambda>c. version_sep c) p = [] \<Longrightarrow> nextComponent p = ([], [])"
  unfolding nextComponent_def Let_def by (simp only: list.case)

lemma nextComponent_Cons:
  assumes "dropWhile (\<lambda>c. version_sep c) p = c # q"
  shows "length (snd (nextComponent p)) \<le> length q"
proof -
  have sep: "\<not> version_sep c"
    using hd_dropWhile [of "\<lambda>c. version_sep c" p] assms by simp
  have a: "length (dropWhile P q) \<le> length q" for P by (rule length_dropWhile_le)
  show ?thesis unfolding nextComponent_def Let_def assms list.case using sep a by simp
qed

lemma nextComponent_length:
  assumes "p \<noteq> []" shows "length (snd (nextComponent p)) < length p"
proof (cases "dropWhile (\<lambda>c. version_sep c) p")
  case Nil
  from nextComponent_Nil [OF this] assms show ?thesis by simp
next
  case (Cons c q)
  have "length (dropWhile (\<lambda>c. version_sep c) p) \<le> length p" by (rule length_dropWhile_le)
  with nextComponent_Cons [OF Cons] show ?thesis unfolding Cons by simp
qed

lemma nextComponent_empty [simp]: "nextComponent [] = ([], [])"
  by (simp add: nextComponent_def)

lemma nextComponent_length_le: "length (snd (nextComponent p)) \<le> length p"
  using nextComponent_length [of p] by (cases "p = []") auto

function compareVersions :: "(string \<Rightarrow> int option) \<Rightarrow> string \<Rightarrow> string \<Rightarrow> ordering" where
  "compareVersions string2Int p1 p2 =
     (if p1 \<noteq> [] \<or> p2 \<noteq> [] then
        let (c1, q1) = nextComponent p1; (c2, q2) = nextComponent p2 in
        if componentsLT string2Int c1 c2 then Less
        else if componentsLT string2Int c2 c1 then Greater
        else compareVersions string2Int q1 q2
      else Equivalent)"
  by pat_completeness auto
termination
proof (relation "measure (\<lambda>(f, p, q). length p + length q)", goal_cases)
  case (2 f p1 p2 x c1 q1 y c2 q2)
  then have q: "q1 = snd (nextComponent p1)" "q2 = snd (nextComponent p2)" by (metis snd_conv)+
  from 2(1) nextComponent_length [of p1] nextComponent_length [of p2]
    nextComponent_length_le [of p1] nextComponent_length_le [of p2]
  show ?case unfolding q by auto
qed simp

declare compareVersions.simps [simp del]

section \<open>The order of components\<close>

definition comp_key :: "(string \<Rightarrow> int option) \<Rightarrow> string \<Rightarrow> nat \<times> int \<times> string" where
  "comp_key f c =
     (if c = ''pre'' then (0, 0, [])
      else case f c of Some n \<Rightarrow> (2, n, []) | None \<Rightarrow> (1, 0, c))"

lemma componentsLT_key:
  assumes "f [] = None" "f ''pre'' = None"
  shows "componentsLT f c1 c2 = (comp_key f c1 < comp_key f c2)"
  using assms
  by (cases "f c1"; cases "f c2")
    (auto simp: componentsLT_def comp_key_def Let_def less_prod_def split: option.splits)

text \<open>The \<open>n\<close>-th component of a version; a version that has ended goes on with empty components.\<close>

primrec vcomp :: "string \<Rightarrow> nat \<Rightarrow> string" where
  "vcomp v 0 = fst (nextComponent v)"
| "vcomp v (Suc n) = vcomp (snd (nextComponent v)) n"

lemma vcomp_Nil [simp]: "vcomp [] n = []"
  by (induction n) auto

definition vkey :: "(string \<Rightarrow> int option) \<Rightarrow> string \<Rightarrow> nat \<Rightarrow> nat \<times> int \<times> string" where
  "vkey f v n = comp_key f (vcomp v n)"

definition vless :: "(string \<Rightarrow> int option) \<Rightarrow> string \<Rightarrow> string \<Rightarrow> bool" where
  "vless f v w = (\<exists>n. vkey f v n < vkey f w n \<and> (\<forall>k < n. vkey f v k = vkey f w k))"

lemma vkey_simps [simp]:
  "vkey f v 0 = comp_key f (fst (nextComponent v))"
  "vkey f v (Suc n) = vkey f (snd (nextComponent v)) n"
  by (simp_all add: vkey_def)

lemma vless_step:
  "vless f v w = (comp_key f (fst (nextComponent v)) < comp_key f (fst (nextComponent w)) \<or>
     (comp_key f (fst (nextComponent v)) = comp_key f (fst (nextComponent w)) \<and>
      vless f (snd (nextComponent v)) (snd (nextComponent w))))" (is "?L = ?R")
proof
  assume ?L
  then obtain n where n: "vkey f v n < vkey f w n" "\<forall>k < n. vkey f v k = vkey f w k"
    by (auto simp: vless_def)
  show ?R
  proof (cases n)
    case 0
    with n show ?thesis by simp
  next
    case (Suc m)
    with n have "vkey f (snd (nextComponent v)) m < vkey f (snd (nextComponent w)) m" by simp
    moreover have "\<forall>k < m. vkey f (snd (nextComponent v)) k = vkey f (snd (nextComponent w)) k"
      using n(2) Suc by (metis Suc_less_eq vkey_simps(2))
    moreover have "comp_key f (fst (nextComponent v)) = comp_key f (fst (nextComponent w))"
      using n(2) Suc by (metis vkey_simps(1) zero_less_Suc)
    ultimately show ?thesis by (auto simp: vless_def)
  qed
next
  assume ?R
  then show ?L
  proof
    assume "comp_key f (fst (nextComponent v)) < comp_key f (fst (nextComponent w))"
    then show ?L unfolding vless_def by (intro exI [of _ 0]) simp
  next
    assume r: "comp_key f (fst (nextComponent v)) = comp_key f (fst (nextComponent w)) \<and>
      vless f (snd (nextComponent v)) (snd (nextComponent w))"
    then obtain m where m: "vkey f (snd (nextComponent v)) m < vkey f (snd (nextComponent w)) m"
      "\<forall>k < m. vkey f (snd (nextComponent v)) k = vkey f (snd (nextComponent w)) k"
      by (auto simp: vless_def)
    have "\<forall>k < Suc m. vkey f v k = vkey f w k"
      using r m(2) by (auto simp: less_Suc_eq_0_disj)
    with m(1) show ?L unfolding vless_def by (intro exI [of _ "Suc m"]) simp
  qed
qed

lemma compareVersions_vless:
  assumes "f [] = None" "f ''pre'' = None"
  shows "(compareVersions f v w = Less) = vless f v w \<and> (compareVersions f v w = Greater) = vless f w v"
proof (induction "length v + length w" arbitrary: v w rule: less_induct)
  case (less v w)
  show ?case
  proof (cases "v = [] \<and> w = []")
    case True
    then show ?thesis by (simp add: compareVersions.simps vless_def vkey_def)
  next
    case False
    let ?v = "snd (nextComponent v)" and ?w = "snd (nextComponent w)"
    let ?a = "comp_key f (fst (nextComponent v))" and ?b = "comp_key f (fst (nextComponent w))"
    have step: "compareVersions f v w =
        (if ?a < ?b then Less else if ?b < ?a then Greater else compareVersions f ?v ?w)"
      using False
      by (subst compareVersions.simps) (simp add: componentsLT_key [of f, OF assms] case_prod_beta Let_def)
    have "length ?v + length ?w < length v + length w"
      using False nextComponent_length [of v] nextComponent_length [of w]
        nextComponent_length_le [of v] nextComponent_length_le [of w] by auto
    note IH = less.hyps [OF this]
    show ?thesis
      using IH unfolding vless_step [of f v w] vless_step [of f w v] step by (auto split: if_splits)
  qed
qed

lemma vless_trans: "vless f u v \<Longrightarrow> vless f v w \<Longrightarrow> vless f u w"
proof -
  assume "vless f u v" "vless f v w"
  then obtain m n where m: "vkey f u m < vkey f v m" "\<forall>k < m. vkey f u k = vkey f v k"
    and n: "vkey f v n < vkey f w n" "\<forall>k < n. vkey f v k = vkey f w k" by (auto simp: vless_def)
  show ?thesis unfolding vless_def
  proof (intro exI conjI allI impI)
    show "vkey f u (min m n) < vkey f w (min m n)"
      using m n by (cases "m < n"; cases "n < m") (auto simp: min_def not_less)
  qed (use m n in auto)
qed

lemma vless_linear: "\<not> vless f u v \<Longrightarrow> \<not> vless f v u \<Longrightarrow> vkey f u n = vkey f v n"
proof (induction n rule: less_induct)
  case (less n)
  then have eq: "\<forall>k < n. vkey f u k = vkey f v k" by blast
  show ?case
    using less.prems eq unfolding vless_def by (metis linorder_neqE)
qed

lemma vless_cong: "(\<And>n. vkey f u n = vkey f v n) \<Longrightarrow> vless f u w = vless f v w"
  by (simp add: vless_def)

lemma vless_irrefl: "\<not> vless f u u"
  by (simp add: vless_def)

section \<open>Properties\<close>

text \<open>C25: \<open>compareVersions\<close> is a total preorder on all strings: exchanging the arguments flips the
  result, being less is transitive, and equivalent versions compare alike with every version. It only
  needs that neither the empty component nor \<open>pre\<close> is a number.\<close>

theorem compareVersions_preorder:
  assumes "string2Int [] = None" "string2Int ''pre'' = None"
  shows "(compareVersions string2Int u v = Less) = (compareVersions string2Int v u = Greater) \<and>
    compareVersions string2Int u u = Equivalent \<and>
    (compareVersions string2Int u v = Less \<longrightarrow> compareVersions string2Int v w = Less \<longrightarrow>
       compareVersions string2Int u w = Less) \<and>
    (compareVersions string2Int u v = Equivalent \<longrightarrow>
       compareVersions string2Int u w = compareVersions string2Int v w)"
proof -
  note lt = compareVersions_vless [of string2Int, OF assms]
  let ?c = "compareVersions string2Int" and ?l = "vless string2Int"
  have flip: "(?c u v = Less) = (?c v u = Greater)" using lt [of u v] lt [of v u] by simp
  have refl: "?c u u = Equivalent" using lt [of u u] vless_irrefl [of string2Int u] by (cases "?c u u") auto
  have trans: "?c u v = Less \<longrightarrow> ?c v w = Less \<longrightarrow> ?c u w = Less"
    using lt [of u v] lt [of v w] lt [of u w] vless_trans by blast
  have "?c u w = ?c v w" if e: "?c u v = Equivalent"
  proof -
    have "vkey string2Int u n = vkey string2Int v n" for n
      using e lt [of u v] by (intro vless_linear) auto
    then have "?l u w = ?l v w" "?l w u = ?l w v" by (simp_all add: vless_def)
    then show ?thesis using lt [of u w] lt [of v w] by (cases "?c u w"; cases "?c v w") auto
  qed
  with flip refl trans show ?thesis by blast
qed

definition small_int :: "string \<Rightarrow> int option" where
  "small_int s =
     (if s \<noteq> [] \<and> list_all is_digit s then
        let n = foldl (\<lambda>n c. 10 * n + (of_char c - 48)) 0 s in if n < 2 ^ 31 then Some n else None
      else None)"

theorem compareVersions_preorder_witness:
  "compareVersions small_int ''2.3.1'' ''2.3pre1'' = Greater \<and>
   compareVersions small_int ''2.3pre1'' ''2.3.1'' = Less"
proof -
  have n: "small_int [] = None" "small_int ''pre'' = None" by code_simp+
  have l: "compareVersions small_int ''2.3pre1'' ''2.3.1'' = Less" by code_simp
  have "(compareVersions small_int ''2.3pre1'' ''2.3.1'' = Less) = (compareVersions small_int ''2.3.1'' ''2.3pre1'' = Greater)"
    by (rule compareVersions_preorder [OF n, THEN conjunct1])
  with l show ?thesis by blast
qed

text \<open>A numeric component that does not fit an \<open>int\<close> is compared as text, which the code places
  below every number: such a version is older than version 1.\<close>

theorem compareVersions_large_number:
  assumes "string2Int ''20240101000000'' = None" "string2Int ''1'' = Some 1"
  shows "compareVersions string2Int ''20240101000000'' ''1'' = Less"
proof -
  have "nextComponent ''20240101000000'' = (''20240101000000'', [])" "nextComponent ''1'' = (''1'', [])"
    by code_simp+
  with assms show ?thesis by (subst compareVersions.simps) (simp add: componentsLT_def)
qed

theorem compareVersions_large_number_witness:
  "compareVersions small_int ''20240101000000'' ''1'' = Less"
proof -
  have "small_int ''20240101000000'' = None" "small_int ''1'' = Some 1" by code_simp+
  then show ?thesis by (rule compareVersions_large_number)
qed

text \<open>Parsing a derivation name splits it at the first dash that is followed by something other
  than a letter, and loses nothing.\<close>

theorem mk_DrvName_split:
  "(drv_name (mk_DrvName s) = s \<and> version (mk_DrvName s) = [] \<and> split_version s = None) \<or>
   (s = drv_name (mk_DrvName s) @ CHR ''-'' # version (mk_DrvName s) \<and> version (mk_DrvName s) \<noteq> [] \<and>
    \<not> is_alpha (hd (version (mk_DrvName s))) \<and>
    split_version (drv_name (mk_DrvName s) @ [CHR ''-'']) = None)"
proof -
  have "split_version s = Some (n, v) \<Longrightarrow>
      s = n @ CHR ''-'' # v \<and> v \<noteq> [] \<and> \<not> is_alpha (hd v) \<and> split_version (n @ [CHR ''-'']) = None" for n v
  proof (induction s arbitrary: n v rule: split_version.induct)
    case (1 c d s)
    show ?case
    proof (cases "c = CHR ''-'' \<and> \<not> is_alpha d")
      case True
      with "1.prems" show ?thesis by auto
    next
      case False
      with "1.prems" obtain n' where n': "split_version (d # s) = Some (n', v)" "n = c # n'"
        by auto
      from "1.IH" [OF False n'(1)] have IH: "d # s = n' @ CHR ''-'' # v" "v \<noteq> []" "\<not> is_alpha (hd v)"
        "split_version (n' @ [CHR ''-'']) = None" by auto
      have "split_version (n @ [CHR ''-'']) = None"
        using IH False n'(2) by (cases n') auto
      with IH n'(2) show ?thesis by simp
    qed
  qed auto
  then show ?thesis by (cases "split_version s") (auto simp: mk_DrvName_def)
qed

end
