(* ===== verification/Serialise.thy ===== *)
theory Serialise
  imports Nix_Strings
begin

unbundle bit_operations_syntax

text \<open>
  Sources, sinks and the serialisation of numbers and strings:
  \<open>src/src/libutil/include/nix/util/serialise.hh\<close> and \<open>serialise.cc\<close>.

  A \<open>Source\<close> is its \<open>read\<close> method: from a requested length and a state, the bytes read (at most
  that many) and the new state, or an exception. \<open>Source::operator()\<close> loops until it has all bytes
  and need not end, so it is a \<open>partial_function (option)\<close>. The locale \<open>source_contract\<close> is what
  readers rely on: a source behaves like the string of its remaining content. String, chained,
  sized, tee and framed sources are its interpretations. The format itself is written over that
  string: \<open>'a parser\<close>. The locale \<open>codec\<close> is the contract of a serialiser with its parser.
\<close>

section \<open>Sources\<close>

type_synonym 's reader = "nat \<Rightarrow> 's \<Rightarrow> (string \<times> 's) res"

text \<open>\<open>Source::operator()(data, len)\<close>: \<open>acc\<close> is what has been stored so far.\<close>

partial_function (option) read_loop :: "'s reader \<Rightarrow> nat \<Rightarrow> string \<Rightarrow> 's \<Rightarrow> (string \<times> 's) res option" where
  "read_loop rd len acc s =
     (if len = 0 then Some (Inr (acc, s))
      else case rd len s of
        Inl e \<Rightarrow> Some (Inl e)
      | Inr r \<Rightarrow> read_loop rd (len - length (fst r)) (acc @ fst r) (snd r))"

declare read_loop.simps [code]

definition read_exact :: "'s reader \<Rightarrow> nat \<Rightarrow> 's \<Rightarrow> (string \<times> 's) res option" where
  "read_exact rd len s = read_loop rd len [] s"

record StringSource =
  src :: string
  pos :: nat

definition StringSource_read :: "StringSource reader" where
  "StringSource_read len s =
     (if pos s = length (src s) then Inl (NixError EndOfFile ''end of string reached'')
      else let d = take len (drop (pos s) (src s)) in Inr (d, s\<lparr>pos := pos s + length d\<rparr>))"

text \<open>\<open>skip\<close> moves to the end before it throws: the state after the exception is kept.\<close>

definition StringSource_skip :: "nat \<Rightarrow> StringSource \<Rightarrow> unit res \<times> StringSource" where
  "StringSource_skip len s =
     (let remain = length (src s) - pos s in
      if len > remain
      then (Inl (NixError EndOfFile ''end of string reached''), s\<lparr>pos := length (src s)\<rparr>)
      else (Inr (), s\<lparr>pos := pos s + len\<rparr>))"

definition StringSource_restart :: "StringSource \<Rightarrow> StringSource" where
  "StringSource_restart s = s\<lparr>pos := 0\<rparr>"

text \<open>\<open>ChainSource\<close>: the two sources and \<open>useSecond\<close>.\<close>

record ('a, 'b) ChainSource =
  source1 :: 'a
  source2 :: 'b
  useSecond :: bool

definition chain_second :: "'b reader \<Rightarrow> ('a, 'b) ChainSource reader" where
  "chain_second rd2 len c =
     bind_res (rd2 len (source2 c)) (\<lambda>(d, s). Inr (d, c\<lparr>source2 := s\<rparr>))"

definition ChainSource_read :: "'a reader \<Rightarrow> 'b reader \<Rightarrow> ('a, 'b) ChainSource reader" where
  "ChainSource_read rd1 rd2 len c =
     (if useSecond c then chain_second rd2 len c
      else case rd1 len (source1 c) of
        Inr r \<Rightarrow> Inr (fst r, c\<lparr>source1 := snd r\<rparr>)
      | Inl (NixError cls msg) \<Rightarrow>
          if cls = EndOfFile then chain_second rd2 len (c\<lparr>useSecond := True\<rparr>)
          else Inl (NixError cls msg))"

text \<open>\<open>TeeSource\<close> with a \<open>StringSink\<close> and \<open>LengthSource\<close>: the state is the wrapped one and the copy or
  the count.\<close>

definition TeeSource_read :: "'s reader \<Rightarrow> ('s \<times> string) reader" where
  "TeeSource_read rd len st =
     bind_res (rd len (fst st)) (\<lambda>(d, s). Inr (d, (s, snd st @ d)))"

definition LengthSource_read :: "'s reader \<Rightarrow> ('s \<times> u64) reader" where
  "LengthSource_read rd len st =
     bind_res (rd len (fst st)) (\<lambda>(d, s). Inr (d, (s, snd st + of_nat (length d))))"

definition SizedSource_read :: "'s reader \<Rightarrow> ('s \<times> nat) reader" where
  "SizedSource_read rd len st =
     (if snd st \<le> 0 then Inl (NixError EndOfFile ''sized: unexpected end-of-file'')
      else bind_res (rd (min len (snd st)) (fst st)) (\<lambda>(d, s). Inr (d, (s, snd st - length d))))"

section \<open>Sinks\<close>

text \<open>\<open>BufferedSink\<close> over \<open>writeUnbuffered\<close>: the size of the buffer, its contents and the sink below.\<close>

record 'k BufferedSink =
  bufSize :: nat
  buffer :: string
  below :: 'k

type_synonym 'k writer = "string \<Rightarrow> 'k \<Rightarrow> 'k res"

definition BufferedSink_flush :: "'k writer \<Rightarrow> 'k BufferedSink \<Rightarrow> 'k BufferedSink res" where
  "BufferedSink_flush writeUnbuffered b =
     (if buffer b = [] then Inr b
      else bind_res (writeUnbuffered (buffer b) (below b)) (\<lambda>k. Inr (b\<lparr>buffer := [], below := k\<rparr>)))"

function BufferedSink_write :: "'k writer \<Rightarrow> string \<Rightarrow> 'k BufferedSink \<Rightarrow> 'k BufferedSink res" where
  "BufferedSink_write writeUnbuffered data b =
     (if data = [] then Inr b
      else if length data \<ge> bufSize b - length (buffer b) then
        bind_res (BufferedSink_flush writeUnbuffered b) (\<lambda>b1.
        bind_res (writeUnbuffered data (below b1)) (\<lambda>k. Inr (b1\<lparr>below := k\<rparr>)))
      else
        let n = (if length data > bufSize b - length (buffer b)
                 then bufSize b - length (buffer b) else length data);
            b1 = b\<lparr>buffer := buffer b @ take n data\<rparr>;
            data1 = drop n data
        in if length (buffer b1) = bufSize b1
           then bind_res (BufferedSink_flush writeUnbuffered b1) (BufferedSink_write writeUnbuffered data1)
           else BufferedSink_write writeUnbuffered data1 b1)"
  by pat_completeness auto
termination
  by (relation "measure (\<lambda>(w, d, b). length d)") (auto simp: Let_def)

declare BufferedSink_write.simps [simp del]

text \<open>\<open>StringSink\<close> appends; \<open>LengthSink\<close> counts with wrap-around.\<close>

definition StringSink_write :: "string writer" where
  "StringSink_write data s = Inr (s @ data)"

definition LengthSink_write :: "u64 writer" where
  "LengthSink_write data n = Inr (n + of_nat (length data))"

definition TeeSink_write :: "'a writer \<Rightarrow> 'b writer \<Rightarrow> ('a \<times> 'b) writer" where
  "TeeSink_write w1 w2 data st =
     bind_res (w1 data (fst st)) (\<lambda>a. bind_res (w2 data (snd st)) (\<lambda>b. Inr (a, b)))"

section \<open>Writing\<close>

definition byte_at :: "u64 \<Rightarrow> nat \<Rightarrow> char" where
  "byte_at n i = char_of_byte (ucast (drop_bit (8 * i) n AND 0xff))"

text \<open>\<open>operator<<(Sink &, uint64_t)\<close>.\<close>

definition writeNum :: "u64 \<Rightarrow> string" where
  "writeNum n =
     [byte_at n 0, byte_at n 1, byte_at n 2, byte_at n 3,
      byte_at n 4, byte_at n 5, byte_at n 6, byte_at n 7]"

definition writePadding :: "nat \<Rightarrow> string" where
  "writePadding len = (if len mod 8 \<noteq> 0 then replicate (8 - len mod 8) (CHR 0x00) else [])"

definition writeString :: "string \<Rightarrow> string" where
  "writeString s = writeNum (of_nat (length s)) @ s @ writePadding (length s)"

definition writeStrings :: "string list \<Rightarrow> string" where
  "writeStrings ss = writeNum (of_nat (length ss)) @ concat (map writeString ss)"

section \<open>Reading\<close>

type_synonym 'a parser = "string \<Rightarrow> ('a \<times> string) res"

text \<open>\<open>source(buf, len)\<close> on the remaining content: the next \<open>len\<close> bytes, or \<open>EndOfFile\<close>.\<close>

definition take_bytes :: "nat \<Rightarrow> string parser" where
  "take_bytes len s =
     (if length s < len then Inl (NixError EndOfFile ''end of string reached'')
      else Inr (take len s, drop len s))"

fun readLittleEndian :: "string \<Rightarrow> u64" where
  "readLittleEndian [] = 0"
| "readLittleEndian (c # cs) = ucast (byte_of_char c) OR push_bit 8 (readLittleEndian cs)"

text \<open>\<open>readNum<T>\<close>: \<open>tmax\<close> is the largest value of \<open>T\<close>.\<close>

definition readNum :: "u64 \<Rightarrow> u64 parser" where
  "readNum tmax s =
     bind_res (take_bytes 8 s) (\<lambda>(buf, s1).
       let n = readLittleEndian buf in
       if n > tmax then Inl (NixError SerialisationError ''serialised integer %d is too large for type '%s'.'')
       else Inr (n, s1))"

definition uint_max :: u64 where "uint_max = 0xffffffff"

text \<open>\<open>std::numeric_limits<uint64_t>::max()\<close>.\<close>

definition size_max :: u64 where "size_max = - 1"

definition readInt :: "u64 parser" where
  "readInt = readNum uint_max"

definition readLongLong :: "u64 parser" where
  "readLongLong = readNum size_max"

text \<open>\<open>in >> b\<close> for a \<open>bool\<close> is the generic \<open>operator>>\<close>, that is \<open>readNum<bool>\<close>: the overload for
  \<open>bool\<close> has a template parameter that cannot be deduced and is never chosen.\<close>

definition readBool :: "bool parser" where
  "readBool s = bind_res (readNum 1 s) (\<lambda>(n, s1). Inr (n \<noteq> 0, s1))"

definition readPadding :: "nat \<Rightarrow> unit parser" where
  "readPadding len s =
     (if len mod 8 \<noteq> 0 then
        bind_res (take_bytes (8 - len mod 8) s) (\<lambda>(zero, s1).
          if list_ex (\<lambda>c. c \<noteq> CHR 0x00) zero
          then Inl (NixError SerialisationError ''non-zero padding'')
          else Inr ((), s1))
      else Inr ((), s))"

definition readString :: "nat \<Rightarrow> string parser" where
  "readString mx s =
     bind_res (readNum size_max s) (\<lambda>(len, s1).
       if unat len > mx then Inl (NixError SerialisationError ''string is too long'')
       else
         bind_res (take_bytes (unat len) s1) (\<lambda>(r, s2).
         bind_res (readPadding (unat len) s2) (\<lambda>(_, s3). Inr (r, s3))))"

text \<open>The default bound of \<open>readString\<close> is the largest \<open>size_t\<close>.\<close>

definition no_max :: nat where "no_max = 2 ^ 64 - 1"

fun read_times :: "'a parser \<Rightarrow> nat \<Rightarrow> 'a list parser" where
  "read_times p 0 s = Inr ([], s)"
| "read_times p (Suc n) s =
     bind_res (p s) (\<lambda>(x, s1). bind_res (read_times p n s1) (\<lambda>(xs, s2). Inr (x # xs, s2)))"

definition readStrings :: "string list parser" where
  "readStrings s =
     bind_res (readNum size_max s) (\<lambda>(count, s1). read_times (readString no_max) (unat count) s1)"

section \<open>Errors\<close>

record ErrorInfo =
  level :: u64
  msg :: string
  traces :: "string list"

definition writeError :: "ErrorInfo \<Rightarrow> string" where
  "writeError info =
     writeString ''Error'' @ writeNum (level info) @ writeString ''Error'' @ writeString (msg info) @
     writeNum 0 @ writeNum (of_nat (length (traces info))) @
     concat (map (\<lambda>t. writeNum 0 @ writeString t) (traces info))"

definition readPos :: "unit parser" where
  "readPos s =
     bind_res (readNum size_max s) (\<lambda>(havePos, s1).
       if havePos \<noteq> 0
       then Inl (NixError SerialisationError ''deserializing error positions is not supported'')
       else Inr ((), s1))"

definition readTrace :: "string parser" where
  "readTrace s = bind_res (readPos s) (\<lambda>(_, s1). readString no_max s1)"

definition readError :: "ErrorInfo parser" where
  "readError s =
     bind_res (readString no_max s) (\<lambda>(type, s1).
       if type \<noteq> ''Error'' then Inl (NixError SerialisationError ''unexpected error type '%s'.'')
       else
         bind_res (readInt s1) (\<lambda>(lev, s2).
         bind_res (readString no_max s2) (\<lambda>(_, s3).
         bind_res (readString no_max s3) (\<lambda>(m, s4).
         bind_res (readPos s4) (\<lambda>(_, s5).
         bind_res (readNum size_max s5) (\<lambda>(nrTraces, s6).
         bind_res (read_times readTrace (unat nrTraces) s6) (\<lambda>(ts, s7).
           Inr (\<lparr>level = lev, msg = m, traces = ts\<rparr>, s7))))))))"

section \<open>Frames\<close>

text \<open>\<open>FramedSink::writeUnbuffered\<close> with a string below, after \<open>checkError\<close> returned; the destructor
  ends the stream.\<close>

definition FramedSink_writeUnbuffered :: "(unit \<Rightarrow> unit res) \<Rightarrow> string writer" where
  "FramedSink_writeUnbuffered checkError data dest =
     bind_res (checkError ()) (\<lambda>_. Inr (dest @ writeNum (of_nat (length data)) @ data))"

definition FramedSink_finish :: "string \<Rightarrow> string" where
  "FramedSink_finish dest = dest @ writeNum 0"

record FramedSource =
  from_src :: string
  eof :: bool
  pending :: string
  fpos :: nat

definition FramedSource_copy :: "nat \<Rightarrow> FramedSource \<Rightarrow> string \<times> FramedSource" where
  "FramedSource_copy len f =
     (let n = min len (length (pending f) - fpos f)
      in (take n (drop (fpos f) (pending f)), f\<lparr>fpos := fpos f + n\<rparr>))"

definition FramedSource_read :: "FramedSource reader" where
  "FramedSource_read len f =
     (if eof f then Inl (NixError EndOfFile ''reached end of FramedSource'')
      else if fpos f \<ge> length (pending f) then
        bind_res (readInt (from_src f)) (\<lambda>(n, r).
          if n = 0 then Inr ([], f\<lparr>eof := True, from_src := r\<rparr>)
          else
            bind_res (take_bytes (unat n) r) (\<lambda>(d, r1).
              Inr (FramedSource_copy len (f\<lparr>from_src := r1, pending := d, fpos := 0\<rparr>))))
      else Inr (FramedSource_copy len f))"

text \<open>The destructor reads the rest of the stream and ignores every exception; one step of its loop
  consumes at least the eight bytes of a frame length.\<close>

function FramedSource_drain :: "string \<Rightarrow> string res" where
  "FramedSource_drain s =
     (case readInt s of
        Inl e \<Rightarrow> Inl e
      | Inr (n, r) \<Rightarrow>
          if n = 0 then Inr r
          else if length r < unat n then Inl (NixError EndOfFile ''end of string reached'')
          else FramedSource_drain (drop (unat n) r))"
  by pat_completeness auto
termination
  by (relation "measure length")
    (auto simp: readInt_def readNum_def take_bytes_def res_simps Let_def split: if_splits)

declare FramedSource_drain.simps [simp del]

section \<open>Alignment\<close>

text \<open>\<open>alignUp\<close> of \<open>alignment.hh\<close> for \<open>T = uint64_t\<close>.\<close>

definition alignUp :: "u64 \<Rightarrow> u32 \<Rightarrow> u64 res" where
  "alignUp val alignment =
     bind_res (assert_res (\<exists>k < 32. alignment = push_bit k 1)) (\<lambda>_.
       let mask = NOT (ucast alignment - 1) in
       if val > size_max - (ucast alignment - 1)
       then Inl (NixError Error ''can't align %d to %d: value is too large'')
       else Inr ((val + ucast alignment - 1) AND mask))"

section \<open>Numbers\<close>

lemma bit_readLittleEndian:
  "bit (readLittleEndian cs) k =
     (k < 64 \<and> k div 8 < length cs \<and> bit (byte_of_char (cs ! (k div 8))) (k mod 8))"
proof (induction cs arbitrary: k)
  case Nil
  then show ?case by simp
next
  case (Cons c cs)
  show ?case
  proof (cases "k < 8")
    case True
    then show ?thesis by (auto simp: bit_or_iff bit_push_bit_iff bit_ucast_iff)
  next
    case False
    then obtain j where j: "k = j + 8" by (metis add.commute le_iff_add not_less)
    have b: "bit (byte_of_char c) k = False" using False by (auto dest: bit_imp_le_length)
    have d: "(j + 8) div 8 = Suc (j div 8)" "(j + 8) mod 8 = j mod 8" by simp_all
    show ?thesis
      using b unfolding j d
      by (auto simp: bit_or_iff bit_push_bit_iff bit_ucast_iff Cons.IH dest: bit_imp_le_length)
  qed
qed

lemma bit_byte_at: "i < 8 \<Longrightarrow> bit (byte_of_char (byte_at n i)) j = (j < 8 \<and> bit n (8 * i + j))"
  by (auto simp: byte_at_def bit_ucast_iff bit_and_iff bit_drop_bit_eq bit_numeral_rec less_Suc_eq numeral_eq_Suc
      bit_imp_le_length)

lemma nth_writeNum: "i < 8 \<Longrightarrow> writeNum n ! i = byte_at n i"
  by (auto simp: writeNum_def less_Suc_eq numeral_eq_Suc)

lemma length_writeNum [simp]: "length (writeNum n) = 8"
  by (simp add: writeNum_def)

lemma readLittleEndian_writeNum [simp]: "readLittleEndian (writeNum n) = n"
proof (rule bit_word_eqI)
  fix k assume k: "k < LENGTH(64)"
  then have "k div 8 < 8" by simp
  then show "bit (readLittleEndian (writeNum n)) k = bit n k"
    using k by (simp add: bit_readLittleEndian nth_writeNum bit_byte_at)
qed

lemma writeNum_readLittleEndian: "length cs = 8 \<Longrightarrow> writeNum (readLittleEndian cs) = cs"
proof (rule nth_equalityI)
  assume l: "length cs = 8"
  show "length (writeNum (readLittleEndian cs)) = length cs" using l by simp
  fix i assume "i < length (writeNum (readLittleEndian cs))"
  then have i: "i < 8" by simp
  have "byte_of_char (byte_at (readLittleEndian cs) i) = byte_of_char (cs ! i)"
  proof (rule bit_word_eqI)
    fix j assume j: "j < LENGTH(8)"
    then have "(8 * i + j) div 8 = i" "(8 * i + j) mod 8 = j" "8 * i + j < 64" using i by auto
    then show "bit (byte_of_char (byte_at (readLittleEndian cs) i)) j = bit (byte_of_char (cs ! i)) j"
      using i j l by (simp add: bit_byte_at bit_readLittleEndian)
  qed
  with i show "writeNum (readLittleEndian cs) ! i = cs ! i" by (simp add: nth_writeNum)
qed

lemma take_bytes_append [simp]: "length d = n \<Longrightarrow> take_bytes n (d @ s) = Inr (d, s)"
  by (auto simp: take_bytes_def)

lemma take_bytes_Inr: "(take_bytes n s = Inr (d, r)) = (s = d @ r \<and> length d = n)"
  by (auto simp: take_bytes_def)

lemma size_max_ge [simp]: "n \<le> size_max"
  unfolding size_max_def by (rule word_n1_ge)

lemma size_max_le [simp]: "\<not> size_max < n"
  using size_max_ge [of n] by (rule leD)

section \<open>The contract of a serialiser and its parser\<close>

locale codec =
  fixes enc :: "'a \<Rightarrow> string" and dec :: "'a parser" and valid :: "'a \<Rightarrow> bool"
  assumes dec_enc: "valid x \<Longrightarrow> dec (enc x @ s) = Inr (x, s)"
begin

lemma enc_inj: "valid x \<Longrightarrow> valid y \<Longrightarrow> enc x @ s = enc y @ t \<Longrightarrow> x = y \<and> s = t"
  by (metis dec_enc prod.inject sum.inject(2))

lemma many: "list_all valid xs \<Longrightarrow> read_times dec (length xs) (concat (map enc xs) @ s) = Inr (xs, s)"
  by (induction xs) (simp_all add: dec_enc)

end

text \<open>A parser that accepts nothing but what the serialiser writes.\<close>

locale canonical_codec = codec +
  assumes enc_dec: "dec s = Inr (x, r) \<Longrightarrow> s = enc x @ r \<and> valid x"
begin

lemma many_canonical:
  "read_times dec n s = Inr (xs, r) \<Longrightarrow> s = concat (map enc xs) @ r \<and> length xs = n \<and> list_all valid xs"
  by (induction n arbitrary: s xs r) (auto simp: res_simps dest!: enc_dec)

lemma dec_iff: "(dec s = Inr (x, r)) = (valid x \<and> s = enc x @ r)"
  using dec_enc enc_dec by blast

end

interpretation num: canonical_codec writeNum "readNum m" "\<lambda>n. n \<le> m" for m
  by unfold_locales
    (auto simp: readNum_def res_simps Let_def take_bytes_Inr writeNum_readLittleEndian split: if_splits)

lemma length_writePadding: "(length s + length (writePadding (length s))) mod 8 = 0"
  by (simp add: writePadding_def) presburger

interpretation padding: canonical_codec "\<lambda>_. writePadding n" "readPadding n" "\<lambda>_. True" for n
proof (unfold_locales, goal_cases)
  case (1 x s)
  have "take_bytes (8 - n mod 8) (replicate (8 - n mod 8) (CHR 0x00) @ s) = Inr (replicate (8 - n mod 8) (CHR 0x00), s)"
    by (rule take_bytes_append) simp
  moreover have "\<not> list_ex (\<lambda>c. c \<noteq> CHR 0x00) (replicate k (CHR 0x00))" for k by (simp add: list_ex_iff)
  ultimately show ?case by (simp add: writePadding_def readPadding_def)
next
  case (2 s x r)
  show ?case
  proof (cases "n mod 8 = 0")
    case True
    with 2 show ?thesis by (simp add: writePadding_def readPadding_def)
  next
    case False
    with 2 obtain d where d: "s = d @ r" "length d = 8 - n mod 8" "\<not> list_ex (\<lambda>c. c \<noteq> CHR 0x00) d"
      by (auto simp: readPadding_def res_simps take_bytes_Inr split: if_splits)
    then have "d = replicate (length d) (CHR 0x00)"
      by (simp add: list_ex_iff list_eq_iff_nth_eq)
    with d False show ?thesis by (simp add: writePadding_def)
  qed
qed

lemma readPadding_writePadding [simp]: "readPadding n (writePadding n @ s) = Inr ((), s)"
  by (rule padding.dec_enc) simp

lemma unat_of_nat_length: "length s < 2 ^ 64 \<Longrightarrow> unat (of_nat (length s) :: u64) = length s"
  by (simp add: unat_of_nat)

interpretation str: canonical_codec writeString "readString mx" "\<lambda>s. length s \<le> mx \<and> length s < 2 ^ 64" for mx
proof (unfold_locales, goal_cases)
  case (1 x s)
  then show ?case
    by (simp add: writeString_def readString_def num.dec_enc unat_of_nat_length)
next
  case (2 s x r)
  then obtain n s1 s2 where a: "readNum size_max s = Inr (n, s1)" "unat n \<le> mx"
    "take_bytes (unat n) s1 = Inr (x, s2)" "readPadding (unat n) s2 = Inr ((), r)"
    by (auto simp: readString_def res_simps split: if_splits)
  have "unat n < 2 ^ 64" using unsigned_less [of n, where ?'a = nat] by simp
  then show ?case
    using a num.enc_dec [OF a(1)] padding.enc_dec [OF a(4)]
    by (auto simp: take_bytes_Inr writeString_def)
qed

interpretation strs: canonical_codec writeStrings readStrings
    "\<lambda>ss. length ss < 2 ^ 64 \<and> list_all (\<lambda>s. length s < 2 ^ 64) ss"
proof (unfold_locales, goal_cases)
  case (1 x s)
  then have "list_all (\<lambda>s. length s \<le> no_max \<and> length s < 2 ^ 64) x"
    by (auto simp: list_all_iff no_max_def)
  from str.many [OF this, of s] 1 show ?case
    by (simp add: writeStrings_def readStrings_def num.dec_enc unat_of_nat)
next
  case (2 s x r)
  then obtain n s1 where a: "readNum size_max s = Inr (n, s1)"
    "read_times (readString no_max) (unat n) s1 = Inr (x, r)"
    by (auto simp: readStrings_def res_simps)
  have "unat n < 2 ^ 64" using unsigned_less [of n, where ?'a = nat] by simp
  with num.enc_dec [OF a(1)] str.many_canonical [OF a(2)] show ?case
    by (auto simp: writeStrings_def list_all_iff)
qed

interpretation trace: codec "\<lambda>t. writeNum 0 @ writeString t" readTrace "\<lambda>t. length t < 2 ^ 64"
  by unfold_locales (simp add: readTrace_def readPos_def num.dec_enc str.dec_enc no_max_def)

section \<open>The contract of a source\<close>

text \<open>
  \<open>content s\<close> is what can still be read from the state \<open>s\<close>. A read of a positive length gives a
  prefix of the content; it may give nothing only if that uses up some \<open>credit\<close>; at the end it
  throws \<open>EndOfFile\<close> (or, using up credit, gives nothing).
\<close>

locale source_contract =
  fixes rd :: "'s reader" and ok :: "'s \<Rightarrow> bool" and content :: "'s \<Rightarrow> string" and credit :: "'s \<Rightarrow> nat"
  assumes read_Inr:
      "ok s \<Longrightarrow> 0 < len \<Longrightarrow> rd len s = Inr (d, s') \<Longrightarrow>
       ok s' \<and> length d \<le> len \<and> content s = d @ content s' \<and> (d = [] \<longrightarrow> credit s' < credit s)"
    and read_Inl:
      "ok s \<Longrightarrow> 0 < len \<Longrightarrow> rd len s = Inl e \<Longrightarrow> content s = [] \<and> (\<exists>m. e = NixError EndOfFile m)"
begin

theorem read_loop_spec:
  "ok s \<Longrightarrow>
   (len \<le> length (content s) \<longrightarrow>
      (\<exists>s'. read_loop rd len acc s = Some (Inr (acc @ take len (content s), s')) \<and> ok s' \<and>
         content s' = drop len (content s))) \<and>
   (length (content s) < len \<longrightarrow> (\<exists>m. read_loop rd len acc s = Some (Inl (NixError EndOfFile m))))"
proof (induction "(len, s)" arbitrary: len s acc rule: wf_induct_rule [OF wf_measures
    [of "[\<lambda>(len, s). len, \<lambda>(len, s). credit s]"]])
  case (1 len s)
  show ?case
  proof (cases "len = 0")
    case True
    with "1.prems" show ?thesis by (auto simp: read_loop.simps)
  next
    case False
    show ?thesis
    proof (cases "rd len s")
      case (Inl e)
      with read_Inl [OF "1.prems" _ Inl] False show ?thesis by (auto simp: read_loop.simps)
    next
      case (Inr r)
      obtain d s' where r: "r = (d, s')" by (cases r)
      with Inr read_Inr [of s len d s'] "1.prems" False
      have d: "ok s'" "length d \<le> len" "content s = d @ content s'" "d = [] \<longrightarrow> credit s' < credit s" by auto
      have step: "read_loop rd len acc s = read_loop rd (len - length d) (acc @ d) s'"
        using False Inr r by (simp add: read_loop.simps [of rd len acc s])
      have "((len - length d, s'), len, s) \<in> measures [\<lambda>(len, s). len, \<lambda>(len, s). credit s]"
        using d False by (cases "d = []") auto
      from "1.hyps" [OF this d(1), of "acc @ d"] show ?thesis
        unfolding step using d(2,3) by (auto simp: not_less)
    qed
  qed
qed

text \<open>\<open>Source::operator()\<close> is \<open>take_bytes\<close> on the content.\<close>

theorem read_exact_take_bytes:
  assumes "ok s"
  shows "(\<exists>d t s'. take_bytes len (content s) = Inr (d, t) \<and> read_exact rd len s = Some (Inr (d, s')) \<and>
            ok s' \<and> content s' = t)
       \<or> (\<exists>m m'. take_bytes len (content s) = Inl (NixError EndOfFile m) \<and>
            read_exact rd len s = Some (Inl (NixError EndOfFile m')))"
  using read_loop_spec [OF assms, of len "[]"]
  by (cases "len \<le> length (content s)") (auto simp: read_exact_def take_bytes_def not_le)

end

section \<open>The sources of the code\<close>

definition StringSource_ok :: "StringSource \<Rightarrow> bool" where
  "StringSource_ok s = (pos s \<le> length (src s))"

definition StringSource_content :: "StringSource \<Rightarrow> string" where
  "StringSource_content s = drop (pos s) (src s)"

interpretation string_source: source_contract StringSource_read StringSource_ok StringSource_content "\<lambda>_. 0"
proof -
  have split: "drop p s = take n (drop p s) @ drop (n + p) s" for p n and s :: string
    by (metis append_take_drop_id drop_drop)
  show "source_contract StringSource_read StringSource_ok StringSource_content (\<lambda>_. 0)"
    by unfold_locales
      (auto simp: StringSource_read_def StringSource_ok_def StringSource_content_def Let_def min_def
        add.commute intro: split split: if_splits)
qed

lemma bind_pair_Inr:
  "(bind_res m (\<lambda>(d, s). Inr (d, f s d)) = Inr (x, y)) = (\<exists>s. m = Inr (x, s) \<and> y = f s x)"
  by (cases m) auto

lemma bind_pair_Inl: "(bind_res m (\<lambda>(d, s). Inr (d, f s d)) = Inl e) = (m = Inl e)"
  by (cases m) auto

text \<open>Two sources that keep the contract make a chain that keeps it.\<close>

locale chained_sources =
  a: source_contract rd1 ok1 content1 credit1 + b: source_contract rd2 ok2 content2 credit2
  for rd1 :: "'a reader" and ok1 content1 credit1 and rd2 :: "'b reader" and ok2 content2 credit2
begin

definition chain_ok :: "('a, 'b) ChainSource \<Rightarrow> bool" where
  "chain_ok c = (ok1 (source1 c) \<and> ok2 (source2 c))"

definition chain_content :: "('a, 'b) ChainSource \<Rightarrow> string" where
  "chain_content c = (if useSecond c then [] else content1 (source1 c)) @ content2 (source2 c)"

definition chain_credit :: "('a, 'b) ChainSource \<Rightarrow> nat" where
  "chain_credit c = (if useSecond c then 0 else credit1 (source1 c) + 1) + credit2 (source2 c)"

lemma second_Inr:
  "chain_ok c \<Longrightarrow> useSecond c \<Longrightarrow> 0 < len \<Longrightarrow> chain_second rd2 len c = Inr (d, c') \<Longrightarrow>
   chain_ok c' \<and> length d \<le> len \<and> chain_content c = d @ chain_content c' \<and> (d = [] \<longrightarrow> chain_credit c' < chain_credit c)"
  unfolding chain_second_def bind_pair_Inr
  using b.read_Inr [of "source2 c" len d]
  by (auto simp: chain_ok_def chain_content_def chain_credit_def)

lemma second_Inl:
  "chain_ok c \<Longrightarrow> useSecond c \<Longrightarrow> 0 < len \<Longrightarrow> chain_second rd2 len c = Inl e \<Longrightarrow>
   chain_content c = [] \<and> (\<exists>m. e = NixError EndOfFile m)"
  unfolding chain_second_def bind_pair_Inl
  using b.read_Inl [of "source2 c" len e]
  by (auto simp: chain_ok_def chain_content_def)

end

sublocale chained_sources \<subseteq> chain: source_contract "ChainSource_read rd1 rd2" chain_ok chain_content chain_credit
proof (unfold_locales, goal_cases)
  case (1 c len d c')
  show ?case
  proof (cases "useSecond c \<or> (\<exists>e. rd1 len (source1 c) = Inl e)")
    case True
    let ?c = "if useSecond c then c else c\<lparr>useSecond := True\<rparr>"
    have "chain_second rd2 len ?c = Inr (d, c')"
      using 1(3) True by (auto simp: ChainSource_read_def split: nix_error.splits if_splits)
    moreover have "chain_ok ?c" "useSecond ?c" using 1(1) by (auto simp: chain_ok_def)
    ultimately have r: "chain_ok c' \<and> length d \<le> len \<and> chain_content ?c = d @ chain_content c' \<and>
        (d = [] \<longrightarrow> chain_credit c' < chain_credit ?c)"
      using second_Inr 1(2) by blast
    have "chain_content c = chain_content ?c"
      using True a.read_Inl 1(1,2) by (auto simp: chain_content_def chain_ok_def)
    moreover have "chain_credit ?c \<le> chain_credit c" by (auto simp: chain_credit_def)
    ultimately show ?thesis using r by auto
  next
    case False
    then obtain r where "rd1 len (source1 c) = Inr r" by (cases "rd1 len (source1 c)") auto
    moreover from this False 1(3) have "d = fst r" "c' = c\<lparr>source1 := snd r\<rparr>"
      by (auto simp: ChainSource_read_def)
    ultimately show ?thesis
      using a.read_Inr [of "source1 c" len "fst r" "snd r"] 1(1,2) False
      by (auto simp: chain_ok_def chain_content_def chain_credit_def)
  qed
next
  case (2 c len e)
  show ?case
  proof (cases "useSecond c")
    case True
    with 2 second_Inl show ?thesis by (auto simp: ChainSource_read_def)
  next
    case False
    then obtain e1 where e1: "rd1 len (source1 c) = Inl e1"
      using 2(3) by (cases "rd1 len (source1 c)") (auto simp: ChainSource_read_def)
    with a.read_Inl [OF _ 2(2) e1] 2(1) obtain m where m: "content1 (source1 c) = []" "e1 = NixError EndOfFile m"
      by (auto simp: chain_ok_def)
    then have "chain_second rd2 len (c\<lparr>useSecond := True\<rparr>) = Inl e"
      using False 2(3) e1 by (simp add: ChainSource_read_def)
    from second_Inl [OF _ _ 2(2) this] 2(1) m show ?thesis by (auto simp: chain_ok_def chain_content_def)
  qed
qed

interpretation string_chain: chained_sources
    StringSource_read StringSource_ok StringSource_content "\<lambda>_. 0"
    StringSource_read StringSource_ok StringSource_content "\<lambda>_. 0"
  by unfold_locales

text \<open>A tee of a string source keeps the contract, and the copy is what was read.\<close>

interpretation tee_source: source_contract "TeeSource_read StringSource_read"
    "\<lambda>(s, c). StringSource_ok s" "\<lambda>(s, c). StringSource_content s" "\<lambda>_. 0"
proof (unfold_locales, goal_cases)
  case (1 s len d s')
  then show ?case
    using string_source.read_Inr [of "fst s" len d] unfolding TeeSource_read_def bind_pair_Inr by (cases s) auto
next
  case (2 s len e)
  then show ?case
    using string_source.read_Inl [of "fst s" len e] unfolding TeeSource_read_def bind_pair_Inl by (cases s) auto
qed

interpretation sized_source: source_contract "SizedSource_read StringSource_read"
    "\<lambda>(s, n). StringSource_ok s \<and> n \<le> length (StringSource_content s)"
    "\<lambda>(s, n). take n (StringSource_content s)" "\<lambda>_. 0"
proof (unfold_locales, goal_cases)
  case (1 s len d s')
  then show ?case
    using string_source.read_Inr [of "fst s" "min len (snd s)" d]
    by (cases s) (auto simp: SizedSource_read_def bind_pair_Inr split: if_splits)
next
  case (2 s len e)
  then show ?case
    using string_source.read_Inl [of "fst s" "min len (snd s)" e]
    by (cases s) (auto simp: SizedSource_read_def bind_pair_Inl split: if_splits)
qed

section \<open>Frames\<close>

text \<open>What a framed stream holds: the frames up to the empty one, concatenated, and the rest.\<close>

function deframe :: "string \<Rightarrow> (string \<times> string) option" where
  "deframe s =
     (case readInt s of
        Inl e \<Rightarrow> None
      | Inr (n, r) \<Rightarrow>
          if n = 0 then Some ([], r)
          else if length r < unat n then None
          else map_option (\<lambda>(d, t). (take (unat n) r @ d, t)) (deframe (drop (unat n) r)))"
  by pat_completeness auto
termination
  by (relation "measure length")
    (auto simp: readInt_def readNum_def take_bytes_def res_simps Let_def split: if_splits)

declare deframe.simps [simp del]

definition framed_ok :: "FramedSource \<Rightarrow> bool" where
  "framed_ok f = (fpos f \<le> length (pending f) \<and> (\<not> eof f \<longrightarrow> deframe (from_src f) \<noteq> None) \<and>
     (eof f \<longrightarrow> fpos f = length (pending f)))"

definition framed_content :: "FramedSource \<Rightarrow> string" where
  "framed_content f = (if eof f then [] else drop (fpos f) (pending f) @ fst (the (deframe (from_src f))))"

lemma FramedSource_copy_spec:
  assumes "fpos f < length (pending f)" "0 < len" "\<not> eof f" "framed_ok f" "FramedSource_copy len f = (d, f')"
  shows "framed_ok f' \<and> length d \<le> len \<and> framed_content f = d @ framed_content f' \<and> d \<noteq> [] \<and> eof f' = eof f"
proof -
  let ?n = "min len (length (pending f) - fpos f)"
  have d: "d = take ?n (drop (fpos f) (pending f))" "f' = f\<lparr>fpos := fpos f + ?n\<rparr>"
    using assms(5) by (auto simp: FramedSource_copy_def Let_def)
  have "drop (fpos f) (pending f) = d @ drop (fpos f + ?n) (pending f)"
    unfolding d by (metis append_take_drop_id drop_drop add.commute)
  then show ?thesis using assms d by (auto simp: framed_ok_def framed_content_def)
qed

interpretation framed_source: source_contract FramedSource_read framed_ok framed_content
    "\<lambda>f. if eof f then 0 else 1"
proof (unfold_locales, goal_cases)
  case (1 f len d f')
  show ?case
  proof (cases "fpos f \<ge> length (pending f)")
    case False
    with 1 have "\<not> eof f" "FramedSource_copy len f = (d, f')" by (auto simp: FramedSource_read_def split: if_splits)
    with FramedSource_copy_spec [of f len d f'] 1 False show ?thesis by auto
  next
    case True
    with 1 obtain n r where n: "\<not> eof f" "readInt (from_src f) = Inr (n, r)"
      by (auto simp: FramedSource_read_def res_simps split: if_splits)
    show ?thesis
    proof (cases "n = 0")
      case z: True
      with n True 1 have "d = []" "f' = f\<lparr>eof := True, from_src := r\<rparr>" "fpos f = length (pending f)"
        by (auto simp: FramedSource_read_def framed_ok_def)
      moreover have "deframe (from_src f) = Some ([], r)" using n z by (simp add: deframe.simps)
      ultimately show ?thesis using n(1) by (auto simp: framed_ok_def framed_content_def)
    next
      case nz: False
      with n True 1 obtain c t where c: "take_bytes (unat n) r = Inr (c, t)"
        "FramedSource_copy len (f\<lparr>from_src := t, pending := c, fpos := 0\<rparr>) = (d, f')"
        by (auto simp: FramedSource_read_def res_simps)
      then have r: "r = c @ t" "length c = unat n" by (auto simp: take_bytes_Inr)
      have pos: "0 < unat n" using nz by (simp add: unat_gt_0)
      obtain x y where xy: "deframe (from_src f) = Some (x, y)" using 1(1) n(1) by (auto simp: framed_ok_def)
      then obtain x' where x': "deframe t = Some (x', y)" "x = c @ x'"
        using n nz r by (auto simp: deframe.simps [of "from_src f"] split: if_splits)
      have "framed_ok (f\<lparr>from_src := t, pending := c, fpos := 0\<rparr>)"
        using n(1) x' by (auto simp: framed_ok_def)
      from FramedSource_copy_spec [OF _ 1(2) _ this c(2)] r pos n(1)
      have g: "framed_ok f' \<and> length d \<le> len \<and> framed_content (f\<lparr>from_src := t, pending := c, fpos := 0\<rparr>) =
          d @ framed_content f' \<and> d \<noteq> []" by simp
      have "framed_content f = framed_content (f\<lparr>from_src := t, pending := c, fpos := 0\<rparr>)"
        using n(1) True xy x' by (simp add: framed_content_def)
      with g show ?thesis by simp
    qed
  qed
next
  case (2 f len e)
  show ?case
  proof (cases "eof f")
    case True
    with 2 show ?thesis by (auto simp: FramedSource_read_def framed_content_def)
  next
    case False
    then have "deframe (from_src f) \<noteq> None" using 2(1) by (simp add: framed_ok_def)
    with 2(3) False have False
      by (auto simp: FramedSource_read_def bind_res_Inl_iff deframe.simps [of "from_src f"] take_bytes_def
          split: if_splits sum.splits)
    then show ?thesis ..
  qed
qed

text \<open>What \<open>FramedSink\<close> writes for a list of chunks, none of them empty, deframes to the chunks.\<close>

lemma readInt_writeNum [simp]:
  "0 < length d \<Longrightarrow> length d < 2 ^ 32 \<Longrightarrow> readInt (writeNum (of_nat (length d)) @ s) = Inr (of_nat (length d), s)"
  unfolding readInt_def
  by (rule num.dec_enc) (simp add: word_le_nat_alt unat_of_nat uint_max_def)

lemma deframe_chunks:
  "list_all (\<lambda>d. d \<noteq> [] \<and> length d < 2 ^ 32) ds \<Longrightarrow>
   deframe (concat (map (\<lambda>d. writeNum (of_nat (length d)) @ d) ds) @ writeNum 0 @ s) = Some (concat ds, s)"
proof (induction ds)
  case Nil
  have "readInt (writeNum 0 @ s) = Inr (0, s)" unfolding readInt_def by (rule num.dec_enc) simp
  then show ?case by (simp add: deframe.simps)
next
  case (Cons d ds)
  have n: "unat (of_nat (length d) :: u64) = length d" "(of_nat (length d) :: u64) \<noteq> 0"
  proof -
    have "length d < 2 ^ 64" using Cons.prems by simp
    then show u: "unat (of_nat (length d) :: u64) = length d" by (simp add: unat_of_nat)
    show "(of_nat (length d) :: u64) \<noteq> 0"
    proof
      assume "(of_nat (length d) :: u64) = 0"
      then have "length d = 0" using u by simp
      with Cons.prems show False by simp
    qed
  qed
  from Cons show ?case by (subst deframe.simps) (simp add: n)
qed

section \<open>Buffered sinks\<close>

text \<open>
  What \<open>BufferedSink\<close> needs of \<open>writeUnbuffered\<close>: writing a chunk that is not empty and not too
  large succeeds and adds it to the chunks the sink below holds.
\<close>

locale sink_contract =
  fixes wr :: "'k writer" and holds :: "string list \<Rightarrow> 'k \<Rightarrow> bool" and limit :: nat
  assumes wr_holds: "holds cs k \<Longrightarrow> d \<noteq> [] \<Longrightarrow> length d < limit \<Longrightarrow> \<exists>k'. wr d k = Inr k' \<and> holds (cs @ [d]) k'"
begin

definition sink_ok :: "'k BufferedSink \<Rightarrow> string \<Rightarrow> bool" where
  "sink_ok b t = (length (buffer b) < bufSize b \<and> bufSize b \<le> limit \<and>
     (\<exists>cs. holds cs (below b) \<and> t = concat cs @ buffer b))"

lemma flush_spec:
  assumes "sink_ok b t"
  shows "\<exists>b'. BufferedSink_flush wr b = Inr b' \<and> sink_ok b' t \<and> buffer b' = [] \<and> bufSize b' = bufSize b"
proof (cases "buffer b = []")
  case True
  with assms show ?thesis by (auto simp: BufferedSink_flush_def)
next
  case False
  from assms obtain cs where cs: "length (buffer b) < bufSize b" "bufSize b \<le> limit"
    "holds cs (below b)" "t = concat cs @ buffer b" by (auto simp: sink_ok_def)
  then obtain k where k: "wr (buffer b) (below b) = Inr k" "holds (cs @ [buffer b]) k"
    using wr_holds [OF cs(3) False] by auto
  have "sink_ok (b\<lparr>buffer := [], below := k\<rparr>) t"
    using cs k(2) unfolding sink_ok_def by (auto intro!: exI [of _ "cs @ [buffer b]"])
  with k(1) False show ?thesis by (simp add: BufferedSink_flush_def)
qed

lemma write_spec:
  assumes "sink_ok b t" "length d < limit"
  shows "\<exists>b'. BufferedSink_write wr d b = Inr b' \<and> sink_ok b' (t @ d) \<and> bufSize b' = bufSize b"
proof (cases "d = [] \<or> length d < bufSize b - length (buffer b)")
  case True
  then show ?thesis
    using assms by (auto simp: BufferedSink_write.simps sink_ok_def Let_def)
next
  case False
  obtain b1 where b1: "BufferedSink_flush wr b = Inr b1" "sink_ok b1 t" "buffer b1 = []"
    "bufSize b1 = bufSize b" using flush_spec [OF assms(1)] by blast
  then obtain cs where cs: "holds cs (below b1)" "t = concat cs" "0 < bufSize b1" "bufSize b1 \<le> limit"
    by (auto simp: sink_ok_def)
  obtain k where k: "wr d (below b1) = Inr k" "holds (cs @ [d]) k"
    using wr_holds [OF cs(1) _ assms(2)] False by auto
  have "sink_ok (b1\<lparr>below := k\<rparr>) (t @ d)"
    using cs k(2) b1(3) unfolding sink_ok_def by (auto intro!: exI [of _ "cs @ [d]"])
  with k(1) b1 False show ?thesis by (subst BufferedSink_write.simps) simp
qed

theorem writes_spec:
  "sink_ok b t \<Longrightarrow> list_all (\<lambda>d. length d < limit) ds \<Longrightarrow>
   \<exists>b'. fold_res (BufferedSink_write wr) ds b = Inr b' \<and> sink_ok b' (t @ concat ds)"
proof (induction ds arbitrary: b t)
  case (Cons d ds)
  then obtain b1 where b1: "BufferedSink_write wr d b = Inr b1" "sink_ok b1 (t @ d)"
    using write_spec [of b t d] by auto
  from Cons.IH [OF b1(2)] Cons.prems(2) b1(1) show ?case by simp
qed simp

end

interpretation framed_sink: sink_contract "FramedSink_writeUnbuffered (\<lambda>_. Inr ())"
    "\<lambda>cs k. k = concat (map (\<lambda>d. writeNum (of_nat (length d)) @ d) cs) \<and>
       list_all (\<lambda>d. d \<noteq> [] \<and> length d < 2 ^ 32) cs" "2 ^ 32"
  by unfold_locales (auto simp: FramedSink_writeUnbuffered_def)

interpretation string_sink: sink_contract StringSink_write "\<lambda>cs k. k = concat cs" "2 ^ 64"
  by unfold_locales (auto simp: StringSink_write_def)

section \<open>Alignment\<close>

lemma and_not_mask_eq: "w AND NOT (mask k) = push_bit k (drop_bit k (w :: 'a::len word))"
  by (rule bit_word_eqI) (auto simp: bit_and_iff bit_not_iff bit_mask_iff bit_push_bit_iff bit_drop_bit_eq)

lemma unat_and_not_mask: "unat (w AND NOT (mask k) :: u64) = unat w div 2 ^ k * 2 ^ k"
proof -
  have "unat w < 2 ^ 64" using unsigned_less [of w, where ?'a = nat] by simp
  moreover have "unat w div 2 ^ k * 2 ^ k \<le> unat w" by simp
  ultimately have "unat w div 2 ^ k * 2 ^ k < 2 ^ 64" by linarith
  moreover have "unat (push_bit k (drop_bit k w)) = take_bit LENGTH(64) (push_bit k (unat (drop_bit k w)))"
    by (rule unsigned_push_bit_eq)
  moreover have "unat (drop_bit k w) = unat w div 2 ^ k"
    unfolding unat_drop_bit_eq by (rule drop_bit_eq_div)
  ultimately show ?thesis
    unfolding and_not_mask_eq by (simp only: push_bit_eq_mult) (simp add: take_bit_nat_eq_self)
qed

section \<open>Properties\<close>

text \<open>The string format is canonical: \<open>readString\<close> succeeds on exactly what \<open>writeString\<close> wrote
  (for strings within the bound), whatever follows, and gives the string back; the same holds for
  lists of strings.\<close>

theorem readString_canonical:
  "(readString mx s = Inr (x, r)) = (length x \<le> mx \<and> length x < 2 ^ 64 \<and> s = writeString x @ r) \<and>
   (readStrings s = Inr (xs, r)) =
     (length xs < 2 ^ 64 \<and> list_all (\<lambda>x. length x < 2 ^ 64) xs \<and> s = writeStrings xs @ r)"
  using str.dec_iff [of mx s x r] strs.dec_iff [of s xs r] by auto

text \<open>An error that is written to a connection is read back unchanged.\<close>

theorem readError_writeError:
  assumes "level info \<le> uint_max" "length (msg info) < 2 ^ 64" "length (traces info) < 2 ^ 64"
    and "list_all (\<lambda>t. length t < 2 ^ 64) (traces info)"
  shows "readError (writeError info @ s) = Inr (info, s)"
proof -
  have str: "length x < 2 ^ 64 \<Longrightarrow> readString no_max (writeString x @ t) = Inr (x, t)" for x t
    by (rule str.dec_enc) (simp add: no_max_def)
  have n: "readNum m (writeNum k @ t) = Inr (k, t)" if "k \<le> m" for m k t
    using that by (rule num.dec_enc)
  have ts: "read_times readTrace (unat (of_nat (length (traces info)) :: u64))
      (concat (map (\<lambda>t. writeNum 0 @ writeString t) (traces info)) @ s) = Inr (traces info, s)"
    using trace.many [OF assms(4), of s] assms(3) by (simp add: unat_of_nat)
  show ?thesis
    using assms(1,2) ts
    by (simp add: readError_def writeError_def str n readInt_def readPos_def del: append.simps)
qed

theorem readError_writeError_witness:
  "readError (writeError \<lparr>level = 0, msg = ''build failed'', traces = [''while evaluating'']\<rparr> @ ''x'') =
   Inr (\<lparr>level = 0, msg = ''build failed'', traces = [''while evaluating'']\<rparr>, ''x'')"
  by (rule readError_writeError) simp_all



text \<open>Reading from two chained sources is reading from the concatenation of what they still hold:
  \<open>Source::operator()\<close> returns, with the requested bytes or with \<open>EndOfFile\<close>.\<close>

theorem chain_reads_concatenation:
  "(length a + length b \<ge> len \<longrightarrow>
     (\<exists>c. read_exact (ChainSource_read StringSource_read StringSource_read) len
        \<lparr>source1 = \<lparr>src = a, pos = 0\<rparr>, source2 = \<lparr>src = b, pos = 0\<rparr>, useSecond = False\<rparr> =
      Some (Inr (take len (a @ b), c)))) \<and>
   (length a + length b < len \<longrightarrow>
     (\<exists>m. read_exact (ChainSource_read StringSource_read StringSource_read) len
        \<lparr>source1 = \<lparr>src = a, pos = 0\<rparr>, source2 = \<lparr>src = b, pos = 0\<rparr>, useSecond = False\<rparr> =
      Some (Inl (NixError EndOfFile m))))"
proof -
  let ?c = "\<lparr>source1 = \<lparr>src = a, pos = 0\<rparr>, source2 = \<lparr>src = b, pos = 0\<rparr>, useSecond = False\<rparr>"
  have "string_chain.chain_ok ?c" "string_chain.chain_content ?c = a @ b"
    by (simp_all add: string_chain.chain_ok_def string_chain.chain_content_def StringSource_ok_def StringSource_content_def)
  with string_chain.chain.read_loop_spec [of ?c len "[]"] show ?thesis by (auto simp: read_exact_def)
qed

theorem chain_reads_concatenation_witness:
  "\<exists>c. read_exact (ChainSource_read StringSource_read StringSource_read) 3
        \<lparr>source1 = \<lparr>src = ''ab'', pos = 0\<rparr>, source2 = \<lparr>src = ''cd'', pos = 0\<rparr>, useSecond = False\<rparr> =
      Some (Inr (take 3 (''ab'' @ ''cd''), c))"
  by (rule chain_reads_concatenation [THEN conjunct1, THEN mp]) simp

lemma round_up_nat:
  fixes v d :: nat
  assumes "0 < d"
  shows "v \<le> (v + (d - 1)) div d * d \<and> (v + (d - 1)) div d * d < v + d"
proof -
  have "(v + (d - 1)) div d * d + (v + (d - 1)) mod d = v + (d - 1)" by (rule div_mult_mod_eq)
  moreover have "(v + (d - 1)) mod d < d" using assms by simp
  ultimately show ?thesis using assms by linarith
qed

lemma word_mask_unat: "k \<le> LENGTH('a :: len) \<Longrightarrow> unat (mask k :: 'a word) = 2 ^ k - 1"
proof -
  assume k: "k \<le> LENGTH('a)"
  have "unat (mask k :: 'a word) = mask k"
    using k by (intro bit_eqI) (auto simp: bit_unsigned_iff bit_mask_iff)
  then show ?thesis by (simp add: mask_eq_exp_minus_1)
qed

lemma alignUp_spec:
  assumes "k < 32"
  shows "(unat val + 2 ^ k \<le> 2 ^ 64 \<longrightarrow>
      (\<exists>r. alignUp val (2 ^ k) = Inr r \<and> 2 ^ k dvd unat r \<and> unat val \<le> unat r \<and> unat r < unat val + 2 ^ k)) \<and>
    (2 ^ 64 < unat val + 2 ^ k \<longrightarrow> (\<exists>e. alignUp val (2 ^ k) = Inl e))"
proof -
  have a: "(ucast (push_bit k 1 :: u32) :: u64) - 1 = mask k"
  proof -
    have "(ucast (push_bit k 1 :: u32) :: u64) = push_bit k 1"
      using assms by (intro bit_word_eqI) (auto simp: bit_ucast_iff bit_push_bit_iff bit_1_iff bit_exp_iff simp del: push_bit_of_1)
    then show ?thesis by (simp add: mask_eq_decr_exp push_bit_eq_mult)
  qed
  have m: "unat (mask k :: u64) = 2 ^ k - 1"
    using assms by (simp add: word_mask_unat)
  have val: "unat val < 2 ^ 64" using unsigned_less [of val, where ?'a = nat] by simp
  have k: "(2 :: nat) ^ k \<le> 2 ^ 31" using assms by (intro power_increasing) auto
  have p: "\<exists>j < 32. (push_bit k 1 :: u32) = push_bit j 1" using assms by blast
  have big: "unat (size_max - mask k) = 2 ^ 64 - 2 ^ k"
  proof -
    have "unat (size_max - mask k) = unat size_max - unat (mask k :: u64)"
      by (rule unat_sub) simp
    moreover have "unat size_max = 2 ^ 64 - 1"
      unfolding size_max_def by (simp add: unsigned_minus_1_eq_mask mask_eq_exp_minus_1)
    ultimately show ?thesis using m k by simp
  qed
  have eq: "alignUp val (2 ^ k) =
      (if val > size_max - mask k then Inl (NixError Error ''can't align %d to %d: value is too large'')
       else Inr ((val + mask k) AND NOT (mask k)))"
    using p a by (simp add: alignUp_def Let_def add_diff_eq [symmetric] del: Word.ucast_bintr)
  have cond: "(val > size_max - mask k) = (2 ^ 64 < unat val + 2 ^ k)"
    unfolding word_less_nat_alt big using k val by auto
  show ?thesis
  proof (intro conjI impI)
    assume le: "unat val + 2 ^ k \<le> 2 ^ 64"
    let ?x = "unat val + (2 ^ k - 1)"
    have x: "unat (val + mask k) = ?x"
      using le m k by (subst unat_word_ariths) simp
    show "\<exists>r. alignUp val (2 ^ k) = Inr r \<and> 2 ^ k dvd unat r \<and> unat val \<le> unat r \<and> unat r < unat val + 2 ^ k"
      unfolding eq using le cond m k round_up_nat [of "2 ^ k" "unat val"]
      by (intro exI [of _ "(val + mask k) AND NOT (mask k)"]) (simp add: unat_and_not_mask x)
  next
    assume "2 ^ 64 < unat val + 2 ^ k"
    then show "\<exists>e. alignUp val (2 ^ k) = Inl e" using cond by (simp add: eq)
  qed
qed

text \<open>C31: \<open>alignUp\<close> with an alignment \<open>2^k\<close> gives the least multiple of it that is not below the value,
  or throws when that multiple cannot be guaranteed to fit 64 bits; it never wraps around.\<close>

theorem alignUp_bounds:
  assumes "k < 32"
  shows "(unat val + 2 ^ k \<le> 2 ^ 64 \<longrightarrow>
      (\<exists>r. alignUp val (2 ^ k) = Inr r \<and> 2 ^ k dvd unat r \<and> unat val \<le> unat r \<and> unat r < unat val + 2 ^ k)) \<and>
    (2 ^ 64 < unat val + 2 ^ k \<longrightarrow> (\<exists>e. alignUp val (2 ^ k) = Inl e))"
  using alignUp_spec [OF assms] .

theorem alignUp_bounds_witness:
  "\<exists>r. alignUp 13 (2 ^ 3) = Inr r \<and> 2 ^ 3 dvd unat r \<and> unat (13 :: u64) \<le> unat r \<and> unat r < unat (13 :: u64) + 2 ^ 3"
  by (rule alignUp_bounds [of 3 13, THEN conjunct1, THEN mp]) simp_all

end
