(* ===== verification/Std_Map.thy ===== *)
theory Std_Map
  imports Prelude
begin

text \<open>
  \<open>std::map\<close> and \<open>std::set\<close> as the ordered association list its iterators walk: \<open>map_put\<close> is
  \<open>insert_or_assign\<close> (and \<open>operator[]\<close> followed by an assignment), \<open>map_emplace\<close> is \<open>emplace\<close> /
  \<open>insert\<close>, which keeps an existing entry and reports whether it inserted, \<open>map_of\<close> is \<open>find\<close>.
  A set is a sorted list without repetitions (\<open>set_put\<close>).
\<close>

fun map_put :: "'k :: linorder \<Rightarrow> 'v \<Rightarrow> ('k \<times> 'v) list \<Rightarrow> ('k \<times> 'v) list" where
  "map_put k v [] = [(k, v)]"
| "map_put k v ((k', v') # m) =
     (if k < k' then (k, v) # (k', v') # m
      else if k = k' then (k, v) # m
      else (k', v') # map_put k v m)"

definition map_emplace :: "'k :: linorder \<Rightarrow> 'v \<Rightarrow> ('k \<times> 'v) list \<Rightarrow> ('k \<times> 'v) list \<times> bool" where
  "map_emplace k v m = (if map_of m k = None then (map_put k v m, True) else (m, False))"

fun map_erase :: "'k \<Rightarrow> ('k \<times> 'v) list \<Rightarrow> ('k \<times> 'v) list" where
  "map_erase k [] = []"
| "map_erase k ((k', v') # m) = (if k = k' then map_erase k m else (k', v') # map_erase k m)"

fun set_put :: "'k :: linorder \<Rightarrow> 'k list \<Rightarrow> 'k list" where
  "set_put x [] = [x]"
| "set_put x (y # ys) = (if x < y then x # y # ys else if x = y then y # ys else y # set_put x ys)"

text \<open>The representation invariant.\<close>

definition ordered :: "('k :: linorder \<times> 'v) list \<Rightarrow> bool" where
  "ordered m = sorted_wrt (<) (map fst m)"

lemma ordered_simps [simp]:
  "ordered []"
  "ordered ((k, v) # m) = ((\<forall>k' \<in> fst ` set m. k < k') \<and> ordered m)"
  by (auto simp: ordered_def)

lemma fst_map_put [simp]: "fst ` set (map_put k v m) = insert k (fst ` set m)"
  by (induction k v m rule: map_put.induct) auto

lemma ordered_map_put [simp]: "ordered m \<Longrightarrow> ordered (map_put k v m)"
  by (induction k v m rule: map_put.induct) (auto simp del: fst_map_put simp: fst_map_put [unfolded image_iff Bex_def])

lemma map_of_map_put [simp]: "map_of (map_put k v m) = (map_of m)(k \<mapsto> v)"
  by (induction k v m rule: map_put.induct) (auto simp: fun_eq_iff)

lemma map_put_last: "\<forall>k' \<in> fst ` set m. k' < k \<Longrightarrow> map_put k v m = m @ [(k, v)]"
  by (induction k v m rule: map_put.induct) auto

lemma ordered_snoc: "ordered (m @ [(k, v)]) = (ordered m \<and> (\<forall>k' \<in> fst ` set m. k' < k))"
  by (auto simp: ordered_def sorted_wrt_append)

lemma ordered_distinct: "ordered m \<Longrightarrow> distinct (map fst m)"
  unfolding ordered_def by (simp add: strict_sorted_iff)

lemma ordered_map_values: "ordered (map (\<lambda>(k, v). (k, f k v)) m) = ordered m"
  by (simp add: ordered_def comp_def case_prod_unfold)

lemma fold_map_put:
  "ordered (m @ es) \<Longrightarrow> fold (\<lambda>(k, v). map_put k (f v)) es (map (\<lambda>(k, v). (k, f v)) m) = map (\<lambda>(k, v). (k, f v)) (m @ es)"
proof (induction es arbitrary: m)
  case (Cons e es)
  obtain k v where e: "e = (k, v)" by (cases e)
  have "\<forall>k' \<in> fst ` set (map (\<lambda>(k, v). (k, f v)) m). k' < k"
    using Cons.prems unfolding e by (auto simp: ordered_def sorted_wrt_append)
  then have "map_put k (f v) (map (\<lambda>(k, v). (k, f v)) m) = map (\<lambda>(k, v). (k, f v)) (m @ [e])"
    by (simp add: map_put_last e)
  with Cons.IH [of "m @ [e]"] Cons.prems e show ?case by simp
qed simp

lemma map_put_twice [simp]: "map_put k v (map_put k w m) = map_put k v m"
  by (induction k w m rule: map_put.induct) auto

lemma ordered_filter: "ordered m \<Longrightarrow> ordered (filter P m)"
  by (induction m) auto

lemma map_of_map_erase [simp]: "map_of (map_erase k m) = (map_of m)(k := None)"
  by (induction m rule: map_erase.induct) (auto simp: fun_eq_iff)

lemma ordered_map_erase: "ordered m \<Longrightarrow> ordered (map_erase k m)"
proof -
  have "map_erase k m = filter (\<lambda>e. fst e \<noteq> k) m" by (induction k m rule: map_erase.induct) auto
  then show "ordered m \<Longrightarrow> ordered (map_erase k m)" by (simp add: ordered_filter)
qed

lemma map_of_nth_fst: "distinct (map fst m) \<Longrightarrow> i < length m \<Longrightarrow> map_of m (fst (m ! i)) = Some (snd (m ! i))"
  by (metis map_of_eq_Some_iff nth_mem prod.collapse)

lemma list_of_map: "distinct (map fst m) \<Longrightarrow> map (\<lambda>k. (k, the (map_of m k))) (map fst m) = m"
  by (rule nth_equalityI) (auto simp: map_of_nth_fst)

text \<open>Two ordered lists with the same lookups are equal: the order makes the representation unique.\<close>

lemma ordered_unique:
  assumes "ordered m" "ordered m'" "map_of m = map_of m'"
  shows "m = m'"
proof -
  have d: "distinct (map fst m)" "distinct (map fst m')" using assms ordered_distinct by auto
  with assms(3) have s: "set m = set m'" by (metis map_of_inject_set)
  then have k: "map fst m = map fst m'"
    using assms(1,2) unfolding ordered_def by (intro strict_sorted_equal) auto
  with list_of_map [OF d(1)] list_of_map [OF d(2)] assms(3) show ?thesis by simp
qed

lemma set_set_put [simp]: "set (set_put x xs) = insert x (set xs)"
  by (induction x xs rule: set_put.induct) auto

lemma sorted_set_put [simp]: "sorted_wrt (<) xs \<Longrightarrow> sorted_wrt (<) (set_put x xs)"
  by (induction x xs rule: set_put.induct) auto

end
