(* ===== verification/Source_Accessor.thy ===== *)
theory Source_Accessor
  imports Canon_Path Serialise Std_Map
begin

text \<open>
  File system objects, source accessors and file system object sinks:
  \<open>source-accessor.hh\<close>, \<open>source-accessor.cc\<close>, \<open>memory-source-accessor.hh\<close>,
  \<open>memory-source-accessor.cc\<close>, \<open>fs-sink.hh\<close> and \<open>fs-sink.cc\<close> of \<open>src/src/libutil\<close>.

  A \<open>SourceAccessor\<close> is the record of its virtual functions, a \<open>FileSystemObjectSink\<close> the record of
  its operations on a state \<open>'s\<close>. \<open>MemorySourceAccessor\<close> is its root file; the pointer that \<open>open\<close>
  returns is the path it was given, so writing through the pointer is \<open>upd_at\<close>. The state that an
  operation leaves behind when it throws is not kept.
\<close>

section \<open>File system objects\<close>

datatype File =
    Regular bool string                \<comment> \<open>executable, contents\<close>
  | Directory "(string \<times> File) list"   \<comment> \<open>entries: a \<open>std::map\<close>\<close>
  | Symlink string                     \<comment> \<open>target\<close>

datatype Type = tRegular | tSymlink | tDirectory | tChar | tBlock | tSocket | tFifo | tUnknown

record Stat =
  stat_type :: Type
  fileSize :: "u64 option"
  isExecutable :: bool

definition isNotNARSerialisable :: "Stat \<Rightarrow> bool" where
  "isNotNARSerialisable st = (stat_type st \<noteq> tRegular \<and> stat_type st \<noteq> tSymlink \<and> stat_type st \<noteq> tDirectory)"

fun typeString :: "Type \<Rightarrow> string" where
  "typeString tRegular = ''regular''"
| "typeString tSymlink = ''symlink''"
| "typeString tDirectory = ''directory''"
| "typeString tChar = ''character device''"
| "typeString tBlock = ''block device''"
| "typeString tSocket = ''socket''"
| "typeString tFifo = ''fifo''"
| "typeString tUnknown = ''unknown''"

fun file_lstat :: "File \<Rightarrow> Stat" where
  "file_lstat (Regular x c) = \<lparr>stat_type = tRegular, fileSize = Some (of_nat (length c)), isExecutable = x\<rparr>"
| "file_lstat (Directory es) = \<lparr>stat_type = tDirectory, fileSize = None, isExecutable = False\<rparr>"
| "file_lstat (Symlink t) = \<lparr>stat_type = tSymlink, fileSize = None, isExecutable = False\<rparr>"

section \<open>The accessor interface\<close>

text \<open>\<open>readFile\<close> calls the size callback with the first component before it writes the second.\<close>

record SourceAccessor =
  maybeLstat :: "CanonPath \<Rightarrow> Stat option res"
  readFile :: "CanonPath \<Rightarrow> (u64 \<times> string) res"
  readDirectory :: "CanonPath \<Rightarrow> (string \<times> Type option) list res"
  readLink :: "CanonPath \<Rightarrow> string res"

definition lstat :: "SourceAccessor \<Rightarrow> CanonPath \<Rightarrow> Stat res" where
  "lstat acc p =
     bind_res (maybeLstat acc p) (\<lambda>st.
       case st of Some s \<Rightarrow> Inr s | None \<Rightarrow> Inl (NixError FileNotFound ''path '%s' does not exist.''))"

definition readFile_string :: "SourceAccessor \<Rightarrow> CanonPath \<Rightarrow> string res" where
  "readFile_string acc p =
     bind_res (readFile acc p) (\<lambda>(size, s). bind_res (assert_res (size = of_nat (length s))) (\<lambda>_. Inr s))"

text \<open>\<open>SourceAccessor::resolveSymlinks\<close>: \<open>todo\<close> and \<open>linksAllowed\<close> are its local variables.\<close>

datatype SymlinkResolution = Ancestors | Full

function resolve_loop :: "SourceAccessor \<Rightarrow> SymlinkResolution \<Rightarrow> nat \<Rightarrow> string list \<Rightarrow> CanonPath \<Rightarrow> CanonPath res" where
  "resolve_loop acc mode linksAllowed [] res = Inr res"
| "resolve_loop acc mode linksAllowed (c # todo) res =
     (if c = [] \<or> c = ''.'' then resolve_loop acc mode linksAllowed todo res
      else if c = ''..'' then
        (if \<not> isRoot res
         then bind_res (pop res) (\<lambda>res1. resolve_loop acc mode linksAllowed todo res1)
         else resolve_loop acc mode linksAllowed todo res)
      else
        bind_res (push res c) (\<lambda>res1.
          if mode = Full \<or> todo \<noteq> [] then
            bind_res (maybeLstat acc res1) (\<lambda>st.
              if st \<noteq> None \<and> stat_type (the st) = tSymlink then
                (if linksAllowed = 0
                 then Inl (NixError Error ''infinite symlink recursion in path '%s'.'')
                 else
                   bind_res (readLink acc res1) (\<lambda>target.
                   bind_res (if is_absolute target then Inr root else pop res1) (\<lambda>res2.
                     resolve_loop acc mode (linksAllowed - 1) (tokenizeString target [slash] @ todo) res2)))
              else resolve_loop acc mode linksAllowed todo res1)
          else resolve_loop acc mode linksAllowed todo res1))"
  by pat_completeness auto
termination
  by (relation "measures [\<lambda>(acc, mode, n, todo, res). n, \<lambda>(acc, mode, n, todo, res). length todo]") auto

definition resolveSymlinks :: "SourceAccessor \<Rightarrow> CanonPath \<Rightarrow> SymlinkResolution \<Rightarrow> CanonPath res" where
  "resolveSymlinks acc path mode = resolve_loop acc mode 1024 (path_elems path) root"

section \<open>The sink interface\<close>

text \<open>
  \<open>createRegularFile\<close> opens the file; what its callback does to the \<open>CreateRegularFileSink\<close> are the
  three \<open>crf\<close> operations on the same path. \<open>crf_skipContents\<close> is the flag of that sink.
\<close>

record 's FSSink =
  createDirectory :: "CanonPath \<Rightarrow> 's \<Rightarrow> 's res"
  createRegularFile :: "CanonPath \<Rightarrow> 's \<Rightarrow> 's res"
  crf_isExecutable :: "CanonPath \<Rightarrow> 's \<Rightarrow> 's res"
  crf_preallocateContents :: "CanonPath \<Rightarrow> u64 \<Rightarrow> 's \<Rightarrow> 's res"
  crf_write :: "CanonPath \<Rightarrow> string \<Rightarrow> 's \<Rightarrow> 's res"
  crf_skipContents :: bool
  createSymlink :: "CanonPath \<Rightarrow> string \<Rightarrow> 's \<Rightarrow> 's res"

definition NullFileSystemObjectSink :: "'s FSSink" where
  "NullFileSystemObjectSink =
     \<lparr>createDirectory = (\<lambda>p s. Inr s), createRegularFile = (\<lambda>p s. Inr s), crf_isExecutable = (\<lambda>p s. Inr s),
      crf_preallocateContents = (\<lambda>p n s. Inr s), crf_write = (\<lambda>p d s. Inr s), crf_skipContents = True,
      createSymlink = (\<lambda>p t s. Inr s)\<rparr>"

text \<open>\<open>RegularFileSink\<close> over a string: the contents received and the flag \<open>regular\<close>.\<close>

definition RegularFileSink :: "(string \<times> bool) FSSink" where
  "RegularFileSink =
     \<lparr>createDirectory = (\<lambda>p s. Inr (fst s, False)), createRegularFile = (\<lambda>p s. Inr s), crf_isExecutable = (\<lambda>p s. Inr s),
      crf_preallocateContents = (\<lambda>p n s. Inr s), crf_write = (\<lambda>p d s. Inr (fst s @ d, snd s)), crf_skipContents = False,
      createSymlink = (\<lambda>p t s. Inr (fst s, False))\<rparr>"

section \<open>\<open>MemorySourceAccessor\<close>\<close>

type_synonym Memory = "File option"

fun get_at :: "string list \<Rightarrow> File \<Rightarrow> File option" where
  "get_at [] f = Some f"
| "get_at (n # ns) (Directory es) = (case map_of es n of Some g \<Rightarrow> get_at ns g | None \<Rightarrow> None)"
| "get_at (n # ns) f = None"

fun upd_at :: "string list \<Rightarrow> (File \<Rightarrow> File) \<Rightarrow> File \<Rightarrow> File" where
  "upd_at [] u f = u f"
| "upd_at (n # ns) u (Directory es) =
     (case map_of es n of Some g \<Rightarrow> Directory (map_put n (upd_at ns u g) es) | None \<Rightarrow> Directory es)"
| "upd_at (n # ns) u f = f"

text \<open>The loop of \<open>open\<close>: the file at the current position, updated, and whether the pointer is not
  null. \<open>newF\<close> says that the file was created by this call.\<close>

fun open_loop :: "File option \<Rightarrow> string list \<Rightarrow> bool \<Rightarrow> File \<Rightarrow> (File \<times> bool) res" where
  "open_loop create [] newF cur =
     Inr (if newF \<and> create \<noteq> None then (the create, True) else (cur, True))"
| "open_loop create (name # ns) newF cur =
     (case cur of
        Directory es \<Rightarrow>
          (case map_of es name of
             Some f \<Rightarrow> bind_res (open_loop create ns newF f) (\<lambda>(f', ok). Inr (Directory (map_put name f' es), ok))
           | None \<Rightarrow>
               if create = None then Inr (cur, False)
               else bind_res (open_loop create ns True (Directory []))
                      (\<lambda>(f', ok). Inr (Directory (map_put name f' es), ok)))
      | Symlink t \<Rightarrow> Inl (NixError SymlinkNotAllowed ''file '%s' is a symlink'')
      | Regular x c \<Rightarrow>
          if create \<noteq> None then Inl (NixError NotADirectory ''file '%s' is not a directory'')
          else Inr (cur, False))"

definition mem_open :: "CanonPath \<Rightarrow> File option \<Rightarrow> Memory \<Rightarrow> (Memory \<times> bool) res" where
  "mem_open p create st =
     (case st of
        None \<Rightarrow> if isRoot p \<and> create \<noteq> None then Inr (create, True) else Inr (None, False)
      | Some f \<Rightarrow> bind_res (open_loop create (path_elems p) False f) (\<lambda>(f', ok). Inr (Some f', ok)))"

text \<open>Following the pointer that \<open>open(path, std::nullopt)\<close> returned.\<close>

definition mem_get :: "Memory \<Rightarrow> CanonPath \<Rightarrow> File option res" where
  "mem_get st p =
     bind_res (mem_open p None st) (\<lambda>(st', ok).
       Inr (if ok then Option.bind st' (get_at (path_elems p)) else None))"

definition mem_maybeLstat :: "Memory \<Rightarrow> CanonPath \<Rightarrow> Stat option res" where
  "mem_maybeLstat st p = bind_res (mem_get st p) (\<lambda>f. Inr (map_option file_lstat f))"

definition mem_readFile :: "Memory \<Rightarrow> CanonPath \<Rightarrow> (u64 \<times> string) res" where
  "mem_readFile st p =
     bind_res (mem_get st p) (\<lambda>f. case f of
       None \<Rightarrow> Inl (NixError FileNotFound ''file '%s' does not exist.'')
     | Some (Regular x c) \<Rightarrow> Inr (of_nat (length c), c)
     | Some (Directory es) \<Rightarrow> Inl (NixError NotARegularFile ''file '%s' is not a regular file'')
     | Some (Symlink t) \<Rightarrow> Inl (NixError SymlinkNotAllowed ''file '%s' is a symlink''))"

definition mem_readDirectory :: "Memory \<Rightarrow> CanonPath \<Rightarrow> (string \<times> Type option) list res" where
  "mem_readDirectory st p =
     bind_res (mem_get st p) (\<lambda>f. case f of
       None \<Rightarrow> Inl (NixError FileNotFound ''file '%s' does not exist.'')
     | Some (Directory es) \<Rightarrow>
         Inr (fold (\<lambda>(n, g) res. map_put n (Some (stat_type (file_lstat g))) res) es [])
     | Some (Regular x c) \<Rightarrow> Inl (NixError NotADirectory ''file '%s' is not a directory'')
     | Some (Symlink t) \<Rightarrow> Inl (NixError SymlinkNotAllowed ''file '%s' is a symlink''))"

definition mem_readLink :: "Memory \<Rightarrow> CanonPath \<Rightarrow> string res" where
  "mem_readLink st p =
     bind_res (mem_get st p) (\<lambda>f. case f of
       None \<Rightarrow> Inl (NixError FileNotFound ''file '%s' does not exist.'')
     | Some (Symlink t) \<Rightarrow> Inr t
     | Some g \<Rightarrow> Inl (NixError NotASymlink ''file '%s' is not a symbolic link''))"

definition MemorySourceAccessor :: "Memory \<Rightarrow> SourceAccessor" where
  "MemorySourceAccessor st =
     \<lparr>maybeLstat = mem_maybeLstat st, readFile = mem_readFile st, readDirectory = mem_readDirectory st,
      readLink = mem_readLink st\<rparr>"

text \<open>\<open>addFile\<close> and the operations of \<open>MemorySink\<close>. A null pointer is an \<open>Error\<close>.\<close>

fun is_regular :: "File \<Rightarrow> bool" where
  "is_regular (Regular x c) = True" | "is_regular f = False"

fun is_directory :: "File \<Rightarrow> bool" where
  "is_directory (Directory es) = True" | "is_directory f = False"

fun is_symlink :: "File \<Rightarrow> bool" where
  "is_symlink (Symlink t) = True" | "is_symlink f = False"

definition open_as :: "File \<Rightarrow> (File \<Rightarrow> bool) \<Rightarrow> nix_error \<Rightarrow> CanonPath \<Rightarrow> Memory \<Rightarrow> Memory res" where
  "open_as create right_type wrong p st =
     bind_res (mem_open p (Some create) st) (\<lambda>(st', ok).
       if \<not> ok
       then Inl (NixError Error ''file '%s' cannot be created because some parent directories don't exist.'')
       else if right_type (the (Option.bind st' (get_at (path_elems p)))) then Inr st' else Inl wrong)"

definition mem_update :: "CanonPath \<Rightarrow> (File \<Rightarrow> File) \<Rightarrow> Memory \<Rightarrow> Memory" where
  "mem_update p u st = map_option (upd_at (path_elems p) u) st"

fun set_contents :: "string \<Rightarrow> File \<Rightarrow> File" where
  "set_contents d (Regular x c) = Regular x d" | "set_contents d f = f"

fun append_contents :: "string \<Rightarrow> File \<Rightarrow> File" where
  "append_contents d (Regular x c) = Regular x (c @ d)" | "append_contents d f = f"

fun set_executable :: "File \<Rightarrow> File" where
  "set_executable (Regular x c) = Regular True c" | "set_executable f = f"

fun set_target :: "string \<Rightarrow> File \<Rightarrow> File" where
  "set_target t (Symlink u) = Symlink t" | "set_target t f = f"

definition mem_createDirectory :: "CanonPath \<Rightarrow> Memory \<Rightarrow> Memory res" where
  "mem_createDirectory = open_as (Directory []) is_directory (NixError NotADirectory ''file '%s' is not a directory'')"

definition mem_createRegularFile :: "CanonPath \<Rightarrow> Memory \<Rightarrow> Memory res" where
  "mem_createRegularFile =
     open_as (Regular False []) is_regular (NixError NotARegularFile ''file '%s' is not a regular file'')"

definition mem_createSymlink :: "CanonPath \<Rightarrow> string \<Rightarrow> Memory \<Rightarrow> Memory res" where
  "mem_createSymlink p target st =
     bind_res (open_as (Symlink []) is_symlink (NixError NotASymlink ''file '%s' is not a symbolic link'') p st)
       (\<lambda>st'. Inr (mem_update p (set_target target) st'))"

definition mem_addFile :: "CanonPath \<Rightarrow> string \<Rightarrow> Memory \<Rightarrow> Memory res" where
  "mem_addFile p d st =
     bind_res
       (if st = None \<and> \<not> isRoot p
        then bind_res (mem_open root (Some (Directory [])) st) (\<lambda>(st', ok). Inr st') else Inr st)
       (\<lambda>st1. bind_res (mem_createRegularFile p st1) (\<lambda>st2. Inr (mem_update p (set_contents d) st2)))"

definition MemorySink :: "Memory FSSink" where
  "MemorySink =
     \<lparr>createDirectory = mem_createDirectory, createRegularFile = mem_createRegularFile,
      crf_isExecutable = (\<lambda>p st. Inr (mem_update p set_executable st)),
      crf_preallocateContents = (\<lambda>p n st. Inr st),
      crf_write = (\<lambda>p d st. Inr (mem_update p (append_contents d) st)),
      crf_skipContents = False,
      createSymlink = mem_createSymlink\<rparr>"

section \<open>Copying\<close>

text \<open>\<open>copyRecursive\<close>: the recursion follows the accessor, which may present an infinite tree, so
  \<open>fuel\<close> bounds the depth; \<open>None\<close> is running out of it.\<close>

fun copyRecursive :: "nat \<Rightarrow> SourceAccessor \<Rightarrow> CanonPath \<Rightarrow> 's FSSink \<Rightarrow> CanonPath \<Rightarrow> 's \<Rightarrow> 's res option" where
  "copyRecursive 0 acc frm sink dest s = None"
| "copyRecursive (Suc fuel) acc frm sink dest s =
     bind_ro (Some (lstat acc frm)) (\<lambda>st.
       case stat_type st of
         tSymlink \<Rightarrow> Some (bind_res (readLink acc frm) (\<lambda>t. createSymlink sink dest t s))
       | tRegular \<Rightarrow>
           Some (bind_res (createRegularFile sink dest s) (\<lambda>s1.
                 bind_res (if isExecutable st then crf_isExecutable sink dest s1 else Inr s1) (\<lambda>s2.
                 bind_res (readFile acc frm) (\<lambda>(size, d).
                 bind_res (crf_preallocateContents sink dest size s2) (\<lambda>s3.
                   crf_write sink dest d s3)))))
       | tDirectory \<Rightarrow>
           bind_ro (Some (createDirectory sink dest s)) (\<lambda>s1.
           bind_ro (Some (readDirectory acc frm)) (\<lambda>es.
             fold_ro (\<lambda>e s. bind_ro (Some (push frm (fst e))) (\<lambda>frm'.
                            bind_ro (Some (push dest (fst e))) (\<lambda>dest'.
                              copyRecursive fuel acc frm' sink dest' s))) es s1))
       | _ \<Rightarrow> Some (Inl (NixError Error ''file '%1%' has an unsupported type of %2%'')))"

section \<open>Trees and the places in them\<close>

fun put_at :: "string list \<Rightarrow> File \<Rightarrow> File \<Rightarrow> File" where
  "put_at [] f g = f"
| "put_at (n # ns) f (Directory es) =
     Directory (map_put n (case map_of es n of Some g \<Rightarrow> put_at ns f g | None \<Rightarrow> f) es)"
| "put_at (n # ns) f g = g"

text \<open>The path is not taken and its parent directory exists.\<close>

fun free_at :: "string list \<Rightarrow> File \<Rightarrow> bool" where
  "free_at [] g = False"
| "free_at (n # ns) (Directory es) = (case map_of es n of Some g \<Rightarrow> free_at ns g | None \<Rightarrow> ns = [])"
| "free_at (n # ns) g = False"

lemma open_loop_free: "free_at ns g \<Longrightarrow> open_loop (Some f) ns False g = Inr (put_at ns f g, True)"
  by (induction ns f g rule: put_at.induct) (auto split: option.splits)

lemma get_put_at: "free_at ns g \<Longrightarrow> get_at ns (put_at ns f g) = Some f"
  by (induction ns f g rule: put_at.induct) (auto split: option.splits)

lemma upd_put_at: "free_at ns g \<Longrightarrow> upd_at ns u (put_at ns f g) = put_at ns (u f) g"
  by (induction ns f g rule: put_at.induct) (auto split: option.splits)

lemma free_child_at:
  "free_at ns g \<Longrightarrow> free_at (ns @ [n]) (put_at ns (Directory es) g) = (map_of es n = None)"
  by (induction ns "Directory es" g rule: put_at.induct) (auto split: option.splits)

lemma put_child_at:
  "free_at ns g \<Longrightarrow> map_of es n = None \<Longrightarrow>
   put_at (ns @ [n]) f (put_at ns (Directory es) g) = put_at ns (Directory (map_put n f es)) g"
  by (induction ns "Directory es" g rule: put_at.induct) (auto split: option.splits)

lemma open_loop_get:
  "get_at ns g = Some f \<Longrightarrow> \<exists>g'. open_loop None ns b g = Inr (g', True) \<and> get_at ns g' = Some f"
proof (induction ns g arbitrary: b rule: get_at.induct)
  case (2 n ns es)
  then obtain g where g: "map_of es n = Some g" "get_at ns g = Some f" by (auto split: option.splits)
  with 2(1) [of g b] show ?case by auto
qed auto

definition put :: "string list \<Rightarrow> File \<Rightarrow> Memory \<Rightarrow> Memory" where
  "put ns f st = (case st of None \<Rightarrow> Some f | Some g \<Rightarrow> Some (put_at ns f g))"

definition free :: "string list \<Rightarrow> Memory \<Rightarrow> bool" where
  "free ns st = (case st of None \<Rightarrow> ns = [] | Some g \<Rightarrow> free_at ns g)"

text \<open>A file that a NAR can hold.\<close>

definition nar_name :: "string \<Rightarrow> bool" where
  "nar_name n = (valid_comp n \<and> length n \<le> 255)"

definition nar_target :: "string \<Rightarrow> bool" where
  "nar_target t = (t \<noteq> [] \<and> CHR 0x00 \<notin> set t \<and> length t \<le> 4095)"

lemma size_snd_entry [termination_simp]:
  "e \<in> set es \<Longrightarrow> size (snd e) < Suc (size_list (size_prod (\<lambda>s. 0) size) es)"
proof (induction es)
  case (Cons a es)
  then show ?case by (cases a) auto
qed simp

fun valid_file :: "File \<Rightarrow> bool" where
  "valid_file (Regular x c) = (length c < 2 ^ 64)"
| "valid_file (Symlink t) = nar_target t"
| "valid_file (Directory es) = (ordered es \<and> (\<forall>e \<in> set es. nar_name (fst e) \<and> valid_file (snd e)))"

text \<open>The depth of the tree is below \<open>n\<close>.\<close>

fun fits :: "nat \<Rightarrow> File \<Rightarrow> bool" where
  "fits 0 f = False"
| "fits (Suc n) (Directory es) = (\<forall>e \<in> set es. fits n (snd e))"
| "fits (Suc n) f = True"

section \<open>Contracts\<close>

text \<open>An accessor that presents the tree \<open>F\<close>.\<close>

locale tree_accessor =
  fixes acc :: SourceAccessor and F :: File
  assumes acc_lstat:
      "list_all valid_comp ns \<Longrightarrow> get_at ns F = Some f \<Longrightarrow> maybeLstat acc (of_comps ns) = Inr (Some (file_lstat f))"
    and acc_file:
      "list_all valid_comp ns \<Longrightarrow> get_at ns F = Some (Regular x c) \<Longrightarrow>
       readFile acc (of_comps ns) = Inr (of_nat (length c), c)"
    and acc_dir:
      "list_all valid_comp ns \<Longrightarrow> get_at ns F = Some (Directory es) \<Longrightarrow> ordered es \<Longrightarrow>
       readDirectory acc (of_comps ns) = Inr (map (\<lambda>(n, g). (n, Some (stat_type (file_lstat g)))) es)"
    and acc_link:
      "list_all valid_comp ns \<Longrightarrow> get_at ns F = Some (Symlink t) \<Longrightarrow> readLink acc (of_comps ns) = Inr t"

lemma mem_get_at:
  assumes "list_all valid_comp ns" "get_at ns F = Some f"
  shows "mem_get (Some F) (of_comps ns) = Inr (Some f)"
  using open_loop_get [OF assms(2), of False] valid_comp_ok [OF assms(1)]
  by (auto simp: mem_get_def mem_open_def)

interpretation mem: tree_accessor "MemorySourceAccessor (Some F)" F for F
proof (unfold_locales, goal_cases)
  case (3 ns es)
  then show ?case
    using fold_map_put [of "[]" es "\<lambda>g. Some (stat_type (file_lstat g))"]
    by (simp add: MemorySourceAccessor_def mem_readDirectory_def mem_get_at)
qed (simp_all add: MemorySourceAccessor_def mem_maybeLstat_def mem_readFile_def mem_readLink_def mem_get_at)

text \<open>
  A sink that builds a tree: in the state \<open>s\<close> the free place \<open>ns\<close> can be filled with a file, and the
  result is \<open>putf ns f s\<close>, whatever the order of the operations that fill it.
\<close>

locale tree_sink =
  fixes sink :: "'s FSSink" and putf :: "string list \<Rightarrow> File \<Rightarrow> 's \<Rightarrow> 's" and freef :: "string list \<Rightarrow> 's \<Rightarrow> bool"
  assumes snk_dir: "list_all valid_comp ns \<Longrightarrow> freef ns s \<Longrightarrow>
        createDirectory sink (of_comps ns) s = Inr (putf ns (Directory []) s)"
    and snk_file: "list_all valid_comp ns \<Longrightarrow> freef ns s \<Longrightarrow>
        createRegularFile sink (of_comps ns) s = Inr (putf ns (Regular False []) s)"
    and snk_exec: "list_all valid_comp ns \<Longrightarrow> freef ns s \<Longrightarrow>
        crf_isExecutable sink (of_comps ns) (putf ns (Regular x c) s) = Inr (putf ns (Regular True c) s)"
    and snk_prealloc: "list_all valid_comp ns \<Longrightarrow> freef ns s \<Longrightarrow>
        crf_preallocateContents sink (of_comps ns) z (putf ns (Regular x c) s) = Inr (putf ns (Regular x c) s)"
    and snk_write: "list_all valid_comp ns \<Longrightarrow> freef ns s \<Longrightarrow>
        crf_write sink (of_comps ns) d (putf ns (Regular x c) s) = Inr (putf ns (Regular x (c @ d)) s)"
    and snk_skip: "crf_skipContents sink \<Longrightarrow> putf ns (Regular x c) s = putf ns (Regular x []) s"
    and snk_link: "list_all valid_comp ns \<Longrightarrow> freef ns s \<Longrightarrow>
        createSymlink sink (of_comps ns) t s = Inr (putf ns (Symlink t) s)"
    and snk_free: "freef ns s \<Longrightarrow> map_of es n = None \<Longrightarrow> freef (ns @ [n]) (putf ns (Directory es) s)"
    and snk_child: "freef ns s \<Longrightarrow> map_of es n = None \<Longrightarrow>
        putf (ns @ [n]) f (putf ns (Directory es) s) = putf ns (Directory (map_put n f es)) s"

lemma open_as_free:
  assumes "list_all valid_comp ns" "free ns st" "ok f"
  shows "open_as f ok e (of_comps ns) st = Inr (put ns f st)"
  using assms valid_comp_ok [OF assms(1)]
  by (auto simp: open_as_def mem_open_def free_def put_def open_loop_free get_put_at split: option.splits)

lemma mem_update_put:
  assumes "list_all valid_comp ns" "free ns st"
  shows "mem_update (of_comps ns) u (put ns f st) = put ns (u f) st"
  using assms valid_comp_ok [OF assms(1)]
  by (auto simp: mem_update_def free_def put_def upd_put_at split: option.splits)

interpretation memsink: tree_sink MemorySink put free
proof (unfold_locales, goal_cases)
  case (8 ns s es n)
  then show ?case by (cases s) (auto simp: free_def put_def free_child_at)
next
  case (9 ns s es n f)
  then show ?case by (cases s) (auto simp: free_def put_def put_child_at)
qed (simp_all add: MemorySink_def mem_createDirectory_def mem_createRegularFile_def mem_createSymlink_def
    open_as_free mem_update_put)

interpretation nullsink: tree_sink NullFileSystemObjectSink "\<lambda>ns f s. s" "\<lambda>ns s. True"
  by unfold_locales (simp_all add: NullFileSystemObjectSink_def)

section \<open>Copies\<close>

locale tree_copy = tree_accessor acc F + tree_sink sink putf freef
  for acc F and sink :: "'s FSSink" and putf freef
begin

lemma copy_entries:
  assumes copy: "\<And>ns f ms s. list_all valid_comp ns \<Longrightarrow> list_all valid_comp ms \<Longrightarrow> get_at ns F = Some f \<Longrightarrow>
      valid_file f \<Longrightarrow> fits n f \<Longrightarrow> freef ms s \<Longrightarrow>
      copyRecursive n acc (of_comps ns) sink (of_comps ms) s = Some (Inr (putf ms f s))"
    and at: "list_all valid_comp ns" "list_all valid_comp ms" "get_at ns F = Some (Directory all)" "freef ms s"
      "valid_file (Directory all)" "fits (Suc n) (Directory all)" "all = dn @ es"
  shows "fold_ro (\<lambda>e s. bind_ro (Some (push (of_comps ns) (fst e))) (\<lambda>frm'.
            bind_ro (Some (push (of_comps ms) (fst e))) (\<lambda>dest'. copyRecursive n acc frm' sink dest' s)))
          (map (\<lambda>(n, g). (n, Some (stat_type (file_lstat g)))) es) (putf ms (Directory dn) s) =
        Some (Inr (putf ms (Directory all) s))"
  using at(7)
proof (induction es arbitrary: dn)
  case (Cons e es)
  obtain k g where e: "e = (k, g)" by (cases e)
  have in_all: "(k, g) \<in> set all" using Cons.prems e by simp
  then have g: "nar_name k" "valid_file g" "fits n g" using at(5,6) by force+
  have ord: "ordered (dn @ (k, g) # es)" using at(5) Cons.prems e by simp
  then have lt: "\<forall>k' \<in> fst ` set dn. k' < k" by (auto simp: ordered_def sorted_wrt_append)
  then have new: "map_of dn k = None" by (force simp: map_of_eq_None_iff)
  have "map_of all k = Some g" using in_all ordered_distinct [of all] at(5) by simp
  then have get: "get_at (ns @ [k]) F = Some g"
    using at(3) by (induction ns F rule: get_at.induct) (auto split: option.splits)
  have k: "valid_comp k" using g(1) by (simp add: nar_name_def)
  have "push (of_comps ns) k = Inr (of_comps (ns @ [k]))" "push (of_comps ms) k = Inr (of_comps (ms @ [k]))"
    using at(1,2) k by (simp_all add: push_of_comps valid_comp_ok)
  moreover have "copyRecursive n acc (of_comps (ns @ [k])) sink (of_comps (ms @ [k])) (putf ms (Directory dn) s) =
      Some (Inr (putf ms (Directory (dn @ [(k, g)])) s))"
    using copy [OF _ _ get g(2,3) snk_free [OF at(4) new]] at(1,2) k snk_child [OF at(4) new] map_put_last [OF lt]
    by simp
  ultimately show ?case using Cons.IH [of "dn @ [(k, g)]"] Cons.prems e by simp
qed (use at(7) in simp)

theorem copy_tree:
  "list_all valid_comp ns \<Longrightarrow> list_all valid_comp ms \<Longrightarrow> get_at ns F = Some f \<Longrightarrow> valid_file f \<Longrightarrow> fits n f \<Longrightarrow>
   freef ms s \<Longrightarrow> copyRecursive n acc (of_comps ns) sink (of_comps ms) s = Some (Inr (putf ms f s))"
proof (induction n arbitrary: ns f ms s)
  case (Suc n)
  note at = Suc.prems
  have l: "lstat acc (of_comps ns) = Inr (file_lstat f)" unfolding lstat_def acc_lstat [OF at(1,3)] by simp
  show ?case
  proof (cases f)
    case (Regular x c)
    with at(3) have r: "readFile acc (of_comps ns) = Inr (of_nat (length c), c)" using acc_file [OF at(1)] by blast
    have e: "(if x then crf_isExecutable sink (of_comps ms) (putf ms (Regular False []) s)
           else Inr (putf ms (Regular False []) s)) = Inr (putf ms (Regular x []) s)"
      by (simp add: snk_exec [OF at(2,6)])
    show ?thesis
      unfolding copyRecursive.simps l Regular file_lstat.simps bind_ro.simps Stat.simps Type.case r
        snk_file [OF at(2,6)] bind_res.simps prod.case e
      by (simp add: snk_prealloc [OF at(2,6)] snk_write [OF at(2,6)])
  next
    case (Symlink t)
    with at(3) have "readLink acc (of_comps ns) = Inr t" using acc_link [OF at(1)] by blast
    then show ?thesis by (simp add: l Symlink snk_link [OF at(2,6)])
  next
    case (Directory es)
    then have "ordered es" using at(4) by simp
    with at(3) Directory have rd: "readDirectory acc (of_comps ns) = Inr (map (\<lambda>(n, g). (n, Some (stat_type (file_lstat g)))) es)"
      using acc_dir [OF at(1)] by blast
    have g: "get_at ns F = Some (Directory es)" "valid_file (Directory es)" "fits (Suc n) (Directory es)"
      using at(3-5) Directory by simp_all
    show ?thesis
      unfolding copyRecursive.simps l Directory file_lstat.simps Stat.simps bind_ro.simps Type.case
        snk_dir [OF at(2,6)] rd
      by (intro copy_entries [OF Suc.IH at(1,2) g(1) at(6) g(2,3) append_Nil [symmetric]])
  qed
qed simp

end

interpretation mem_copy: tree_copy "MemorySourceAccessor (Some F)" F MemorySink put free for F ..

section \<open>Symbolic links\<close>

definition no_link :: "SourceAccessor \<Rightarrow> string list \<Rightarrow> bool" where
  "no_link acc cs = (\<forall>k \<in> {1..length cs}. \<forall>st. maybeLstat acc (of_comps (take k cs)) = Inr (Some st) \<longrightarrow>
     stat_type st \<noteq> tSymlink)"

lemma no_link_Nil [simp]: "no_link acc []" by (simp add: no_link_def)

lemma no_link_snoc:
  "no_link acc (cs @ [c]) =
     (no_link acc cs \<and> (\<forall>st. maybeLstat acc (of_comps (cs @ [c])) = Inr (Some st) \<longrightarrow> stat_type st \<noteq> tSymlink))"
proof -
  have "{1..length (cs @ [c])} = insert (length cs + 1) {1..length cs}" by auto
  moreover have "k \<in> {1..length cs} \<Longrightarrow> take k (cs @ [c]) = take k cs" for k by simp
  ultimately show ?thesis unfolding no_link_def by (simp only: ball_simps) auto
qed

lemma no_link_butlast: "no_link acc cs \<Longrightarrow> no_link acc (butlast cs)"
  by (cases cs rule: rev_cases) (simp_all add: no_link_snoc)

lemma push_Inr_valid:
  assumes "push p c = Inr q" "c \<noteq> []"
  shows "valid_comp c"
  using assms by (auto simp: push_def res_simps valid_comp_def comp_ok_def ensureNoNullBytes_def split: if_splits)

text \<open>The result of the loop, for a start that has no symbolic link in it.\<close>

definition resolved :: "SourceAccessor \<Rightarrow> SymlinkResolution \<Rightarrow> CanonPath \<Rightarrow> bool" where
  "resolved acc mode q = (\<exists>cs. q = of_comps cs \<and> list_all valid_comp cs \<and> no_link acc (butlast cs) \<and>
     (mode = Full \<longrightarrow> no_link acc cs))"

definition clean :: "SourceAccessor \<Rightarrow> CanonPath \<Rightarrow> bool" where
  "clean acc q = (\<exists>cs. q = of_comps cs \<and> list_all valid_comp cs \<and> no_link acc cs)"

lemma clean_root: "clean acc root"
  unfolding clean_def by (rule exI [of _ "[]"]) (simp add: root_of_comps)

lemma clean_pop: "clean acc p \<Longrightarrow> pop p = Inr q \<Longrightarrow> clean acc q"
proof -
  assume "clean acc p" "pop p = Inr q"
  then obtain cs where cs: "p = of_comps cs" "list_all valid_comp cs" "no_link acc cs" by (auto simp: clean_def)
  show ?thesis
  proof (cases "cs = []")
    case True
    with \<open>pop p = Inr q\<close> cs(1) show ?thesis by (simp add: pop_def res_simps)
  next
    case False
    with cs have "pop p = Inr (of_comps (butlast cs))" by (simp add: pop_of_comps valid_comp_ok)
    with \<open>pop p = Inr q\<close> have "q = of_comps (butlast cs)" by simp
    moreover have "list_all valid_comp (butlast cs)" using cs(2) by (auto simp: list_all_iff dest: in_set_butlastD)
    ultimately show ?thesis unfolding clean_def using no_link_butlast [OF cs(3)] by blast
  qed
qed

lemma clean_push:
  assumes "clean acc p" "push p c = Inr q" "c \<noteq> []"
  shows "\<exists>cs. p = of_comps cs \<and> list_all valid_comp cs \<and> no_link acc cs \<and> valid_comp c \<and> q = of_comps (cs @ [c])"
proof -
  obtain cs where cs: "p = of_comps cs" "list_all valid_comp cs" "no_link acc cs" using assms(1) by (auto simp: clean_def)
  moreover have "valid_comp c" using push_Inr_valid [OF assms(2,3)] .
  moreover have "q = of_comps (cs @ [c])" using assms(2) cs calculation(4) by (simp add: push_of_comps valid_comp_ok)
  ultimately show ?thesis by blast
qed

lemma clean_push_pop:
  assumes "clean acc p" "push p c = Inr q" "c \<noteq> []" "pop q = Inr r"
  shows "clean acc r"
proof -
  obtain cs where cs: "list_all valid_comp cs" "no_link acc cs" "valid_comp c" "q = of_comps (cs @ [c])"
    using clean_push [OF assms(1-3)] by blast
  then have "pop q = Inr (of_comps cs)" using pop_of_comps [of "cs @ [c]"] valid_comp_ok [of "cs @ [c]"] by simp
  with assms(4) cs show ?thesis unfolding clean_def by (metis sum.inject(2))
qed

lemma clean_push_file:
  assumes "clean acc p" "push p c = Inr q" "c \<noteq> []" "maybeLstat acc q = Inr st"
    "st = None \<or> stat_type (the st) \<noteq> tSymlink"
  shows "clean acc q"
proof -
  obtain cs where cs: "list_all valid_comp cs" "no_link acc cs" "valid_comp c" "q = of_comps (cs @ [c])"
    using clean_push [OF assms(1-3)] by blast
  then have "list_all valid_comp (cs @ [c])" "no_link acc (cs @ [c])" using assms(4,5) by (auto simp: no_link_snoc)
  with cs(4) show ?thesis unfolding clean_def by blast
qed

lemma clean_push_last:
  assumes "clean acc p" "push p c = Inr q" "c \<noteq> []"
  shows "resolved acc Ancestors q"
proof -
  obtain cs where cs: "list_all valid_comp cs" "no_link acc cs" "valid_comp c" "q = of_comps (cs @ [c])"
    using clean_push [OF assms] by blast
  then have "list_all valid_comp (cs @ [c])" "no_link acc (butlast (cs @ [c]))" by simp_all
  with cs(4) show ?thesis unfolding resolved_def by blast
qed

lemma clean_resolved: "clean acc q \<Longrightarrow> resolved acc mode q"
  by (auto simp: clean_def resolved_def no_link_butlast)

lemma resolve_loop_resolved:
  "resolve_loop acc mode n todo res = Inr q \<Longrightarrow> clean acc res \<Longrightarrow> resolved acc mode q"
proof (induction acc mode n todo res rule: resolve_loop.induct)
  case (2 acc mode n c todo res)
  consider (skip) "c = [] \<or> c = ''.''" | (up) "c = ''..''" | (down) "c \<noteq> []" "c \<noteq> ''.''" "c \<noteq> ''..''" by blast
  then show ?case
  proof cases
    case skip
    with 2 show ?thesis by auto
  next
    case up
    with 2 clean_pop show ?thesis by (auto simp: res_simps split: if_splits)
  next
    case down
    then obtain res1 where p: "push res c = Inr res1" using 2(7) by (auto simp: res_simps)
    show ?thesis
    proof (cases "mode = Full \<or> todo \<noteq> []")
      case False
      with down p 2(7) have "resolve_loop acc mode n todo res1 = Inr q" by simp
      with False have "q = res1" "mode = Ancestors" by (auto intro: SymlinkResolution.exhaust)
      with clean_push_last [OF 2(8) p down(1)] show ?thesis by simp
    next
      case True
      then obtain st where st: "maybeLstat acc res1 = Inr st" using 2(7) down p by (auto simp: res_simps)
      show ?thesis
      proof (cases "st \<noteq> None \<and> stat_type (the st) = tSymlink")
        case s: False
        with 2(7) down p True st have "resolve_loop acc mode n todo res1 = Inr q" by auto
        with 2(5) [OF _ down(3) p True st s] clean_push_file [OF 2(8) p down(1) st] s down show ?thesis by auto
      next
        case s: True
        with 2(7) down p True st have "n \<noteq> 0" and
          "bind_res (readLink acc res1) (\<lambda>target. bind_res (if is_absolute target then Inr root else pop res1)
             (\<lambda>res2. resolve_loop acc mode (n - 1) (tokenizeString target [slash] @ todo) res2)) = Inr q"
          by (auto split: if_split_asm)
        then obtain target res2 where t: "n \<noteq> 0" "readLink acc res1 = Inr target"
          "(if is_absolute target then Inr root else pop res1) = Inr res2"
          "resolve_loop acc mode (n - 1) (tokenizeString target [slash] @ todo) res2 = Inr q"
          unfolding bind_res_Inr_iff by blast
        have "clean acc res2"
          using t(3) clean_root clean_push_pop [OF 2(8) p down(1)] by (auto split: if_splits)
        with 2(4) [OF _ down(3) p True st s t(1,2,3)] t(4) down show ?thesis by auto
      qed
    qed
  qed
qed (simp add: clean_resolved)

section \<open>Lookup after an update\<close>

lemma get_upd_at: "get_at ns g = Some f \<Longrightarrow> get_at ns (upd_at ns u g) = Some (u f)"
  by (induction ns g rule: get_at.induct) (auto split: option.splits)

lemma get_upd_other:
  "get_at ms g = Some (Regular x c) \<Longrightarrow> get_at ns g = Some f \<Longrightarrow> is_regular f \<Longrightarrow> ms \<noteq> ns \<Longrightarrow>
   get_at ms (upd_at ns u g) = Some (Regular x c)"
proof (induction ns u g arbitrary: ms rule: upd_at.induct)
  case (1 u g)
  then show ?case by (cases ms) (auto elim: is_regular.elims)
next
  case (2 n ns u es)
  then show ?case by (cases ms) (auto split: option.splits)
qed auto

lemma open_loop_found: "open_loop (Some c) ns b g = Inr (g', k) \<Longrightarrow> k \<and> (\<exists>f. get_at ns g' = Some f)"
proof (induction ns arbitrary: b g g' k)
  case (Cons n ns)
  show ?case
    using Cons.prems by (auto simp: res_simps split: File.splits option.splits dest!: Cons.IH)
qed (auto split: if_splits)

lemma open_loop_keeps:
  "open_loop (Some c) ns b g = Inr (g', k) \<Longrightarrow> get_at ms g = Some (Regular x d) \<Longrightarrow> b \<longrightarrow> g = Directory [] \<Longrightarrow>
   get_at ms g' = Some (Regular x d)"
proof (induction ns arbitrary: b g g' k ms)
  case Nil
  then show ?case by (cases ms) (auto split: if_splits)
next
  case (Cons n ns)
  then obtain es where es: "g = Directory es" by (cases g) (auto split: if_splits)
  with Cons.prems(2) obtain m ms' where ms: "ms = m # ms'" by (cases ms) auto
  show ?case
  proof (cases "map_of es n")
    case None
    with Cons.prems(1,2) es ms show ?thesis by (auto simp: res_simps split: option.splits)
  next
    case (Some f)
    then have "\<not> b" using Cons.prems(3) es by auto
    with Some Cons.prems(1) es obtain f' where f': "open_loop (Some c) ns b f = Inr (f', k)"
      "g' = Directory (map_put n f' es)" by (auto simp: res_simps)
    show ?thesis using Cons.IH [OF f'(1)] \<open>\<not> b\<close> Some Cons.prems(2) es ms f'(2) by (auto split: option.splits)
  qed
qed

lemma mem_get_of_comps:
  "list_all valid_comp ns \<Longrightarrow> mem_get (Some g) (of_comps ns) = bind_res (open_loop None ns False g)
     (\<lambda>(g', k). Inr (if k then get_at ns g' else None))"
  by (cases "open_loop None ns False g") (auto simp: mem_get_def mem_open_def valid_comp_ok)

lemma open_loop_None_get:
  "open_loop None ns b g = Inr (g', k) \<Longrightarrow> k = (get_at ns g \<noteq> None) \<and> (k \<longrightarrow> get_at ns g' = get_at ns g)"
proof (induction ns arbitrary: b g g' k)
  case (Cons n ns)
  show ?case
    using Cons.prems by (auto simp: res_simps split: if_splits File.splits option.splits dest!: Cons.IH)
qed auto

lemma mem_readFile_iff:
  assumes "list_all valid_comp ns"
  shows "(mem_readFile st (of_comps ns) = Inr (z, c)) =
         (\<exists>g x. st = Some g \<and> get_at ns g = Some (Regular x c) \<and> z = of_nat (length c))"
proof (cases st)
  case None
  then show ?thesis by (simp add: mem_readFile_def mem_get_def mem_open_def)
next
  case (Some g)
  show ?thesis
  proof (cases "\<exists>x. get_at ns g = Some (Regular x c)")
    case True
    with Some show ?thesis by (auto simp: mem_readFile_def mem_get_at [OF assms])
  next
    case False
    have "mem_readFile st (of_comps ns) \<noteq> Inr (z, c)"
      using open_loop_None_get [of ns False g] False
      by (auto simp: mem_readFile_def Some mem_get_of_comps [OF assms] res_simps split: option.splits File.splits if_splits)
    with Some False show ?thesis by auto
  qed
qed

lemma open_as_tree:
  assumes "list_all valid_comp ns" "open_as c ok e (of_comps ns) (Some g0) = Inr st"
  shows "\<exists>g f. open_loop (Some c) ns False g0 = Inr (g, True) \<and> get_at ns g = Some f \<and> ok f \<and> st = Some g"
proof -
  obtain g k where g: "open_loop (Some c) ns False g0 = Inr (g, k)" "k" "ok (the (get_at ns g))" "st = Some g"
    using assms(2) valid_comp_ok [OF assms(1)]
    by (auto simp: open_as_def mem_open_def res_simps split: if_splits)
  then show ?thesis using open_loop_found [OF g(1)] by auto
qed

definition file_at :: "string list \<Rightarrow> Memory \<Rightarrow> File option" where
  "file_at ns st = Option.bind st (get_at ns)"

lemma mem_readFile_at:
  assumes "list_all valid_comp ns"
  shows "(mem_readFile st (of_comps ns) = Inr (z, c)) =
         (\<exists>x. file_at ns st = Some (Regular x c) \<and> z = of_nat (length c))"
  unfolding mem_readFile_iff [OF assms] by (cases st) (auto simp: file_at_def)

lemma addFile_tree:
  assumes ns: "list_all valid_comp ns" and add: "mem_addFile (of_comps ns) d st = Inr st'"
  shows "(\<exists>x. file_at ns st' = Some (Regular x d)) \<and>
    (\<forall>ms x c. ms \<noteq> ns \<longrightarrow> file_at ms st = Some (Regular x c) \<longrightarrow> file_at ms st' = Some (Regular x c))"
proof -
  note ok = valid_comp_ok [OF ns]
  show ?thesis
  proof (cases "st = None \<and> ns = []")
    case True
    then have "st' = Some (Regular False d)"
      using add ok
      by (simp add: mem_addFile_def mem_createRegularFile_def open_as_def mem_open_def mem_update_def res_simps)
    then have "file_at ns st' = Some (Regular False d)" using True by (simp add: file_at_def)
    with True show ?thesis by (auto simp: file_at_def)
  next
    case False
    define g0 where "g0 = (case st of None \<Rightarrow> Directory [] | Some g \<Rightarrow> g)"
    have "(if st = None \<and> \<not> isRoot (of_comps ns)
          then bind_res (mem_open root (Some (Directory [])) st) (\<lambda>(st', ok). Inr st') else Inr st) = Inr (Some g0)"
      using False ok by (cases st) (auto simp: g0_def mem_open_def root_of_comps)
    with add have "bind_res (mem_createRegularFile (of_comps ns) (Some g0))
        (\<lambda>st2. Inr (mem_update (of_comps ns) (set_contents d) st2)) = Inr st'"
      by (simp add: mem_addFile_def)
    then obtain st2 where st2: "mem_createRegularFile (of_comps ns) (Some g0) = Inr st2"
      "st' = mem_update (of_comps ns) (set_contents d) st2" by (auto simp: res_simps)
    then obtain g f where g: "open_loop (Some (Regular False [])) ns False g0 = Inr (g, True)" "get_at ns g = Some f"
      "is_regular f" "st2 = Some g"
      using open_as_tree [OF ns] unfolding mem_createRegularFile_def by blast
    then have st': "st' = Some (upd_at ns (set_contents d) g)" using st2(2) ok by (simp add: mem_update_def)
    have "\<exists>x. get_at ns (upd_at ns (set_contents d) g) = Some (Regular x d)"
      using get_upd_at [OF g(2)] g(3) by (cases f) auto
    moreover have "get_at ms (upd_at ns (set_contents d) g) = Some (Regular x c)"
      if "ms \<noteq> ns" "file_at ms st = Some (Regular x c)" for ms x c
    proof (rule get_upd_other [OF _ g(2,3) that(1)])
      show "get_at ms g = Some (Regular x c)"
        using open_loop_keeps [OF g(1), of ms x c] that(2) by (cases st) (simp_all add: file_at_def g0_def)
    qed
    ultimately show ?thesis using st' by (simp add: file_at_def)
  qed
qed

section \<open>Properties\<close>

text \<open>C23: A path that \<open>resolveSymlinks\<close> returns is canonical and free of symbolic links: every proper
  ancestor is not a link, and with \<open>SymlinkResolution::Full\<close> the path itself is not one either.\<close>

theorem resolveSymlinks_sound:
  assumes "resolveSymlinks acc p mode = Inr q"
  shows "canon q \<and> no_link acc (butlast (path_elems q)) \<and> (mode = Full \<longrightarrow> no_link acc (path_elems q))"
proof -
  have "resolved acc mode q"
    using resolve_loop_resolved [OF assms [unfolded resolveSymlinks_def] clean_root] .
  then show ?thesis by (auto simp: resolved_def canon_of_comps valid_comp_ok)
qed

theorem resolveSymlinks_sound_witness:
  "resolveSymlinks (MemorySourceAccessor (Some (Directory [(''a'', Symlink ''b''), (''b'', Regular False [])])))
     (CanonPath ''/a'') Full = Inr (CanonPath ''/b'') \<and> canon (CanonPath ''/b'')"
proof -
  have r: "resolveSymlinks (MemorySourceAccessor (Some (Directory [(''a'', Symlink ''b''), (''b'', Regular False [])])))
     (CanonPath ''/a'') Full = Inr (CanonPath ''/b'')" by code_simp
  with resolveSymlinks_sound [OF r] show ?thesis by blast
qed

text \<open>\<open>addFile\<close> to an in-memory file system: if it succeeds, reading the path gives the contents that
  were added, and every other regular file reads as before.\<close>

theorem addFile_readFile:
  assumes "canon p" "mem_addFile p d st = Inr st'"
  shows "mem_readFile st' p = Inr (of_nat (length d), d) \<and>
    (\<forall>q r. canon q \<longrightarrow> q \<noteq> p \<longrightarrow> mem_readFile st q = Inr r \<longrightarrow> mem_readFile st' q = Inr r)"
proof -
  obtain ns where ns: "p = of_comps ns" "list_all valid_comp ns" using assms(1) by (rule canonE)
  note tree = addFile_tree [OF ns(2) assms(2) [unfolded ns(1)]]
  have "mem_readFile st' q = Inr r" if q: "canon q" "q \<noteq> p" "mem_readFile st q = Inr r" for q r
  proof -
    obtain ms where ms: "q = of_comps ms" "list_all valid_comp ms" using q(1) by (rule canonE)
    obtain z c where r: "r = (z, c)" by (cases r)
    obtain x where x: "file_at ms st = Some (Regular x c)" "z = of_nat (length c)"
      using q(3) unfolding ms(1) r mem_readFile_at [OF ms(2)] by blast
    have "ms \<noteq> ns" using q(2) ms(1) ns(1) by blast
    with tree x(1) have "file_at ms st' = Some (Regular x c)" by blast
    with x(2) show ?thesis unfolding ms(1) r mem_readFile_at [OF ms(2)] by blast
  qed
  with tree show ?thesis unfolding ns(1) mem_readFile_at [OF ns(2)] by blast
qed

theorem addFile_readFile_witness:
  "\<exists>st'. mem_addFile (CanonPath ''/a'') ''x'' None = Inr st' \<and> mem_readFile st' (CanonPath ''/a'') = Inr (1, ''x'')"
proof -
  have a: "mem_addFile (CanonPath ''/a'') ''x'' None = Inr (Some (Directory [(''a'', Regular False ''x'')]))" by code_simp
  have "canon (CanonPath ''/a'')" by code_simp
  from addFile_readFile [OF this a] a show ?thesis by simp
qed

text \<open>C15: Copying a file system object out of an in-memory file system into an empty one gives the same
  object, for every tree whose depth is within the fuel.\<close>

theorem copyRecursive_memory:
  assumes "valid_file f" "fits n f"
  shows "copyRecursive n (MemorySourceAccessor (Some f)) root MemorySink root None = Some (Inr (Some f))"
proof -
  have "copyRecursive n (MemorySourceAccessor (Some f)) (of_comps []) MemorySink (of_comps []) None =
      Some (Inr (put [] f None))"
    by (rule mem_copy.copy_tree [OF _ _ _ assms]) (simp_all only: list.pred_inject get_at.simps free_def option.case)
  then show ?thesis unfolding root_of_comps put_def option.case .
qed

theorem copyRecursive_memory_witness:
  "copyRecursive 2 (MemorySourceAccessor (Some (Directory [(''a'', Symlink ''b''), (''b'', Regular True ''c'')]))) root
     MemorySink root None = Some (Inr (Some (Directory [(''a'', Symlink ''b''), (''b'', Regular True ''c'')])))"
  by (rule copyRecursive_memory)
    (simp add: nar_name_def nar_target_def valid_comp_def comp_ok_def, simp only: numeral_2_eq_2, simp)

text \<open>The documentation of \<open>open\<close> says that it returns null when a parent of a file to create is not a
  directory; it throws.\<close>

lemma mem_open_parent_is_file:
  "mem_open (CanonPath ''/a/b'') (Some (Directory [])) (Some (Directory [(''a'', Regular False [])])) =
     Inl (NixError NotADirectory ''file '%s' is not a directory'')"
  by code_simp

end
