(* ===== verification/Nar_Archive.thy ===== *)
theory Nar_Archive
  imports Source_Accessor
begin

text \<open>
  Nix archives (NARs): \<open>src/src/libutil/archive.cc\<close> and \<open>archive.hh\<close>.

  \<open>dumpPath\<close> serialises what a \<open>SourceAccessor\<close> presents, \<open>parseDump\<close> replays an archive into a
  \<open>FileSystemObjectSink\<close>. \<open>useCaseHack\<close> (the setting \<open>archiveSettings.useCaseHack\<close>) is a parameter.
  The levels that are left below \<open>narMaxDepth\<close> are the structural argument of both recursions. The
  loop over the entries of a directory reads until the closing tag and is a
  \<open>partial_function (option)\<close>; that it returns is proved. The source is the string of its
  remaining content (see \<open>Serialise\<close>); bytes that a sink received before an exception are not kept.
\<close>

section \<open>Writing\<close>

definition narVersionMagic1 :: string where "narVersionMagic1 = ''nix-archive-1''"

definition caseHackSuffix :: string where "caseHackSuffix = ''~nix~case~hack~''"

definition narMaxDepth :: nat where "narMaxDepth = 64"

text \<open>\<open>std::string::find\<close> of a string: the first position.\<close>

fun find_string :: "string \<Rightarrow> string \<Rightarrow> nat option" where
  "find_string pat [] = (if pat = [] then Some 0 else None)"
| "find_string pat (c # cs) =
     (if take (length pat) (c # cs) = pat then Some 0 else map_option Suc (find_string pat cs))"

definition dumpContents :: "SourceAccessor \<Rightarrow> CanonPath \<Rightarrow> string res" where
  "dumpContents acc p =
     bind_res (readFile acc p) (\<lambda>(size, d).
       Inr (writeString ''contents'' @ writeNum size @ d @ writePadding (unat size)))"

text \<open>The map from the names in the archive to the names in the directory.\<close>

definition unhack_entry ::
    "bool \<Rightarrow> string \<times> Type option \<Rightarrow> (string \<times> string) list \<Rightarrow> (string \<times> string) list res" where
  "unhack_entry useCaseHack i unhacked =
     (if useCaseHack then
        let name = (case find_string caseHackSuffix (fst i) of Some k \<Rightarrow> take k (fst i) | None \<Rightarrow> fst i);
            r = map_emplace name (fst i) unhacked
        in if \<not> snd r then Inl (NixError Error ''file name collision between '%s' and '%s'.'') else Inr (fst r)
      else Inr (fst (map_emplace (fst i) (fst i) unhacked)))"

fun dump :: "bool \<Rightarrow> (string \<Rightarrow> bool) \<Rightarrow> SourceAccessor \<Rightarrow> nat \<Rightarrow> CanonPath \<Rightarrow> CanonPath \<Rightarrow> string res" where
  "dump useCaseHack filt acc 0 path filterPath =
     Inl (NixError Error ''path '%s' exceeds maximum NAR directory depth of %d'')"
| "dump useCaseHack filt acc (Suc levels) path filterPath =
     bind_res (lstat acc path) (\<lambda>st.
     bind_res
       (case stat_type st of
          tRegular \<Rightarrow>
            bind_res (dumpContents acc path) (\<lambda>c.
              Inr (writeString ''type'' @ writeString ''regular'' @
                   (if isExecutable st then writeString ''executable'' @ writeString [] else []) @ c))
        | tDirectory \<Rightarrow>
            bind_res (readDirectory acc path) (\<lambda>es.
            bind_res (fold_res (unhack_entry useCaseHack) es []) (\<lambda>unhacked.
            bind_res (fold_res (\<lambda>i out.
                bind_res (push filterPath (fst i)) (\<lambda>filteredPath.
                  if filt (path_abs filteredPath) then
                    bind_res (push path (snd i)) (\<lambda>path'.
                    bind_res (push filterPath (snd i)) (\<lambda>filterPath'.
                    bind_res (dump useCaseHack filt acc levels path' filterPath') (\<lambda>d.
                      Inr (out @ writeString ''entry'' @ writeString ''('' @ writeString ''name'' @ writeString (fst i) @
                           writeString ''node'' @ d @ writeString '')''))))
                  else Inr out)) unhacked []) (\<lambda>entries.
              Inr (writeString ''type'' @ writeString ''directory'' @ entries))))
        | tSymlink \<Rightarrow>
            bind_res (readLink acc path) (\<lambda>t.
              Inr (writeString ''type'' @ writeString ''symlink'' @ writeString ''target'' @ writeString t))
        | _ \<Rightarrow> Inl (NixError Error ''file '%s' has an unsupported type''))
       (\<lambda>body. Inr (writeString ''('' @ body @ writeString '')'')))"

definition dumpPath :: "bool \<Rightarrow> (string \<Rightarrow> bool) \<Rightarrow> SourceAccessor \<Rightarrow> CanonPath \<Rightarrow> string res" where
  "dumpPath useCaseHack filt acc path =
     bind_res (dump useCaseHack filt acc narMaxDepth path path) (\<lambda>d. Inr (writeString narVersionMagic1 @ d))"

definition dumpString :: "string \<Rightarrow> string" where
  "dumpString s =
     writeString narVersionMagic1 @ writeString ''('' @ writeString ''type'' @ writeString ''regular'' @
     writeString ''contents'' @ writeString s @ writeString '')''"

section \<open>Parsing\<close>

definition badArchive :: "string \<Rightarrow> nix_error" where
  "badArchive s = NixError SerialisationError (''bad archive: '' @ s)"

definition narMaxTag :: nat where "narMaxTag = 32"
definition narMaxName :: nat where "narMaxName = 255"
definition narMaxTarget :: nat where "narMaxTarget = 4095"

definition expectTag :: "string \<Rightarrow> unit parser" where
  "expectTag expected s =
     bind_res (readString narMaxTag s) (\<lambda>(tag, s1).
       if tag \<noteq> expected then Inl (badArchive ''expected tag '%s', got '%s'.'') else Inr ((), s1))"

definition parseContents :: "'s FSSink \<Rightarrow> CanonPath \<Rightarrow> 's \<Rightarrow> string \<Rightarrow> ('s \<times> string) res" where
  "parseContents sink path st s =
     bind_res (readLongLong s) (\<lambda>(size, s1).
     bind_res (crf_preallocateContents sink path size st) (\<lambda>st1.
       if crf_skipContents sink then
         bind_res (alignUp size 8) (\<lambda>n. bind_res (take_bytes (unat n) s1) (\<lambda>(_, s2). Inr (st1, s2)))
       else
         bind_res (take_bytes (unat size) s1) (\<lambda>(d, s2).
         bind_res (crf_write sink path d st1) (\<lambda>st2.
         bind_res (readPadding (unat size) s2) (\<lambda>(_, s3). Inr (st2, s3))))))"

text \<open>The callback of \<open>createRegularFile\<close>.\<close>

definition parseRegular :: "'s FSSink \<Rightarrow> CanonPath \<Rightarrow> 's \<Rightarrow> string \<Rightarrow> ('s \<times> string) res" where
  "parseRegular sink path st s =
     bind_res (createRegularFile sink path st) (\<lambda>st0.
     bind_res (readString narMaxTag s) (\<lambda>(tag, s1).
     bind_res
       (if tag = ''executable'' then
          bind_res (readString 0 s1) (\<lambda>(s2', s2).
            if s2' \<noteq> [] then Inl (badArchive ''executable marker has non-empty value'')
            else
              bind_res (crf_isExecutable sink path st0) (\<lambda>st1.
              bind_res (readString narMaxTag s2) (\<lambda>(tag', s3). Inr (tag', st1, s3))))
        else Inr (tag, st0, s1)) (\<lambda>(tag1, st1, s4).
       if tag1 \<noteq> ''contents'' then Inl (badArchive ''expected tag 'contents', got '%s'.'')
       else
         bind_res (parseContents sink path st1 s4) (\<lambda>(st2, s5).
         bind_res (expectTag '')'' s5) (\<lambda>(_, s6). Inr (st2, s6))))))"

text \<open>\<open>strcasecmp\<close> in the C locale.\<close>

definition lower_case :: "string \<Rightarrow> string" where
  "lower_case = map (\<lambda>c. if CHR ''A'' \<le> c \<and> c \<le> CHR ''Z'' then char_of (of_char c + 32 :: nat) else c)"

fun to_string_nat :: "nat \<Rightarrow> string" where
  "to_string_nat n = (if n < 10 then [char_of (48 + n)] else to_string_nat (n div 10) @ [char_of (48 + n mod 10)])"

declare to_string_nat.simps [simp del]

text \<open>
  The names seen in a directory, with the number of collisions: a \<open>std::map\<close> under
  \<open>CaseInsensitiveCompare\<close>, represented by the lower-case names. A collision gets the suffix and its
  number.
\<close>

definition hack_name ::
    "bool \<Rightarrow> string \<Rightarrow> (string \<times> nat) list \<Rightarrow> (string \<times> (string \<times> nat) list) res" where
  "hack_name useCaseHack name names =
     (if \<not> useCaseHack then Inr (name, names)
      else case map_of names (lower_case name) of
        Some k \<Rightarrow>
          let name1 = name @ caseHackSuffix @ to_string_nat (k + 1);
              names1 = map_put (lower_case name) (k + 1) names
          in if map_of names1 (lower_case name1) \<noteq> None
             then Inl (badArchive ''NAR contains file name '%s' that collides with case-hacked file name '%s'.'')
             else Inr (name1, names1)
      | None \<Rightarrow> Inr (name, map_put (lower_case name) 0 names))"

definition invalidName :: "string \<Rightarrow> bool" where
  "invalidName name =
     (name = [] \<or> name = ''.'' \<or> name = ''..'' \<or> slash \<in> set name \<or> CHR 0x00 \<in> set name)"

text \<open>The start of an entry, up to the node: the name in the file system and the state of the loop.\<close>

definition parseEntryHead ::
    "bool \<Rightarrow> string \<Rightarrow> (string \<times> nat) list \<Rightarrow> (string \<times> string \<times> (string \<times> nat) list) parser" where
  "parseEntryHead useCaseHack prevName names s =
     bind_res (expectTag ''('' s) (\<lambda>(_, s1).
     bind_res (expectTag ''name'' s1) (\<lambda>(_, s2).
     bind_res (readString narMaxName s2) (\<lambda>(name, s3).
       if invalidName name then Inl (badArchive ''NAR contains invalid file name '%1%'.'')
       else if name \<le> prevName then Inl (badArchive ''NAR directory is not sorted'')
       else
         bind_res (hack_name useCaseHack name names) (\<lambda>(name1, names1).
         bind_res (expectTag ''node'' s3) (\<lambda>(_, s4). Inr ((name1, name, names1), s4))))))"

text \<open>The loop over the entries; \<open>node\<close> parses a node at the next depth.\<close>

partial_function (option) parse_entries ::
    "(CanonPath \<Rightarrow> 's \<Rightarrow> string \<Rightarrow> ('s \<times> string) res option) \<Rightarrow> bool \<Rightarrow> CanonPath \<Rightarrow> string \<Rightarrow>
     (string \<times> nat) list \<Rightarrow> 's \<Rightarrow> string \<Rightarrow> ('s \<times> string) res option" where
  "parse_entries node useCaseHack path prevName names st s =
     (case readString narMaxTag s of
        Inl e \<Rightarrow> Some (Inl e)
      | Inr (tag, s1) \<Rightarrow>
          if tag = '')'' then Some (Inr (st, s1))
          else if tag \<noteq> ''entry'' then Some (Inl (badArchive ''expected tag 'entry' or ')', got '%s'.''))
          else case bind_res (parseEntryHead useCaseHack prevName names s1) (\<lambda>(h, s2).
                      bind_res (push path (fst h)) (\<lambda>path'. Inr (h, path', s2))) of
            Inl e \<Rightarrow> Some (Inl e)
          | Inr ((name, prev, names1), path', s2) \<Rightarrow>
              (case bind_ro (node path' st s2) (\<lambda>(st1, s3).
                      Some (bind_res (expectTag '')'' s3) (\<lambda>(_, s4). Inr (st1, s4)))) of
                 None \<Rightarrow> None
               | Some (Inl e) \<Rightarrow> Some (Inl e)
               | Some (Inr (st1, s4)) \<Rightarrow> parse_entries node useCaseHack path prev names1 st1 s4))"

declare parse_entries.simps [code]

fun parse :: "bool \<Rightarrow> 's FSSink \<Rightarrow> nat \<Rightarrow> CanonPath \<Rightarrow> 's \<Rightarrow> string \<Rightarrow> ('s \<times> string) res option" where
  "parse useCaseHack sink 0 path st s = Some (Inl (badArchive ''NAR directory nesting exceeds maximum depth of %d''))"
| "parse useCaseHack sink (Suc levels) path st s =
     bind_ro (Some (bind_res (expectTag ''('' s) (\<lambda>(_, s1).
                    bind_res (expectTag ''type'' s1) (\<lambda>(_, s2). readString narMaxTag s2)))) (\<lambda>(type, s3).
       if type = ''regular'' then Some (parseRegular sink path st s3)
       else if type = ''directory'' then
         bind_ro (Some (createDirectory sink path st)) (\<lambda>st1.
           parse_entries (parse useCaseHack sink levels) useCaseHack path [] [] st1 s3)
       else if type = ''symlink'' then
         Some (bind_res (expectTag ''target'' s3) (\<lambda>(_, s4).
               bind_res (readString narMaxTarget s4) (\<lambda>(target, s5).
                 if target = [] \<or> CHR 0x00 \<in> set target then Inl (badArchive ''NAR contains invalid symlink target'')
                 else
                   bind_res (createSymlink sink path target st) (\<lambda>st1.
                   bind_res (expectTag '')'' s5) (\<lambda>(_, s6). Inr (st1, s6))))))
       else Some (Inl (badArchive ''unknown file type '%s'.'')))"

text \<open>A \<open>SerialisationError\<close> from reading the version is swallowed, an \<open>EndOfFile\<close> is not.\<close>

definition parseDump :: "bool \<Rightarrow> 's FSSink \<Rightarrow> 's \<Rightarrow> string \<Rightarrow> ('s \<times> string) res option" where
  "parseDump useCaseHack sink st s =
     bind_ro (Some (case readString (length narVersionMagic1) s of
                      Inr r \<Rightarrow> Inr r
                    | Inl (NixError c m) \<Rightarrow>
                        if c = SerialisationError then Inr ([], []) else Inl (NixError c m))) (\<lambda>(ver, s1).
       if ver \<noteq> narVersionMagic1 then Some (Inl (badArchive ''input doesn't look like a Nix archive''))
       else parse useCaseHack sink narMaxDepth root st s1)"

text \<open>\<open>copyNAR\<close>: the bytes that the parser consumed are the bytes that the tee wrote.\<close>

definition copyNAR :: "bool \<Rightarrow> string \<Rightarrow> (string \<times> string) res option" where
  "copyNAR useCaseHack s =
     bind_ro (parseDump useCaseHack NullFileSystemObjectSink () s) (\<lambda>(_, r).
       Some (Inr (take (length s - length r) s, r)))"

section \<open>The format\<close>

text \<open>The grammar documented in \<open>archive.hh\<close>, over trees.\<close>

fun nar :: "File \<Rightarrow> string" where
  "nar (Regular x c) =
     writeString ''('' @ writeString ''type'' @ writeString ''regular'' @
     (if x then writeString ''executable'' @ writeString [] else []) @
     writeString ''contents'' @ writeString c @ writeString '')''"
| "nar (Symlink t) =
     writeString ''('' @ writeString ''type'' @ writeString ''symlink'' @
     writeString ''target'' @ writeString t @ writeString '')''"
| "nar (Directory es) =
     writeString ''('' @ writeString ''type'' @ writeString ''directory'' @
     concat (map (\<lambda>e. writeString ''entry'' @ writeString ''('' @ writeString ''name'' @ writeString (fst e) @
       writeString ''node'' @ nar (snd e) @ writeString '')'') es) @ writeString '')''"

definition nar_entry :: "string \<times> File \<Rightarrow> string" where
  "nar_entry e = writeString ''entry'' @ writeString ''('' @ writeString ''name'' @ writeString (fst e) @
     writeString ''node'' @ nar (snd e) @ writeString '')''"

lemma nar_Directory:
  "nar (Directory es) = writeString ''('' @ writeString ''type'' @ writeString ''directory'' @
     concat (map nar_entry es) @ writeString '')''"
  by (simp add: nar_entry_def [abs_def])

text \<open>What remains of a tree when the entries whose path the filter rejects are left out.\<close>

fun prune :: "(string \<Rightarrow> bool) \<Rightarrow> string list \<Rightarrow> File \<Rightarrow> File" where
  "prune filt fs (Directory es) =
     Directory (map (\<lambda>e. (fst e, prune filt (fs @ [fst e]) (snd e)))
       (filter (\<lambda>e. filt (rend_root (fs @ [fst e]))) es))"
| "prune filt fs f = f"

section \<open>Dumping a tree\<close>

lemma unhack_ordered:
  assumes "ordered (dn @ es)"
  shows "fold_res (unhack_entry False) (map (\<lambda>(n, g). (n, v g)) es) (map (\<lambda>(n, g). (n, n)) dn) =
    Inr (map (\<lambda>(n, g). (n, n)) (dn @ es))"
  using assms
proof (induction es arbitrary: dn)
  case (Cons e es)
  obtain k g where e: "e = (k, g)" by (cases e)
  have lt: "\<forall>k' \<in> fst ` set dn. k' < k" using Cons.prems e by (auto simp: ordered_def sorted_wrt_append)
  then have lt': "\<forall>k' \<in> fst ` set (map (\<lambda>(n, g). (n, n)) dn). k' < k" by auto
  then have "map_of (map (\<lambda>(n, g). (n, n)) dn) k = None" by (force simp: map_of_eq_None_iff)
  then have "unhack_entry False (k, v g) (map (\<lambda>(n, g). (n, n)) dn) = Inr (map (\<lambda>(n, g). (n, n)) (dn @ [(k, g)]))"
    using map_put_last [OF lt'] by (simp add: unhack_entry_def map_emplace_def)
  with Cons.IH [of "dn @ [(k, g)]"] Cons.prems e show ?case by simp
qed simp

lemma fold_res_collect:
  assumes "\<And>x out. x \<in> set xs \<Longrightarrow> step x out = (if P x then Inr (out @ g x) else Inl e)"
  shows "fold_res step xs out = (if \<forall>x \<in> set xs. P x then Inr (out @ concat (map g xs)) else Inl e)"
  using assms by (induction xs arbitrary: out) auto

definition depth_error :: nix_error where
  "depth_error = NixError Error ''path '%s' exceeds maximum NAR directory depth of %d''"

lemma get_at_child: "get_at ns F = Some (Directory es) \<Longrightarrow> map_of es k = Some g \<Longrightarrow> get_at (ns @ [k]) F = Some g"
  by (induction ns F rule: get_at.induct) (auto split: option.splits)

lemma path_abs_of_comps: "path_abs (of_comps cs) = rend_root cs"
  by (simp add: of_comps_def)

context tree_accessor
begin

lemma dump_contents:
  assumes "list_all valid_comp ns" "get_at ns F = Some (Regular x c)" "length c < 2 ^ 64"
  shows "dumpContents acc (of_comps ns) = Inr (writeString ''contents'' @ writeString c)"
  unfolding dumpContents_def acc_file [OF assms(1,2)] using assms(3)
  by (simp add: writeString_def [of c] unat_of_nat_length)

lemma dump_entries:
  assumes dump: "\<And>ns fs f. list_all valid_comp ns \<Longrightarrow> list_all valid_comp fs \<Longrightarrow> get_at ns F = Some f \<Longrightarrow>
      valid_file f \<Longrightarrow> dump False filt acc n (of_comps ns) (of_comps fs) =
        (if fits n (prune filt fs f) then Inr (nar (prune filt fs f)) else Inl depth_error)"
    and at: "list_all valid_comp ns" "list_all valid_comp fs" "get_at ns F = Some (Directory es)"
      "valid_file (Directory es)"
  shows "fold_res (\<lambda>i out.
                bind_res (push (of_comps fs) (fst i)) (\<lambda>filteredPath.
                  if filt (path_abs filteredPath) then
                    bind_res (push (of_comps ns) (snd i)) (\<lambda>path'.
                    bind_res (push (of_comps fs) (snd i)) (\<lambda>filterPath'.
                    bind_res (dump False filt acc n path' filterPath') (\<lambda>d.
                      Inr (out @ writeString ''entry'' @ writeString ''('' @ writeString ''name'' @ writeString (fst i) @
                           writeString ''node'' @ d @ writeString '')''))))
                  else Inr out)) (map (\<lambda>(n, g). (n, n)) es) [] =
    (if fits (Suc n) (prune filt fs (Directory es))
     then Inr (concat (map nar_entry (map (\<lambda>e. (fst e, prune filt (fs @ [fst e]) (snd e)))
       (filter (\<lambda>e. filt (rend_root (fs @ [fst e]))) es)))) else Inl depth_error)"
proof -
  define child where "child = (\<lambda>k. prune filt (fs @ [k]) (the (map_of es k)))"
  define keep where "keep = (\<lambda>k. filt (rend_root (fs @ [k])))"
  have m: "map_of es k = Some g \<and> nar_name k \<and> valid_file g" if "(k, g) \<in> set es" for k g
    using that at(4) ordered_distinct [of es] by force
  have step: "bind_res (push (of_comps fs) (fst i)) (\<lambda>filteredPath.
                  if filt (path_abs filteredPath) then
                    bind_res (push (of_comps ns) (snd i)) (\<lambda>path'.
                    bind_res (push (of_comps fs) (snd i)) (\<lambda>filterPath'.
                    bind_res (dump False filt acc n path' filterPath') (\<lambda>d.
                      Inr (out @ writeString ''entry'' @ writeString ''('' @ writeString ''name'' @ writeString (fst i) @
                           writeString ''node'' @ d @ writeString '')''))))
                  else Inr out) =
     (if keep (fst i) \<longrightarrow> fits n (child (fst i)) then Inr (out @ (if keep (fst i) then nar_entry (fst i, child (fst i)) else []))
      else Inl depth_error)" if i: "i \<in> set (map (\<lambda>(n, g). (n, n)) es)" for i out
  proof -
    from i obtain k g where k: "i = (k, k)" "(k, g) \<in> set es" by auto
    note g = m [OF k(2)]
    then have vk: "valid_comp k" by (simp add: nar_name_def)
    have p: "push (of_comps fs) k = Inr (of_comps (fs @ [k]))" "push (of_comps ns) k = Inr (of_comps (ns @ [k]))"
      using at(1,2) vk by (simp_all add: push_of_comps valid_comp_ok)
    have d: "dump False filt acc n (of_comps (ns @ [k])) (of_comps (fs @ [k])) =
        (if fits n (child k) then Inr (nar (child k)) else Inl depth_error)"
      using dump [of "ns @ [k]" "fs @ [k]" g] at(1-3) vk g get_at_child [OF at(3)] by (simp add: child_def)
    show ?thesis
      by (simp add: k(1) p d keep_def path_abs_of_comps nar_entry_def)
  qed
  have all: "(\<forall>x \<in> set (map (\<lambda>(n, g). (n, n)) es). keep (fst x) \<longrightarrow> fits n (child (fst x))) =
      fits (Suc n) (prune filt fs (Directory es))"
    using m by (auto simp: keep_def child_def split_beta)
  have out: "concat (map (\<lambda>i. if keep (fst i) then nar_entry (fst i, child (fst i)) else []) (map (\<lambda>(n, g). (n, n)) es')) =
      concat (map nar_entry (map (\<lambda>e. (fst e, prune filt (fs @ [fst e]) (snd e)))
       (filter (\<lambda>e. filt (rend_root (fs @ [fst e]))) es')))" if "set es' \<subseteq> set es" for es'
    using that m by (induction es') (auto simp: keep_def child_def split_beta)
  show ?thesis
    by (subst fold_res_collect [where P = "\<lambda>i. keep (fst i) \<longrightarrow> fits n (child (fst i))"
        and g = "\<lambda>i. if keep (fst i) then nar_entry (fst i, child (fst i)) else []" and e = depth_error])
      (erule step | simp only: all out [OF order.refl] append.simps)+
qed

theorem dump_tree:
  "list_all valid_comp ns \<Longrightarrow> list_all valid_comp fs \<Longrightarrow> get_at ns F = Some f \<Longrightarrow> valid_file f \<Longrightarrow>
   dump False filt acc n (of_comps ns) (of_comps fs) =
     (if fits n (prune filt fs f) then Inr (nar (prune filt fs f)) else Inl depth_error)"
proof (induction n arbitrary: ns fs f)
  case 0
  then show ?case by (simp add: depth_error_def)
next
  case (Suc n)
  note at = Suc.prems
  have l: "lstat acc (of_comps ns) = Inr (file_lstat f)" unfolding lstat_def acc_lstat [OF at(1,3)] by simp
  show ?case
  proof (cases f)
    case (Regular x c)
    then have d: "dumpContents acc (of_comps ns) = Inr (writeString ''contents'' @ writeString c)"
      using dump_contents [OF at(1)] at(3,4) by simp
    show ?thesis by (simp add: l Regular d)
  next
    case (Symlink t)
    with at(3) have "readLink acc (of_comps ns) = Inr t" using acc_link [OF at(1)] by blast
    then show ?thesis by (simp add: l Symlink)
  next
    case (Directory es)
    have g: "get_at ns F = Some (Directory es)" "valid_file (Directory es)" using at(3,4) Directory by simp_all
    then have o: "ordered es" by simp
    note rd = acc_dir [OF at(1) g(1) o]
    have u: "fold_res (unhack_entry False) (map (\<lambda>(n, g). (n, Some (stat_type (file_lstat g)))) es) [] =
        Inr (map (\<lambda>(n, g). (n, n)) es)"
      using unhack_ordered [of "[]" es "\<lambda>g. Some (stat_type (file_lstat g))"] o by simp
    have "\<And>ns fs f. list_all valid_comp ns \<Longrightarrow> list_all valid_comp fs \<Longrightarrow> get_at ns F = Some f \<Longrightarrow>
      valid_file f \<Longrightarrow> dump False filt acc n (of_comps ns) (of_comps fs) =
        (if fits n (prune filt fs f) then Inr (nar (prune filt fs f)) else Inl depth_error)"
      by (rule Suc.IH)
    note de = dump_entries [OF this at(1,2) g]
    show ?thesis
      unfolding dump.simps l Directory file_lstat.simps Stat.simps bind_res.simps Type.case rd u
      by (subst de) (simp_all add: nar_Directory del: nar.simps fits.simps)
  qed
qed

end

section \<open>Parsing tags and names\<close>

lemma readString_write [simp]: "length x \<le> mx \<Longrightarrow> length x < 2 ^ 64 \<Longrightarrow> readString mx (writeString x @ s) = Inr (x, s)"
  by (rule str.dec_enc) simp

lemma readString_iff: "(readString mx s = Inr (x, r)) = (length x \<le> mx \<and> length x < 2 ^ 64 \<and> s = writeString x @ r)"
  by (simp add: str.dec_iff)

lemma expectTag_iff: "(expectTag t s = Inr (u, r)) = (length t \<le> 32 \<and> s = writeString t @ r)"
  by (auto simp: expectTag_def res_simps readString_iff narMaxTag_def)

lemma expectTag_write [simp]: "length t \<le> 32 \<Longrightarrow> expectTag t (writeString t @ s) = Inr ((), s)"
  by (simp add: expectTag_def narMaxTag_def)

lemma length_writeString [simp]: "8 \<le> length (writeString x)"
  by (simp add: writeString_def writeNum_def)

lemma nar_name_iff: "nar_name n = (\<not> invalidName n \<and> length n \<le> 255)"
  by (auto simp: nar_name_def invalidName_def valid_comp_def comp_ok_def)

definition head_of :: "string \<Rightarrow> string" where
  "head_of n = writeString ''('' @ writeString ''name'' @ writeString n @ writeString ''node''"

lemma parseEntryHead_write:
  "nar_name n \<Longrightarrow> prev < n \<Longrightarrow> parseEntryHead False prev names (head_of n @ r) = Inr ((n, n, names), r)"
  by (simp add: parseEntryHead_def hack_name_def head_of_def nar_name_iff narMaxName_def)

lemma parseEntryHead_read:
  "parseEntryHead False prev names s = Inr ((n1, n2, nm), r) \<Longrightarrow>
   n1 = n2 \<and> nm = names \<and> nar_name n2 \<and> prev < n2 \<and> s = head_of n2 @ r"
  by (auto simp: parseEntryHead_def hack_name_def head_of_def res_simps expectTag_iff readString_iff narMaxName_def
      nar_name_iff split: if_splits)

section \<open>Parsing returns\<close>

text \<open>A node parser that returns and does not lengthen its input.\<close>

definition returns :: "(CanonPath \<Rightarrow> 's \<Rightarrow> string \<Rightarrow> ('s \<times> string) res option) \<Rightarrow> bool" where
  "returns node = (\<forall>p st s. node p st s \<noteq> None \<and> (\<forall>st' r. node p st s = Some (Inr (st', r)) \<longrightarrow> length r \<le> length s))"

lemma expectTag_shorter: "expectTag t s = Inr (u, r) \<Longrightarrow> length r \<le> length s"
  by (auto simp: expectTag_iff)

lemma readString_shorter: "readString mx s = Inr (x, r) \<Longrightarrow> length r < length s"
  using length_writeString [of x] by (auto simp: readString_iff simp del: length_writeString)

lemma parseEntryHead_shorter: "parseEntryHead h prev names s = Inr (x, r) \<Longrightarrow> length r \<le> length s"
  by (auto simp: parseEntryHead_def res_simps expectTag_iff readString_iff split: if_splits)

lemma parse_entries_returns:
  assumes "returns node"
  shows "parse_entries node h path prev names st s \<noteq> None \<and>
    (\<forall>st' r. parse_entries node h path prev names st s = Some (Inr (st', r)) \<longrightarrow> length r \<le> length s)"
proof (induction "length s" arbitrary: s prev names st rule: less_induct)
  case less
  show ?case
  proof (cases "readString narMaxTag s")
    case (Inl e)
    then show ?thesis by (simp add: parse_entries.simps)
  next
    case (Inr b)
    then obtain tag s1 where b: "readString narMaxTag s = Inr (tag, s1)" by (cases b) auto
    note s1 = readString_shorter [OF b]
    define m where "m = bind_res (parseEntryHead h prev names s1) (\<lambda>(h, s2).
                      bind_res (push path (fst h)) (\<lambda>path'. Inr (h, path', s2)))"
    show ?thesis
    proof (cases "tag = ''entry''")
      case False
      with b s1 show ?thesis by (subst (1 2) parse_entries.simps) auto
    next
      case True
      show ?thesis
      proof (cases m)
        case (Inl e)
        with b True show ?thesis by (subst (1 2) parse_entries.simps) (simp add: m_def)
      next
        case (Inr x)
        then obtain name prev1 names1 path' s2 where x: "m = Inr ((name, prev1, names1), path', s2)" by (cases x) auto
        then have s2: "length s2 \<le> length s1" by (auto simp: m_def res_simps dest: parseEntryHead_shorter)
        have "node path' st s2 \<noteq> None" using assms unfolding returns_def by blast
        then obtain y where y: "node path' st s2 = Some y" by auto
        define k where "k = bind_res y (\<lambda>(st1, s3). bind_res (expectTag '')'' s3) (\<lambda>(_, s4). Inr (st1, s4)))"
        have k: "bind_ro (node path' st s2) (\<lambda>(st1, s3). Some (bind_res (expectTag '')'' s3) (\<lambda>(_, s4). Inr (st1, s4)))) = Some k"
          unfolding y k_def by (simp add: case_prod_unfold)
        have eq: "parse_entries node h path prev names st s =
            (case k of Inl e \<Rightarrow> Some (Inl e) | Inr (st1, s4) \<Rightarrow> parse_entries node h path prev1 names1 st1 s4)"
          unfolding parse_entries.simps [of node h path prev names st s] b
          by (simp add: True x [unfolded m_def] k split: sum.splits)
        have "length s4 < length s" if "k = Inr (st1, s4)" for st1 s4
          using that s1 s2 y assms by (fastforce simp: k_def res_simps returns_def dest: expectTag_shorter)
        then show ?thesis unfolding eq using less by (fastforce split: sum.splits)
      qed
    qed
  qed
qed

lemma parse_returns: "returns (parse h sink n)"
proof (induction n)
  case 0
  then show ?case by (simp add: returns_def)
next
  case (Suc n)
  have reg: "length r \<le> length s" if "parseRegular sink path st s = Inr (st', r)" for path st s st' r
    using that
    by (auto simp: parseRegular_def parseContents_def res_simps expectTag_iff readString_iff readLongLong_def num.dec_iff
        take_bytes_Inr padding.dec_iff split: if_splits)
  note pe = parse_entries_returns [OF Suc]
  show ?case
    unfolding returns_def
  proof (intro allI conjI impI)
    fix p st s
    show "parse h sink (Suc n) p st s \<noteq> None"
      using pe by (auto simp: bind_ro_None_iff simp del: not_None_eq split: if_splits)
    fix st' r
    assume "parse h sink (Suc n) p st s = Some (Inr (st', r))"
    then show "length r \<le> length s"
      using pe reg by (fastforce simp: res_simps expectTag_iff readString_iff split: if_splits)
  qed
qed

section \<open>Parsing a tree\<close>

text \<open>The sizes whose padded size fits 64 bits, which \<open>alignUp\<close> needs.\<close>

fun alignable :: "File \<Rightarrow> bool" where
  "alignable (Regular x c) = (length c \<le> 2 ^ 64 - 8)"
| "alignable (Symlink t) = True"
| "alignable (Directory es) = (\<forall>e \<in> set es. alignable (snd e))"

lemma writeString_split: "writeString c @ s = writeNum (of_nat (length c)) @ c @ writePadding (length c) @ s"
  by (simp add: writeString_def)

lemma readLongLong_write [simp]: "readLongLong (writeNum n @ s) = Inr (n, s)"
  unfolding readLongLong_def by (rule num.dec_enc) simp

lemma readPadding_write [simp]: "readPadding n (writePadding n @ s) = Inr ((), s)"
  by (rule padding.dec_enc) simp

lemma take_bytes_exact [simp]: "length d = n \<Longrightarrow> take_bytes n (d @ s) = Inr (d, s)"
  by (rule take_bytes_append)

lemma length_padded: "length (c @ writePadding (length c)) = (length c + 7) div 8 * 8"
proof -
  have "length (writePadding n) = (if n mod 8 \<noteq> 0 then 8 - n mod 8 else 0)" for n
    by (auto simp: writePadding_def)
  moreover have "n + (if n mod 8 \<noteq> 0 then 8 - n mod 8 else 0) = (n + 7) div 8 * 8" for n :: nat
  proof -
    obtain q r where n: "n = 8 * q + r" "r < 8" using div_mod_ex [of 8 n] by auto
    have "(r + 7) div 8 = (if r = 0 then 0 else 1)" using n(2) by (auto intro!: div_nat_eqI)
    moreover have "(8 * q + r + 7) div 8 = q + (r + 7) div 8" using div_mult_self4 [of 8 q "r + 7"] by (simp add: add.assoc)
    ultimately show ?thesis using n by auto
  qed
  ultimately show ?thesis by simp
qed

lemma alignUp_8:
  assumes "n \<le> 2 ^ 64 - 8"
  shows "\<exists>m. alignUp (of_nat n) 8 = Inr m \<and> unat m = (n + 7) div 8 * 8"
proof -
  have n: "unat (of_nat n :: u64) = n" using assms by (simp add: unat_of_nat)
  obtain r where r: "alignUp (of_nat n) 8 = Inr r" "8 dvd unat r" "n \<le> unat r" "unat r < n + 8"
  proof -
    have e: "(2 :: u32) ^ 3 = 8" "(2 :: nat) ^ 3 = 8" by simp_all
    have "unat (of_nat n :: u64) + 2 ^ 3 \<le> 2 ^ 64" unfolding n using assms by simp
    from alignUp_spec [of 3 "of_nat n", THEN conjunct1, THEN mp, OF _ this] show ?thesis
      unfolding n e using that by auto
  qed
  from r(2) obtain k where k: "unat r = 8 * k" by (auto elim: dvdE)
  then have "(n + 7) div 8 = k" using r(3,4) by (intro div_nat_eqI) auto
  with k have "unat r = (n + 7) div 8 * 8" by simp
  with r(1) show ?thesis by blast
qed

context tree_sink
begin

lemma parse_contents:
  assumes "list_all valid_comp ns" "freef ns s" "length c < 2 ^ 64" "crf_skipContents sink \<longrightarrow> length c \<le> 2 ^ 64 - 8"
  shows "parseContents sink (of_comps ns) (putf ns (Regular x []) s) (writeString c @ r) =
    Inr (putf ns (Regular x c) s, r)"
proof -
  have u: "unat (of_nat (length c) :: u64) = length c" using assms(3) by (simp add: unat_of_nat)
  show ?thesis
  proof (cases "crf_skipContents sink")
    case False
    then show ?thesis
      by (simp add: parseContents_def writeString_split u snk_prealloc [OF assms(1,2)] snk_write [OF assms(1,2)])
  next
    case True
    then obtain m where m: "alignUp (of_nat (length c)) 8 = Inr m" "unat m = (length c + 7) div 8 * 8"
      using alignUp_8 assms(4) by blast
    have "take_bytes (unat m) ((c @ writePadding (length c)) @ r) = Inr (c @ writePadding (length c), r)"
      by (rule take_bytes_append) (simp only: m(2) length_padded)
    then show ?thesis
      using True by (simp add: parseContents_def writeString_split m(1) snk_prealloc [OF assms(1,2)] snk_skip [of ns x c s])
  qed
qed

lemma parse_regular:
  assumes "list_all valid_comp ns" "freef ns s" "length c < 2 ^ 64" "crf_skipContents sink \<longrightarrow> length c \<le> 2 ^ 64 - 8"
  shows "parseRegular sink (of_comps ns) s
      ((if x then writeString ''executable'' @ writeString [] else []) @
       writeString ''contents'' @ writeString c @ writeString '')'' @ r) = Inr (putf ns (Regular x c) s, r)"
  using snk_file [OF assms(1,2)] snk_exec [OF assms(1,2)] parse_contents [OF assms]
  by (cases x) (simp_all add: parseRegular_def narMaxTag_def)

lemma parse_nar_entries:
  assumes node: "\<And>ns f s r. list_all valid_comp ns \<Longrightarrow> freef ns s \<Longrightarrow> valid_file f \<Longrightarrow> fits n f \<Longrightarrow>
      (crf_skipContents sink \<longrightarrow> alignable f) \<Longrightarrow> node (of_comps ns) s (nar f @ r) = Some (Inr (putf ns f s, r))"
    and at: "list_all valid_comp ns" "freef ns s"
  shows "valid_file (Directory (dn @ es)) \<Longrightarrow> fits (Suc n) (Directory es) \<Longrightarrow>
    (crf_skipContents sink \<longrightarrow> alignable (Directory es)) \<Longrightarrow> (\<forall>e \<in> set es. prev < fst e) \<Longrightarrow>
    parse_entries node False (of_comps ns) prev names (putf ns (Directory dn) s)
      (concat (map nar_entry es) @ writeString '')'' @ r) =
    Some (Inr (putf ns (Directory (dn @ es)) s, r))"
proof (induction es arbitrary: dn prev)
  case Nil
  then show ?case by (subst parse_entries.simps) (simp add: narMaxTag_def)
next
  case (Cons e es)
  obtain k g where e: "e = (k, g)" by (cases e)
  have v: "nar_name k" "valid_file g" "fits n g" "crf_skipContents sink \<longrightarrow> alignable g" "valid_comp k"
    using Cons.prems(1-3) e by (auto simp: nar_name_def)
  have ord: "ordered (dn @ (k, g) # es)" using Cons.prems(1) e by simp
  then have lt: "\<forall>k' \<in> fst ` set dn. k' < k" "\<forall>e \<in> set es. k < fst e"
    by (auto simp: ordered_def sorted_wrt_append)
  then have new: "map_of dn k = None" by (force simp: map_of_eq_None_iff)
  have "push (of_comps ns) k = Inr (of_comps (ns @ [k]))" using at(1) v(5) by (simp add: push_of_comps valid_comp_ok)
  moreover have "node (of_comps (ns @ [k])) (putf ns (Directory dn) s) (nar g @ t) =
      Some (Inr (putf ns (Directory (dn @ [(k, g)])) s, t))" for t
    using node [of "ns @ [k]" "putf ns (Directory dn) s" g t] at(1) v snk_free [OF at(2) new]
      snk_child [OF at(2) new] map_put_last [OF lt(1)] by simp
  moreover have "parseEntryHead False prev names (head_of k @ t) = Inr ((k, k, names), t)" for t
    using parseEntryHead_write [OF v(1)] Cons.prems(4) e by simp
  moreover have "nar_entry (k, g) @ t = writeString ''entry'' @ head_of k @ nar g @ writeString '')'' @ t" for t
    by (simp add: nar_entry_def head_of_def)
  ultimately show ?case
    using Cons.IH [of "dn @ [(k, g)]" k] Cons.prems lt(2) e
    by (subst parse_entries.simps) (simp add: narMaxTag_def)
qed

theorem parse_nar:
  "list_all valid_comp ns \<Longrightarrow> freef ns s \<Longrightarrow> valid_file f \<Longrightarrow> fits n f \<Longrightarrow> (crf_skipContents sink \<longrightarrow> alignable f) \<Longrightarrow>
   parse False sink n (of_comps ns) s (nar f @ r) = Some (Inr (putf ns f s, r))"
proof (induction n arbitrary: ns f s r)
  case (Suc n)
  note at = Suc.prems
  show ?case
  proof (cases f)
    case (Regular x c)
    then show ?thesis
      using parse_regular [OF at(1,2), of c x r] at(3,5)
      by (simp add: narMaxTag_def)
  next
    case (Symlink t)
    then show ?thesis
      using at(3) snk_link [OF at(1,2)] by (simp add: narMaxTag_def narMaxTarget_def nar_target_def)
  next
    case (Directory es)
    have node: "\<And>ns f s r. list_all valid_comp ns \<Longrightarrow> freef ns s \<Longrightarrow> valid_file f \<Longrightarrow> fits n f \<Longrightarrow>
      (crf_skipContents sink \<longrightarrow> alignable f) \<Longrightarrow>
      parse False sink n (of_comps ns) s (nar f @ r) = Some (Inr (putf ns f s, r))" by (rule Suc.IH)
    have "\<forall>e \<in> set es. [] < fst e"
      using at(3) Directory by (auto simp: nar_name_iff invalidName_def neq_Nil_conv)
    with parse_nar_entries [OF node at(1,2), where dn = "[]" and es = es and prev = "[]" and names = "[]" and r = r] at(3-5) Directory snk_dir [OF at(1,2)]
    show ?thesis by (simp add: narMaxTag_def nar_Directory del: nar.simps)
  qed
qed simp

end

section \<open>What parses is the serialisation of a tree\<close>

lemma num_read: "readLongLong s = Inr (n, r) \<Longrightarrow> s = writeNum n @ r"
  unfolding readLongLong_def by (drule num.enc_dec) simp

lemma writeString_nonempty: "writeString x \<noteq> []"
  using length_writeString [of x] by (metis list.size(3) not_numeral_le_zero)

context tree_sink
begin

lemma parseContents_read:
  assumes "list_all valid_comp ns" "freef ns s" "\<not> crf_skipContents sink"
    "parseContents sink (of_comps ns) (putf ns (Regular x []) s) str = Inr (s', r)"
  shows "\<exists>c. length c < 2 ^ 64 \<and> str = writeString c @ r \<and> s' = putf ns (Regular x c) s"
proof -
  obtain size s1 c s2 where a: "readLongLong str = Inr (size, s1)" "take_bytes (unat size) s1 = Inr (c, s2)"
    "readPadding (unat size) s2 = Inr ((), r)" "s' = putf ns (Regular x c) s"
    using assms(3,4) snk_prealloc [OF assms(1,2)] snk_write [OF assms(1,2)]
    by (auto simp: parseContents_def res_simps)
  have "unat size < 2 ^ 64" using unsigned_less [of size, where ?'a = nat] by simp
  then show ?thesis
    using a num_read [OF a(1)] padding.enc_dec [OF a(3)]
    by (intro exI [of _ c]) (simp add: take_bytes_Inr writeString_def)
qed

lemma parseRegular_read:
  assumes "list_all valid_comp ns" "freef ns s" "\<not> crf_skipContents sink"
    "parseRegular sink (of_comps ns) s str = Inr (s', r)"
  shows "\<exists>x c. length c < 2 ^ 64 \<and> s' = putf ns (Regular x c) s \<and>
    str = (if x then writeString ''executable'' @ writeString [] else []) @
      writeString ''contents'' @ writeString c @ writeString '')'' @ r"
proof -
  note s = snk_file [OF assms(1,2)] snk_exec [OF assms(1,2)]
  obtain tag s1 where t: "readString narMaxTag str = Inr (tag, s1)" using assms(4) s by (auto simp: parseRegular_def res_simps)
  show ?thesis
  proof (cases "tag = ''executable''")
    case True
    then obtain s2 s4 st2 s5 where a: "readString 0 s1 = Inr ([], s2)" "readString narMaxTag s2 = Inr (''contents'', s4)"
      "parseContents sink (of_comps ns) (putf ns (Regular True []) s) s4 = Inr (st2, s5)" "expectTag '')'' s5 = Inr ((), r)"
      "s' = st2"
      using assms(4) t s by (auto simp: parseRegular_def res_simps split: if_splits)
    from parseContents_read [OF assms(1-3) a(3)] obtain c where
      "length c < 2 ^ 64" "s4 = writeString c @ s5" "st2 = putf ns (Regular True c) s" by blast
    then show ?thesis
      using a t True by (intro exI [of _ True] exI [of _ c]) (simp add: readString_iff expectTag_iff)
  next
    case False
    then obtain st2 s5 where a: "tag = ''contents''"
      "parseContents sink (of_comps ns) (putf ns (Regular False []) s) s1 = Inr (st2, s5)" "expectTag '')'' s5 = Inr ((), r)"
      "s' = st2"
      using assms(4) t s by (auto simp: parseRegular_def res_simps split: if_splits)
    from parseContents_read [OF assms(1-3) a(2)] obtain c where
      "length c < 2 ^ 64" "s1 = writeString c @ s5" "st2 = putf ns (Regular False c) s" by blast
    then show ?thesis
      using a t by (intro exI [of _ False] exI [of _ c]) (simp add: readString_iff expectTag_iff)
  qed
qed

text \<open>A node parser that accepts only serialised trees.\<close>

definition reads_trees :: "nat \<Rightarrow> (CanonPath \<Rightarrow> 's \<Rightarrow> string \<Rightarrow> ('s \<times> string) res option) \<Rightarrow> bool" where
  "reads_trees n node = (\<forall>ns s str s' r. list_all valid_comp ns \<longrightarrow> freef ns s \<longrightarrow>
     node (of_comps ns) s str = Some (Inr (s', r)) \<longrightarrow>
     (\<exists>f. valid_file f \<and> fits n f \<and> s' = putf ns f s \<and> str = nar f @ r))"

lemma parse_entry_read:
  assumes "readString narMaxTag str = Inr (''entry'', s1)"
    "parse_entries node False (of_comps ns) prev names st str = Some (Inr (s', r))"
  shows "\<exists>k s2 path' st1 s4. nar_name k \<and> prev < k \<and> s1 = head_of k @ s2 \<and> push (of_comps ns) k = Inr path' \<and>
    node path' st s2 = Some (Inr (st1, writeString '')'' @ s4)) \<and>
    parse_entries node False (of_comps ns) k names st1 s4 = Some (Inr (s', r))"
  using assms(2) unfolding parse_entries.simps [of node _ _ _ _ _ str] assms(1)
  by (auto simp: res_simps expectTag_iff split: sum.splits option.splits dest!: parseEntryHead_read) blast

lemma parse_entries_read:
  assumes node: "reads_trees n node" and at: "list_all valid_comp ns" "freef ns s"
  shows "parse_entries node False (of_comps ns) prev names (putf ns (Directory dn) s) str = Some (Inr (s', r)) \<Longrightarrow>
    ordered dn \<Longrightarrow> \<forall>e \<in> set dn. fst e \<le> prev \<Longrightarrow>
    \<exists>es. s' = putf ns (Directory (dn @ es)) s \<and> str = concat (map nar_entry es) @ writeString '')'' @ r \<and>
      ordered (dn @ es) \<and> (\<forall>e \<in> set es. nar_name (fst e) \<and> valid_file (snd e) \<and> fits n (snd e))"
proof (induction "length str" arbitrary: str prev dn rule: less_induct)
  case less
  from less(2) obtain tag s1 where tag: "readString narMaxTag str = Inr (tag, s1)" "tag = '')'' \<or> tag = ''entry''"
    by (subst (asm) parse_entries.simps) (auto split: sum.splits if_splits)
  show ?case
  proof (cases "tag = '')''")
    case True
    with less(2) tag have "s' = putf ns (Directory dn) s" "r = s1" by (subst (asm) parse_entries.simps, simp)+
    then show ?thesis using tag less(3) True by (intro exI [of _ "[]"]) (simp add: readString_iff)
  next
    case False
    with tag have t: "readString narMaxTag str = Inr (''entry'', s1)" by simp
    from parse_entry_read [OF t less(2)] obtain k s2 path' st1 s4 where a:
      "nar_name k" "prev < k" "s1 = head_of k @ s2" "push (of_comps ns) k = Inr path'"
      "node path' (putf ns (Directory dn) s) s2 = Some (Inr (st1, writeString '')'' @ s4))"
      "parse_entries node False (of_comps ns) k names st1 s4 = Some (Inr (s', r))" by blast
    have vk: "valid_comp k" using a(1) by (simp add: nar_name_def)
    then have path': "path' = of_comps (ns @ [k])" using a(4) at(1) by (simp add: push_of_comps valid_comp_ok)
    have lt: "\<forall>k' \<in> fst ` set dn. k' < k" using less(4) a(2) by force
    then have new: "map_of dn k = None" by (force simp: map_of_eq_None_iff)
    have "list_all valid_comp (ns @ [k])" using at(1) vk by simp
    with node [unfolded reads_trees_def, rule_format, OF this snk_free [OF at(2) new] a(5) [unfolded path']] obtain f where
      f: "valid_file f" "fits n f" "st1 = putf (ns @ [k]) f (putf ns (Directory dn) s)" "s2 = nar f @ writeString '')'' @ s4"
      by blast
    then have st1: "st1 = putf ns (Directory (dn @ [(k, f)])) s" using snk_child [OF at(2) new] map_put_last [OF lt] by simp
    have str: "str = nar_entry (k, f) @ s4" using t a(3) f(4) by (simp add: readString_iff nar_entry_def head_of_def)
    have "length s4 < length str" using str by (simp add: nar_entry_def writeString_nonempty)
    moreover have "ordered (dn @ [(k, f)])" using less(3) lt by (simp add: ordered_snoc)
    moreover have "\<forall>e \<in> set (dn @ [(k, f)]). fst e \<le> k" using lt by (auto simp: less_imp_le)
    ultimately obtain es where "s' = putf ns (Directory ((dn @ [(k, f)]) @ es)) s"
      "s4 = concat (map nar_entry es) @ writeString '')'' @ r" "ordered ((dn @ [(k, f)]) @ es)"
      "\<forall>e \<in> set es. nar_name (fst e) \<and> valid_file (snd e) \<and> fits n (snd e)"
      using less(1) [of s4 k "dn @ [(k, f)]"] a(6) unfolding st1 by blast
    then show ?thesis using str a(1) f(1,2) by (intro exI [of _ "(k, f) # es"]) simp
  qed
qed

theorem parse_reads_trees: "\<not> crf_skipContents sink \<Longrightarrow> reads_trees n (parse False sink n)"
proof (induction n)
  case 0
  then show ?case by (simp add: reads_trees_def)
next
  case (Suc n)
  show ?case
    unfolding reads_trees_def
  proof (intro allI impI)
    fix ns s str s' r
    assume at: "list_all valid_comp ns" "freef ns s" and p: "parse False sink (Suc n) (of_comps ns) s str = Some (Inr (s', r))"
    from p obtain ty s3 where t: "bind_res (expectTag ''('' str) (\<lambda>(_, s1).
        bind_res (expectTag ''type'' s1) (\<lambda>(_, s2). readString narMaxTag s2)) = Inr (ty, s3)"
      unfolding parse.simps bind_ro_Inr_iff by auto
    have q: "parse False sink (Suc n) (of_comps ns) s str =
      (if ty = ''regular'' then Some (parseRegular sink (of_comps ns) s s3)
       else if ty = ''directory'' then
         bind_ro (Some (createDirectory sink (of_comps ns) s)) (\<lambda>st1.
           parse_entries (parse False sink n) False (of_comps ns) [] [] st1 s3)
       else if ty = ''symlink'' then
         Some (bind_res (expectTag ''target'' s3) (\<lambda>(_, s4).
               bind_res (readString narMaxTarget s4) (\<lambda>(target, s5).
                 if target = [] \<or> CHR 0x00 \<in> set target then Inl (badArchive ''NAR contains invalid symlink target'')
                 else
                   bind_res (createSymlink sink (of_comps ns) target s) (\<lambda>st1.
                   bind_res (expectTag '')'' s5) (\<lambda>(_, s6). Inr (st1, s6))))))
       else Some (Inl (badArchive ''unknown file type '%s'.'')))"
      unfolding parse.simps t by simp
    have ty: "str = writeString ''('' @ writeString ''type'' @ writeString ty @ s3"
      "ty = ''regular'' \<or> ty = ''directory'' \<or> ty = ''symlink''"
      using t p [unfolded q] by (auto simp: res_simps expectTag_iff readString_iff split: if_splits)
    from ty(2) show "\<exists>f. valid_file f \<and> fits (Suc n) f \<and> s' = putf ns f s \<and> str = nar f @ r"
    proof (elim disjE)
      assume t: "ty = ''regular''"
      with p [unfolded q] have "parseRegular sink (of_comps ns) s s3 = Inr (s', r)" by simp
      from parseRegular_read [OF at Suc.prems this] ty(1) t show ?thesis
        by (metis append.assoc fits.simps(3) nar.simps(1) valid_file.simps(1))
    next
      assume t: "ty = ''symlink''"
      with p [unfolded q] obtain target where "nar_target target" "s' = putf ns (Symlink target) s"
        "s3 = writeString ''target'' @ writeString target @ writeString '')'' @ r"
        using snk_link [OF at]
        by (auto simp: narMaxTarget_def res_simps expectTag_iff readString_iff nar_target_def split: if_splits)
      with ty(1) t show ?thesis by (intro exI [of _ "Symlink target"]) simp
    next
      assume t: "ty = ''directory''"
      with p [unfolded q] snk_dir [OF at] have
        "parse_entries (parse False sink n) False (of_comps ns) [] [] (putf ns (Directory []) s) s3 = Some (Inr (s', r))"
        by simp
      from parse_entries_read [OF Suc.IH [OF Suc.prems] at this] obtain es where
        "s' = putf ns (Directory es) s" "s3 = concat (map nar_entry es) @ writeString '')'' @ r" "ordered es"
        "\<forall>e \<in> set es. nar_name (fst e) \<and> valid_file (snd e) \<and> fits n (snd e)" by auto
      with ty(1) t show ?thesis
        by (intro exI [of _ "Directory es"]) (simp add: nar_Directory del: nar.simps)
    qed
  qed
qed

end


lemma fits_numeral [simp]:
  "fits (numeral k) f = (case f of Directory es \<Rightarrow> \<forall>e \<in> set es. fits (pred_numeral k) (snd e) | _ \<Rightarrow> True)"
  by (cases f) (simp_all add: numeral_eq_Suc)

lemma narMaxDepth_Suc: "narMaxDepth = Suc 63"
  by (simp add: narMaxDepth_def)

lemma parse_root_regular:
  "parse h sink narMaxDepth p st (writeString ''('' @ writeString ''type'' @ writeString ''regular'' @ s) =
   Some (parseRegular sink p st s)"
  unfolding narMaxDepth_Suc parse.simps by (simp add: narMaxTag_def)

section \<open>Properties\<close>

lemma magic_bounds [simp]: "length narVersionMagic1 < 2 ^ 64" "length narVersionMagic1 < 18446744073709551616"
  by (simp_all add: narVersionMagic1_def)

lemma parseDump_nar:
  "parseDump h sink st (writeString narVersionMagic1 @ s) = parse h sink narMaxDepth root st s"
  by (simp add: parseDump_def)

lemma parseDump_read:
  "parseDump h sink st s = Some (Inr (st', r)) \<Longrightarrow>
   \<exists>s1. s = writeString narVersionMagic1 @ s1 \<and> parse h sink narMaxDepth root st s1 = Some (Inr (st', r))"
  by (auto simp: parseDump_def readString_iff narVersionMagic1_def split: sum.splits nix_error.splits if_splits)

lemma parse_memory:
  assumes "valid_file f" "fits narMaxDepth f"
  shows "parseDump False MemorySink None (writeString narVersionMagic1 @ nar f @ r) = Some (Inr (Some f, r))"
  using memsink.parse_nar [of "[]" None f narMaxDepth r] assms
  by (simp add: parseDump_nar root_of_comps free_def put_def MemorySink_def)

lemma parse_memory_read:
  assumes "parseDump False MemorySink None s = Some (Inr (st, r))"
  shows "\<exists>f. valid_file f \<and> fits narMaxDepth f \<and> st = Some f \<and> s = writeString narVersionMagic1 @ nar f @ r"
proof -
  obtain s1 where s1: "s = writeString narVersionMagic1 @ s1"
    "parse False MemorySink narMaxDepth (of_comps []) None s1 = Some (Inr (st, r))"
    using parseDump_read [OF assms] unfolding root_of_comps by blast
  have "\<not> crf_skipContents MemorySink" by (simp add: MemorySink_def)
  from memsink.parse_reads_trees [OF this, unfolded memsink.reads_trees_def, rule_format, OF _ _ s1(2)] s1(1)
  show ?thesis by (auto simp: free_def put_def)
qed

lemma dump_memory:
  assumes "valid_file f"
  shows "dumpPath False filt (MemorySourceAccessor (Some f)) root =
    (if fits narMaxDepth (prune filt [] f) then Inr (writeString narVersionMagic1 @ nar (prune filt [] f))
     else Inl depth_error)"
  using mem.dump_tree [of "[]" "[]" f f filt narMaxDepth] assms
  by (simp add: dumpPath_def root_of_comps)

text \<open>C27: The archive of an in-memory tree with a filter is the documented serialisation of the tree without
  the rejected entries, and the only error is a depth of \<open>narMaxDepth\<close> or more.\<close>

theorem dumpPath_refines_nar:
  assumes "valid_file f"
  shows "dumpPath False filt (MemorySourceAccessor (Some f)) root =
    (if fits 64 (prune filt [] f) then Inr (writeString narVersionMagic1 @ nar (prune filt [] f))
     else Inl depth_error)"
  using dump_memory [OF assms] by (simp add: narMaxDepth_def)

definition example :: File where
  "example = Directory [(''a'', Regular True ''x''), (''b'', Symlink ''a'')]"

lemma valid_example: "valid_file example" "fits narMaxDepth example"
proof -
  show "valid_file example"
    by (simp add: example_def nar_name_def nar_target_def valid_comp_def comp_ok_def)
  show "fits narMaxDepth example" by (simp add: example_def narMaxDepth_def)
qed

theorem dumpPath_refines_nar_witness:
  "\<exists>d. dumpPath False (\<lambda>p. p \<noteq> ''/b'') (MemorySourceAccessor (Some example)) root = Inr d \<and>
    d = writeString narVersionMagic1 @ nar (Directory [(''a'', Regular True ''x'')])"
proof -
  have "fits 64 (prune (\<lambda>p. p \<noteq> ''/b'') [] example)" by (simp add: example_def rend_root_def)
  moreover have "prune (\<lambda>p. p \<noteq> ''/b'') [] example = Directory [(''a'', Regular True ''x'')]"
    by (simp add: example_def rend_root_def)
  ultimately show ?thesis
    using dumpPath_refines_nar [OF valid_example(1), of "\<lambda>p. p \<noteq> ''/b''"] by simp
qed

text \<open>C2: Unpacking what was packed gives the tree back, and leaves what follows the archive.\<close>

theorem nar_roundtrip:
  assumes "valid_file f" "dumpPath False (\<lambda>_. True) (MemorySourceAccessor (Some f)) root = Inr s"
  shows "parseDump False MemorySink None (s @ r) = Some (Inr (Some f, r))"
proof -
  have "prune (\<lambda>_. True) fs f = f" for fs
    by (induction f arbitrary: fs) (force intro!: map_idI)+
  with dump_memory [OF assms(1), of "\<lambda>_. True"] assms(2)
  have "fits narMaxDepth f" "s = writeString narVersionMagic1 @ nar f" by (auto split: if_splits)
  with parse_memory [OF assms(1)] show ?thesis by simp
qed

theorem nar_roundtrip_witness:
  "\<exists>s. dumpPath False (\<lambda>_. True) (MemorySourceAccessor (Some example)) root = Inr s \<and>
     parseDump False MemorySink None (s @ ''rest'') = Some (Inr (Some example, ''rest''))"
proof -
  have "prune (\<lambda>_. True) [] example = example" by (simp add: example_def)
  then obtain s where s: "dumpPath False (\<lambda>_. True) (MemorySourceAccessor (Some example)) root = Inr s"
    using dump_memory [OF valid_example(1), of "\<lambda>_. True"] valid_example(2) by simp
  from nar_roundtrip [OF valid_example(1) s] s show ?thesis by blast
qed

text \<open>C1: The format is canonical: what unpacks is exactly the archive of the tree it unpacks to, so no two
  different archives unpack to the same tree.\<close>

theorem nar_canonical:
  assumes "parseDump False MemorySink None s = Some (Inr (st, r))"
  shows "\<exists>f d. st = Some f \<and> valid_file f \<and>
    dumpPath False (\<lambda>_. True) (MemorySourceAccessor st) root = Inr d \<and> s = d @ r"
proof -
  obtain f where f: "valid_file f" "fits narMaxDepth f" "st = Some f" "s = writeString narVersionMagic1 @ nar f @ r"
    using parse_memory_read [OF assms] by blast
  have "prune (\<lambda>_. True) fs f = f" for fs
    by (induction f arbitrary: fs) (force intro!: map_idI)+
  with dump_memory [OF f(1), of "\<lambda>_. True"] f show ?thesis by simp
qed

theorem nar_canonical_witness:
  "\<exists>d. dumpPath False (\<lambda>_. True) (MemorySourceAccessor (Some example)) root = Inr d \<and>
     d = writeString narVersionMagic1 @ nar example"
  using nar_canonical [OF parse_memory [OF valid_example, of "[]"]] by simp

text \<open>C28: Parsing returns for every input, every sink and both settings of the case hack.\<close>

theorem parseDump_returns: "parseDump useCaseHack sink st s \<noteq> None"
proof -
  have "parse useCaseHack sink narMaxDepth root st s1 \<noteq> None" for s1
    using parse_returns [of useCaseHack sink narMaxDepth] unfolding returns_def by blast
  then show ?thesis by (auto simp: parseDump_def bind_ro_None_iff simp del: not_None_eq)
qed

text \<open>C34: \<open>copyNAR\<close> forwards exactly the archive and consumes nothing more, but it skips the padding of file
  contents without looking at it: an archive with any padding passes, while unpacking refuses it.\<close>

theorem copyNAR_padding:
  assumes "length c \<le> 2 ^ 64 - 8" "length pad = length (writePadding (length c))"
    and s: "s = writeString narVersionMagic1 @ writeString ''('' @ writeString ''type'' @ writeString ''regular'' @
      writeString ''contents'' @ writeNum (of_nat (length c)) @ c @ pad @ writeString '')''"
  shows "copyNAR False (s @ r) = Some (Inr (s, r)) \<and>
    (pad \<noteq> writePadding (length c) \<longrightarrow> (\<exists>e. parseDump False MemorySink None (s @ r) = Some (Inl e)))"
proof
  obtain m where m: "alignUp (of_nat (length c)) 8 = Inr m" "unat m = (length c + 7) div 8 * 8"
    using alignUp_8 assms(1) by blast
  have "take_bytes (unat m) ((c @ pad) @ t) = Inr (c @ pad, t)" for t
    by (rule take_bytes_append) (use length_padded [of c] assms(2) m(2) in simp)
  then have "parseContents NullFileSystemObjectSink root () (writeNum (of_nat (length c)) @ c @ pad @ t) = Inr ((), t)" for t
    using m(1) by (simp add: parseContents_def NullFileSystemObjectSink_def)
  then have "parseRegular NullFileSystemObjectSink root ()
      (writeString ''contents'' @ writeNum (of_nat (length c)) @ c @ pad @ writeString '')'' @ r) = Inr ((), r)"
    by (simp add: parseRegular_def narMaxTag_def NullFileSystemObjectSink_def)
  then have "parseDump False NullFileSystemObjectSink () (s @ r) = Some (Inr ((), r))"
    unfolding s append_assoc parseDump_nar parse_root_regular by simp
  then show "copyNAR False (s @ r) = Some (Inr (s, r))" by (simp add: copyNAR_def)
  show "pad \<noteq> writePadding (length c) \<longrightarrow> (\<exists>e. parseDump False MemorySink None (s @ r) = Some (Inl e))"
  proof
    assume pad: "pad \<noteq> writePadding (length c)"
    have u: "unat (of_nat (length c) :: u64) = length c" using assms(1) by (simp add: unat_of_nat)
    obtain e where e: "readPadding (length c) (pad @ writeString '')'' @ r) = Inl e"
    proof (cases "readPadding (length c) (pad @ writeString '')'' @ r)")
      case (Inr x)
      then have "pad @ writeString '')'' @ r = writePadding (length c) @ snd x" using padding.enc_dec by (metis prod.collapse)
      then have "pad = writePadding (length c)" using assms(2) by (simp add: append_eq_append_conv)
      with pad show ?thesis by simp
    qed (use that in blast)
    have f: "free [] None" by (simp add: free_def)
    have k: "\<not> crf_skipContents MemorySink" by (simp add: MemorySink_def)
    have "parseContents MemorySink root (put [] (Regular False []) None)
        (writeNum (of_nat (length c)) @ c @ pad @ writeString '')'' @ r) = Inl e"
      using memsink.snk_prealloc [OF _ f] memsink.snk_write [OF _ f]
      by (simp add: parseContents_def k u e root_of_comps)
    then have "parseRegular MemorySink root None
        (writeString ''contents'' @ writeNum (of_nat (length c)) @ c @ pad @ writeString '')'' @ r) = Inl e"
      using memsink.snk_file [OF _ f] by (simp add: parseRegular_def narMaxTag_def root_of_comps)
    then show "\<exists>e. parseDump False MemorySink None (s @ r) = Some (Inl e)"
      unfolding s append_assoc parseDump_nar parse_root_regular by simp
  qed
qed

theorem copyNAR_padding_witness:
  "\<exists>s e. copyNAR False s = Some (Inr (s, [])) \<and> parseDump False MemorySink None s = Some (Inl e)"
proof -
  have r: "(''xxxxx'' = replicate 5 (CHR 0x00)) = False" by code_simp
  show ?thesis
    using copyNAR_padding [of "''abc''" "''xxxxx''" _ "[]", OF _ _ refl] by (auto simp: writePadding_def r)
qed

text \<open>With the case hack, the check for a collision with a hacked name looks only at the names seen before,
  and the hacked name itself is not recorded: a later entry with that very name gets it a second time.\<close>

lemma hack_name_repeats:
  "hack_name True ''a'' [(''a'', 0)] = Inr (''a~nix~case~hack~1'', [(''a'', 1)]) \<and>
   hack_name True ''a~nix~case~hack~1'' [(''a'', 1)] =
     Inr (''a~nix~case~hack~1'', [(''a'', 1), (''a~nix~case~hack~1'', 0)])"
  by code_simp

lemma dumpString_nar: "dumpString s = writeString narVersionMagic1 @ nar (Regular False s)"
  by (simp add: dumpString_def)

end
