(* ===== verification/Derivation_ATerm.thy ===== *)
theory Derivation_ATerm
  imports Content_Address Std_Map
begin

text \<open>
  Derivations and their textual (ATerm) format: \<open>derivations.hh\<close>, the parser and the printer of
  \<open>derivations.cc\<close>, \<open>derived-path-map.hh\<close> and \<open>StructuredAttrs\<close> of \<open>parsed-derivations.cc\<close>, all in
  \<open>src/src/libstore\<close>.

  \<open>StoreDirConfig\<close> collects what the code reads from its surroundings: the digest functions, the
  enabled experimental features, the store directory, and the JSON library behind structured
  attributes (parsing and \<open>dump\<close>), whose values have the type \<open>'j\<close>. A \<open>'a stream\<close> parser takes the
  remaining text (\<open>StringViewStream\<close>); \<open>None\<close> is a loop that does not end or exhausted fuel, neither of
  which happens (\<open>parseDerivation_returns\<close>). Chunked buffering of the printer is left out.
\<close>

section \<open>Data\<close>

instantiation StorePath :: linorder
begin

definition less_eq_StorePath :: "StorePath \<Rightarrow> StorePath \<Rightarrow> bool" where
  "less_eq_StorePath p q = (base p \<le> base q)"

definition less_StorePath :: "StorePath \<Rightarrow> StorePath \<Rightarrow> bool" where
  "less_StorePath p q = (base p < base q)"

instance
  by standard (auto simp: less_eq_StorePath_def less_StorePath_def StorePath.expand)

end

datatype DerivationOutput =
    InputAddressed StorePath
  | CAFixed ContentAddress
  | CAFloating CAMethod HashAlgorithm
  | Deferred
  | Impure CAMethod HashAlgorithm

text \<open>\<open>DerivedPathMap<StringSet>::ChildNode\<close>: \<open>value\<close> and \<open>childMap\<close>.\<close>

datatype ChildNode = ChildNode (node_value: "string list") (childMap: "(string \<times> ChildNode) list")

record 'j BasicDerivation =
  outputs :: "(string \<times> DerivationOutput) list"
  inputSrcs :: "StorePath list"
  platform :: string
  builder :: string
  drv_args :: "string list"
  drv_env :: "(string \<times> string) list"
  structuredAttrs :: "'j option"
  drv_name :: string

record 'j Derivation = "'j BasicDerivation" +
  inputDrvs :: "(StorePath \<times> ChildNode) list"

record 'j StoreDirConfig =
  sd_digest :: digest_fun
  sd_xp :: xp_settings
  sd_dir :: string
  sd_json_parse :: "string \<Rightarrow> 'j res"
  sd_json_dump :: "'j \<Rightarrow> string"

section \<open>Structured attributes\<close>

definition envVarName :: string where "envVarName = ''__json''"

definition sa_parse :: "'j StoreDirConfig \<Rightarrow> string \<Rightarrow> 'j res" where
  "sa_parse sd encoded =
     (case sd_json_parse sd encoded of
        Inr j \<Rightarrow> Inr j
      | Inl _ \<Rightarrow> Inl (NixError Error ''cannot process %s attribute: %s''))"

definition sa_unparse :: "'j StoreDirConfig \<Rightarrow> 'j \<Rightarrow> string \<times> string" where
  "sa_unparse sd j = (envVarName, sd_json_dump sd j)"

definition tryExtract :: "'j StoreDirConfig \<Rightarrow> (string \<times> string) list \<Rightarrow> ('j option \<times> (string \<times> string) list) res" where
  "tryExtract sd env =
     (case map_of env envVarName of
        Some encoded \<Rightarrow> bind_res (sa_parse sd encoded) (\<lambda>j. Inr (Some j, map_erase envVarName env))
      | None \<Rightarrow> Inr (None, env))"

definition checkKeyNotInUse :: "(string \<times> string) list \<Rightarrow> unit res" where
  "checkKeyNotInUse env =
     throw_if (map_of env envVarName \<noteq> None) Error
       ''Cannot have an environment variable named '__json'. This key is reserved for encoding structured attrs''"

section \<open>Parsing\<close>

type_synonym 'a stream = "string \<Rightarrow> ('a \<times> string) res option"

definition bindP :: "'a stream \<Rightarrow> ('a \<Rightarrow> 'b stream) \<Rightarrow> 'b stream" where
  "bindP m f s = bind_ro (m s) (\<lambda>(x, s1). f x s1)"

definition retP :: "'a \<Rightarrow> 'a stream" where "retP x s = Some (Inr (x, s))"

definition liftP :: "'a res option \<Rightarrow> 'a stream" where
  "liftP r s = bind_ro r (\<lambda>x. Some (Inr (x, s)))"

definition failP :: "string \<Rightarrow> 'a stream" where "failP m s = Some (Inl (NixError FormatError m))"

definition dq :: char where "dq = CHR 0x22"
definition bsl :: char where "bsl = CHR 0x5C"

definition escapes :: "char \<Rightarrow> char" where
  "escapes c = (if c = CHR ''n'' then CHR 0x0A else if c = CHR ''r'' then CHR 0x0D
                else if c = CHR ''t'' then CHR 0x09 else c)"

definition expect :: "string \<Rightarrow> unit stream" where
  "expect e s =
     (if take (length e) s \<noteq> e then Some (Inl (NixError FormatError ''expected string '%1%'.''))
      else Some (Inr ((), drop (length e) s)))"

text \<open>\<open>find(c, start)\<close>, and the number of backslashes that end at a position.\<close>

definition find_char :: "char \<Rightarrow> string \<Rightarrow> nat \<Rightarrow> nat option" where
  "find_char c s start =
     (let k = length (takeWhile (\<lambda>x. x \<noteq> c) (drop start s))
      in if start + k < length s then Some (start + k) else None)"

definition backslashes :: "string \<Rightarrow> nat \<Rightarrow> nat" where
  "backslashes s idx = length (takeWhile (\<lambda>c. c = bsl) (rev (take idx s)))"

lemma find_char_Some:
  "find_char c s start = Some idx \<Longrightarrow> start \<le> idx \<and> idx < length s \<and> s ! idx = c \<and> (\<forall>m. start \<le> m \<longrightarrow> m < idx \<longrightarrow> s ! m \<noteq> c)"
proof -
  assume a: "find_char c s start = Some idx"
  let ?t = "takeWhile (\<lambda>x. x \<noteq> c) (drop start s)"
  have i: "idx = start + length ?t" "idx < length s" using a by (auto simp: find_char_def Let_def split: if_splits)
  then have l: "length ?t < length (drop start s)" by simp
  from nth_length_takeWhile [OF l] have "drop start s ! length ?t = c" by simp
  then have "s ! idx = c" using i l by simp
  moreover have "s ! m \<noteq> c" if "start \<le> m" "m < idx" for m
  proof -
    have lt: "m - start < length ?t" using that i by simp
    have "?t ! (m - start) = drop start s ! (m - start)" using lt by (rule takeWhile_nth)
    moreover have "?t ! (m - start) \<in> set ?t" using lt by (rule nth_mem)
    ultimately have "drop start s ! (m - start) \<noteq> c" by (metis set_takeWhileD)
    then show ?thesis using that i l by simp
  qed
  ultimately show ?thesis using i by simp
qed

function find_close :: "string \<Rightarrow> nat \<Rightarrow> nat option" where
  "find_close s start =
     (if start < length s then
        (case find_char dq s start of
           None \<Rightarrow> None
         | Some idx \<Rightarrow> if even (backslashes s idx) then Some idx else find_close s (idx + 1))
      else None)"
  by pat_completeness auto
termination
  by (relation "measure (\<lambda>(s, start). length s - start)") (auto dest: find_char_Some)

declare find_close.simps [simp del]

text \<open>The loop that replaces escapes, character by character.\<close>

fun unescape :: "string \<Rightarrow> string res" where
  "unescape [] = Inr []"
| "unescape [c] =
     (if c = bsl then Inl (NixError FormatError ''unterminated string in derivation'') else Inr [c])"
| "unescape (c # d # cs) =
     (if c = bsl then bind_res (unescape cs) (\<lambda>r. Inr (escapes d # r))
      else bind_res (unescape (d # cs)) (\<lambda>r. Inr (c # r)))"

definition parseString :: "string stream" where
  "parseString =
     bindP (expect [dq]) (\<lambda>_ s.
       case find_close s 0 of
         None \<Rightarrow> Some (Inl (NixError FormatError ''unterminated string in derivation''))
       | Some e \<Rightarrow>
           let cnt = take e s; rest = drop (e + 1) s in
           if bsl \<notin> set cnt then Some (Inr (cnt, rest))
           else Some (bind_res (unescape cnt) (\<lambda>r. Inr (r, rest))))"

definition validatePath :: "string \<Rightarrow> unit res" where
  "validatePath s = throw_if (length s = 0 \<or> hd s \<noteq> slash) FormatError ''bad path '%1%' in derivation''"

definition parsePath :: "string stream" where
  "parsePath = bindP parseString (\<lambda>s. bindP (liftP (Some (validatePath s))) (\<lambda>_. retP s))"

definition peek :: "string \<Rightarrow> char option" where
  "peek s = (case s of [] \<Rightarrow> None | c # _ \<Rightarrow> Some c)"

definition endOfList :: "string \<Rightarrow> bool \<times> string" where
  "endOfList s =
     (if peek s = Some (CHR '','') then (False, drop 1 s)
      else if peek s = Some (CHR '']'') then (True, drop 1 s)
      else (False, s))"

text \<open>\<open>while (!endOfList(str)) ...\<close>: the body reads an element, \<open>add\<close> stores it.\<close>

partial_function (option) list_loop :: "'a stream \<Rightarrow> ('a \<Rightarrow> 'b \<Rightarrow> 'b) \<Rightarrow> 'b \<Rightarrow> 'b stream" where
  "list_loop body add acc s =
     (if fst (endOfList s) then Some (Inr (acc, snd (endOfList s)))
      else case body (snd (endOfList s)) of
        None \<Rightarrow> None
      | Some (Inl e) \<Rightarrow> Some (Inl e)
      | Some (Inr (x, s1)) \<Rightarrow> list_loop body add (add x acc) s1)"

declare list_loop.simps [code]

definition parseStrings :: "bool \<Rightarrow> string list stream" where
  "parseStrings arePaths =
     bindP (expect ''['') (\<lambda>_. list_loop (if arePaths then parsePath else parseString) set_put [])"

definition parseDerivationOutput_fields ::
    "'j StoreDirConfig \<Rightarrow> string \<Rightarrow> string \<Rightarrow> string \<Rightarrow> DerivationOutput res option" where
  "parseDerivationOutput_fields sd pathS hashAlgoStr hashS =
     (if hashAlgoStr \<noteq> [] then
        bind_ro (Some (parsePrefix (sd_xp sd) hashAlgoStr)) (\<lambda>(m, algoStr).
        bind_ro (Some (if m = Text then require (sd_xp sd) DynamicDerivations else Inr ())) (\<lambda>_.
        bind_ro (Some (parseHashAlgo (sd_xp sd) algoStr)) (\<lambda>hashAlgo.
          if hashS = ''impure'' then
            bind_ro (Some (require (sd_xp sd) ImpureDerivations)) (\<lambda>_.
            bind_ro (Some (throw_if (pathS \<noteq> []) FormatError
              ''impure derivation output should not specify output path'')) (\<lambda>_. Some (Inr (Impure m hashAlgo))))
          else if hashS \<noteq> [] then
            bind_ro (Some (validatePath pathS)) (\<lambda>_.
            bind_ro (Some (parseNonSRIUnprefixed (sd_xp sd) hashS hashAlgo)) (\<lambda>h.
              Some (Inr (CAFixed \<lparr>ca_method = m, ca_hash = h\<rparr>))))
          else
            bind_ro (Some (require (sd_xp sd) CaDerivations)) (\<lambda>_.
            bind_ro (Some (throw_if (pathS \<noteq> []) FormatError
              ''content-addressing derivation output should not specify output path'')) (\<lambda>_.
              Some (Inr (CAFloating m hashAlgo)))))))
      else if pathS = [] then Some (Inr Deferred)
      else
        bind_ro (Some (validatePath pathS)) (\<lambda>_.
        bind_ro (parseStorePath (sd_dir sd) pathS) (\<lambda>p. Some (Inr (InputAddressed p)))))"

definition parseDerivationOutput :: "'j StoreDirConfig \<Rightarrow> DerivationOutput stream" where
  "parseDerivationOutput sd =
     bindP (expect '','') (\<lambda>_. bindP parseString (\<lambda>pathS.
     bindP (expect '','') (\<lambda>_. bindP parseString (\<lambda>hashAlgo.
     bindP (expect '','') (\<lambda>_. bindP parseString (\<lambda>h.
     bindP (expect '')'') (\<lambda>_. liftP (parseDerivationOutput_fields sd pathS hashAlgo h))))))))"

datatype DerivationATermVersion = Traditional | DynDrv

text \<open>\<open>fuel\<close> bounds the nesting; the length of the text is always enough.\<close>

fun parseDerivedPathMapNode :: "nat \<Rightarrow> DerivationATermVersion \<Rightarrow> ChildNode stream" where
  "parseDerivedPathMapNode 0 ver s = None"
| "parseDerivedPathMapNode (Suc fuel) ver s =
     (if ver = Traditional \<or> peek s = Some (CHR ''['')
      then bindP (parseStrings False) (\<lambda>v. retP (ChildNode v [])) s
      else if peek s = Some (CHR ''('') then
        bindP (expect ''('') (\<lambda>_. bindP (parseStrings False) (\<lambda>v.
        bindP (expect '',['') (\<lambda>_.
        bindP (list_loop
            (bindP (expect ''('') (\<lambda>_. bindP parseString (\<lambda>outputName.
             bindP (expect '','') (\<lambda>_. bindP (parseDerivedPathMapNode fuel ver) (\<lambda>node.
             bindP (expect '')'') (\<lambda>_. retP (outputName, node)))))))
            (\<lambda>(n, c). map_put n c) []) (\<lambda>m.
        bindP (expect '')'') (\<lambda>_. retP (ChildNode v m)))))) s
      else failP ''invalid inputDrvs entry in derivation'' s)"

definition parseStorePathSet :: "string \<Rightarrow> string list \<Rightarrow> StorePath list res option" where
  "parseStorePathSet storeDir paths =
     fold_ro (\<lambda>i res. bind_ro (parseStorePath storeDir i) (\<lambda>p. Some (Inr (set_put p res)))) paths []"

definition parseVersion :: "'j StoreDirConfig \<Rightarrow> DerivationATermVersion stream" where
  "parseVersion sd =
     bindP (expect ''D'') (\<lambda>_ s.
       if peek s = Some (CHR ''e'') then bindP (expect ''erive('') (\<lambda>_. retP Traditional) s
       else if peek s = Some (CHR ''r'') then
         bindP (expect ''rvWithVersion('') (\<lambda>_. bindP parseString (\<lambda>versionS.
           if versionS = ''xp-dyn-drv'' then
             bindP (liftP (Some (require (sd_xp sd) DynamicDerivations))) (\<lambda>_.
             bindP (expect '','') (\<lambda>_. retP DynDrv))
           else failP ''Unknown derivation ATerm format version '%s'.'')) s
       else Some (Inl (NixError Error ''derivation does not start with 'Derive' or 'DrvWithVersion'.'')))"

definition parseEnv :: "'j StoreDirConfig \<Rightarrow> (string \<times> string + 'j) stream" where
  "parseEnv sd =
     bindP (expect ''('') (\<lambda>_. bindP parseString (\<lambda>name.
     bindP (expect '','') (\<lambda>_. bindP parseString (\<lambda>v.
     bindP (if name = envVarName then bindP (liftP (Some (sa_parse sd v))) (\<lambda>j. retP (Inr j)) else retP (Inl (name, v)))
       (\<lambda>r. bindP (expect '')'') (\<lambda>_. retP r))))))"

definition add_env :: "string \<times> string + 'j \<Rightarrow> (string \<times> string) list \<times> 'j option \<Rightarrow> (string \<times> string) list \<times> 'j option" where
  "add_env r acc = (case r of Inl (n, v) \<Rightarrow> (map_put n v (fst acc), snd acc) | Inr j \<Rightarrow> (fst acc, Some j))"

definition parseOutputEntry :: "'j StoreDirConfig \<Rightarrow> (string \<times> DerivationOutput) stream" where
  "parseOutputEntry sd =
     bindP (expect ''('') (\<lambda>_. bindP parseString (\<lambda>i.
     bindP (parseDerivationOutput sd) (\<lambda>output. retP (i, output))))"

definition parseInputEntry :: "'j StoreDirConfig \<Rightarrow> nat \<Rightarrow> DerivationATermVersion \<Rightarrow> (StorePath \<times> ChildNode) stream" where
  "parseInputEntry sd fuel ver =
     bindP (expect ''('') (\<lambda>_. bindP parsePath (\<lambda>drvPath.
     bindP (expect '','') (\<lambda>_. bindP (liftP (parseStorePath (sd_dir sd) drvPath)) (\<lambda>p.
     bindP (parseDerivedPathMapNode fuel ver) (\<lambda>node. bindP (expect '')'') (\<lambda>_. retP (p, node)))))))"

definition parseDerivation :: "'j StoreDirConfig \<Rightarrow> string \<Rightarrow> string \<Rightarrow> 'j Derivation res option" where
  "parseDerivation sd s name =
     bind_ro
       ((bindP (parseVersion sd) (\<lambda>ver.
         bindP (expect ''['') (\<lambda>_. bindP (list_loop (parseOutputEntry sd) (\<lambda>(i, out) m. fst (map_emplace i out m)) []) (\<lambda>outs.
         bindP (expect '',['') (\<lambda>_. bindP (list_loop (parseInputEntry sd (length s) ver) (\<lambda>(p, n). map_put p n) []) (\<lambda>drvs.
         bindP (expect '','') (\<lambda>_. bindP (parseStrings True) (\<lambda>srcStrings.
         bindP (liftP (parseStorePathSet (sd_dir sd) srcStrings)) (\<lambda>srcs.
         bindP (expect '','') (\<lambda>_. bindP parseString (\<lambda>plat.
         bindP (expect '','') (\<lambda>_. bindP parseString (\<lambda>bld.
         bindP (expect '',['') (\<lambda>_. bindP (list_loop parseString (\<lambda>a as. as @ [a]) []) (\<lambda>args.
         bindP (expect '',['') (\<lambda>_. bindP (list_loop (parseEnv sd) add_env ([], None)) (\<lambda>env.
         bindP (expect '')'') (\<lambda>_.
           retP \<lparr>outputs = outs, inputSrcs = srcs, platform = plat, builder = bld, drv_args = args,
                 drv_env = fst env, structuredAttrs = snd env, drv_name = name, inputDrvs = drvs\<rparr>)))))))))))))))))) s)
       (\<lambda>(drv, _). Some (Inr drv))"

section \<open>Printing\<close>

definition escape_char :: "char \<Rightarrow> string" where
  "escape_char c =
     (if c = dq \<or> c = bsl then [bsl, c]
      else if c = CHR 0x0A then [bsl, CHR ''n'']
      else if c = CHR 0x0D then [bsl, CHR ''r'']
      else if c = CHR 0x09 then [bsl, CHR ''t'']
      else [c])"

definition printString :: "string \<Rightarrow> string" where
  "printString s = [dq] @ concat (map escape_char s) @ [dq]"

definition printUnquotedString :: "string \<Rightarrow> string" where
  "printUnquotedString s = [dq] @ s @ [dq]"

text \<open>The elements, with a comma before each but the \<open>first\<close>.\<close>

fun commas :: "string list \<Rightarrow> string" where
  "commas [] = []"
| "commas (x # xs) = x @ concat (map (\<lambda>y. '','' @ y) xs)"

definition printStrings :: "string list \<Rightarrow> string" where
  "printStrings ss = ''['' @ commas (map printString ss) @ '']''"

definition printUnquotedStrings :: "string list \<Rightarrow> string" where
  "printUnquotedStrings ss = ''['' @ commas (map printUnquotedString ss) @ '']''"

fun unparseDerivedPathMapNode :: "ChildNode \<Rightarrow> string" where
  "unparseDerivedPathMapNode (ChildNode v m) =
     '','' @
     (if m = [] then printUnquotedStrings v
      else ''('' @ printUnquotedStrings v @ '',['' @
        commas (map (\<lambda>e. ''('' @ printUnquotedString (fst e) @ unparseDerivedPathMapNode (snd e) @ '')'') m) @ ''])'')"

definition hasDynamicDrvDep :: "'j Derivation \<Rightarrow> bool" where
  "hasDynamicDrvDep drv = list_ex (\<lambda>kv. childMap (snd kv) \<noteq> []) (inputDrvs drv)"

text \<open>The fields of an output after its name: path, method and algorithm, hash.\<close>

definition caFixed_path :: "'j StoreDirConfig \<Rightarrow> string \<Rightarrow> string \<Rightarrow> ContentAddress \<Rightarrow> StorePath res" where
  "caFixed_path sd drvName outputName ca =
     makeFixedOutputPathFromCA (sd_digest sd) (sd_xp sd) (sd_dir sd) (outputPathName drvName outputName) (withoutRefs ca)"

definition output_path :: "'j StoreDirConfig \<Rightarrow> string \<Rightarrow> string \<Rightarrow> DerivationOutput \<Rightarrow> StorePath option res" where
  "output_path sd drvName outputName out =
     (case out of
        InputAddressed p \<Rightarrow> Inr (Some p)
      | CAFixed ca \<Rightarrow> bind_res (caFixed_path sd drvName outputName ca) (\<lambda>p. Inr (Some p))
      | CAFloating m a \<Rightarrow> Inr None
      | Deferred \<Rightarrow> Inr None
      | Impure m a \<Rightarrow> Inr None)"

definition output_fields ::
    "'j StoreDirConfig \<Rightarrow> bool \<Rightarrow> string \<Rightarrow> string \<Rightarrow> DerivationOutput \<Rightarrow> (string \<times> string \<times> string) res" where
  "output_fields sd maskOutputs drvName outputName out =
     (case out of
        InputAddressed p \<Rightarrow> Inr (if maskOutputs then [] else printStorePath (sd_dir sd) p, [], [])
      | CAFixed ca \<Rightarrow>
          bind_res (if maskOutputs then Inr []
                    else bind_res (caFixed_path sd drvName outputName ca) (\<lambda>p. Inr (printStorePath (sd_dir sd) p))) (\<lambda>pathS.
          bind_res (printMethodAlgo (sd_xp sd) ca) (\<lambda>ma.
          bind_res (hash_to_string (ca_hash ca) Base16 False) (\<lambda>h. Inr (pathS, ma, h))))
      | CAFloating m a \<Rightarrow> bind_res (renderPrefix (sd_xp sd) m) (\<lambda>pre. Inr ([], pre @ printHashAlgo a, []))
      | Deferred \<Rightarrow> Inr ([], [], [])
      | Impure m a \<Rightarrow> bind_res (renderPrefix (sd_xp sd) m) (\<lambda>pre. Inr ([], pre @ printHashAlgo a, ''impure'')))"

definition unparseOutput :: "'j StoreDirConfig \<Rightarrow> bool \<Rightarrow> string \<Rightarrow> string \<times> DerivationOutput \<Rightarrow> string res" where
  "unparseOutput sd maskOutputs drvName i =
     bind_res (output_fields sd maskOutputs drvName (fst i) (snd i)) (\<lambda>(pathS, ma, h).
       Inr (''('' @ printUnquotedString (fst i) @ '','' @ printUnquotedString pathS @ '','' @
            printUnquotedString ma @ '','' @ printUnquotedString h @ '')''))"

definition unparseInput :: "string \<times> ChildNode \<Rightarrow> string" where
  "unparseInput i = ''('' @ printUnquotedString (fst i) @ unparseDerivedPathMapNode (snd i) @ '')''"

definition unparse_header :: "bool \<Rightarrow> string" where
  "unparse_header dyn =
     (if dyn then ''DrvWithVersion('' @ printUnquotedString ''xp-dyn-drv'' @ '','' else ''Derive('')"

definition unparse ::
    "'j StoreDirConfig \<Rightarrow> bool \<Rightarrow> (string \<times> ChildNode) list option \<Rightarrow> 'j Derivation \<Rightarrow> string res" where
  "unparse sd maskOutputs actualInputs drv =
     bind_res (map_res (unparseOutput sd maskOutputs (drv_name drv)) (outputs drv)) (\<lambda>outs.
     bind_res (checkKeyNotInUse (drv_env drv)) (\<lambda>_.
     let inputs = (case actualInputs of
           Some ai \<Rightarrow> ai
         | None \<Rightarrow> map (\<lambda>(p, n). (printStorePath (sd_dir sd) p, n)) (inputDrvs drv));
         env = (case structuredAttrs drv of
           Some j \<Rightarrow> fst (map_emplace (fst (sa_unparse sd j)) (snd (sa_unparse sd j)) (drv_env drv))
         | None \<Rightarrow> drv_env drv)
     in Inr (unparse_header (hasDynamicDrvDep drv) @ ''['' @ commas outs @ ''],['' @
          commas (map unparseInput inputs) @ ''],'' @
          printUnquotedStrings (map (printStorePath (sd_dir sd)) (inputSrcs drv)) @ '','' @
          printUnquotedString (platform drv) @ '','' @ printString (builder drv) @ '','' @
          printStrings (drv_args drv) @ '',['' @
          commas (map (\<lambda>i. ''('' @ printString (fst i) @ '','' @
            printString (if maskOutputs \<and> map_of (outputs drv) (fst i) \<noteq> None then [] else snd i) @ '')'') env) @ ''])'')))"

section \<open>Strings\<close>

definition escaped :: "string \<Rightarrow> string" where "escaped s = concat (map escape_char s)"

lemma escaped_simps [simp]:
  "escaped [] = []" "escaped (c # s) = escape_char c @ escaped s" "escaped (s @ t) = escaped s @ escaped t"
  by (simp_all add: escaped_def)

lemma dq_bsl [simp]: "dq \<noteq> bsl" "bsl \<noteq> dq" "CHR ''n'' \<noteq> bsl" "CHR ''r'' \<noteq> bsl" "CHR ''t'' \<noteq> bsl"
  by (simp_all add: dq_def bsl_def)

lemma unescape_plain: "c \<noteq> bsl \<Longrightarrow> unescape (c # s) = bind_res (unescape s) (\<lambda>r. Inr (c # r))"
  by (cases s) auto

lemma escapes_simps [simp]:
  "escapes dq = dq" "escapes bsl = bsl" "escapes (CHR ''n'') = CHR 0x0A" "escapes (CHR ''r'') = CHR 0x0D"
  "escapes (CHR ''t'') = CHR 0x09"
  by (simp_all add: escapes_def dq_def bsl_def)

lemma unescape_escape_char: "unescape (escape_char c @ s) = bind_res (unescape s) (\<lambda>r. Inr (c # r))"
  by (auto simp: escape_char_def unescape_plain)

lemma unescape_escaped: "unescape (escaped s) = Inr s"
  by (induction s) (simp_all add: unescape_escape_char)

lemma escaped_no_bsl: "bsl \<notin> set (escaped s) \<Longrightarrow> escaped s = s"
  by (induction s) (auto simp: escape_char_def split: if_splits)

lemma backslashes_append: "n \<le> length s \<Longrightarrow> backslashes (s @ t) n = backslashes s n"
  by (simp add: backslashes_def)

lemma backslashes_end:
  "backslashes (s @ [c]) (length s + 1) = (if c = bsl then Suc (backslashes s (length s)) else 0)"
  by (simp add: backslashes_def)

lemma even_escaped: "even (backslashes (escaped s) (length (escaped s)))"
proof (induction s rule: rev_induct)
  case (snoc c s)
  show ?case
  proof (cases "c = bsl")
    case True
    then have "escaped (s @ [c]) = (escaped s @ [bsl]) @ [bsl]" by (simp add: escape_char_def)
    then show ?thesis
      using snoc backslashes_end [of "escaped s @ [bsl]" bsl] backslashes_end [of "escaped s" bsl] by simp
  next
    case False
    then obtain p d where "escaped (s @ [c]) = p @ [d]" "d \<noteq> bsl"
      by (cases "c = dq"; cases "c = CHR 0x0A"; cases "c = CHR 0x0D"; cases "c = CHR 0x09")
        (auto simp: escape_char_def)
    then show ?thesis using backslashes_end [of p d] by simp
  qed
qed (simp add: backslashes_def)

lemma odd_escaped:
  assumes "m < length (escaped s)" "escaped s ! m = dq"
  shows "odd (backslashes (escaped s) m)"
  using assms
proof (induction s rule: rev_induct)
  case (snoc c s)
  show ?case
  proof (cases "m < length (escaped s)")
    case True
    with snoc show ?thesis by (simp add: nth_append backslashes_append)
  next
    case False
    with snoc.prems have d: "c = dq" "m = length (escaped s) + 1"
      by (auto simp: nth_append escape_char_def nth_Cons' split: if_splits)
        (auto simp: dq_def bsl_def less_Suc_eq)
    then have "escaped (s @ [c]) = (escaped s @ [bsl]) @ [dq]" by (simp add: escape_char_def)
    then have "backslashes (escaped (s @ [c])) m = backslashes (escaped s @ [bsl]) (length (escaped s) + 1)"
      unfolding d(2) by (simp only: backslashes_append length_append list.size)
    with even_escaped [of s] backslashes_end [of "escaped s" bsl] show ?thesis by simp
  qed
qed simp

lemma find_char_None:
  assumes "find_char c s start = None" "start \<le> n" "n < length s"
  shows "s ! n \<noteq> c"
proof -
  let ?t = "takeWhile (\<lambda>x. x \<noteq> c) (drop start s)"
  have "length s \<le> start + length ?t" using assms(1) by (simp add: find_char_def Let_def split: if_splits)
  then have lt: "n - start < length ?t" using assms(2,3) by simp
  have "?t ! (n - start) = drop start s ! (n - start)" using lt by (rule takeWhile_nth)
  moreover have "?t ! (n - start) \<in> set ?t" using lt by (rule nth_mem)
  ultimately have "drop start s ! (n - start) \<noteq> c" by (metis set_takeWhileD)
  then show ?thesis using assms(2,3) by simp
qed

lemma find_close_least:
  "n < length s \<Longrightarrow> start \<le> n \<Longrightarrow> s ! n = dq \<Longrightarrow> even (backslashes s n) \<Longrightarrow>
   \<forall>m. start \<le> m \<longrightarrow> m < n \<longrightarrow> s ! m = dq \<longrightarrow> odd (backslashes s m) \<Longrightarrow> find_close s start = Some n"
proof (induction s start rule: find_close.induct)
  case (1 s start)
  obtain idx where idx: "find_char dq s start = Some idx"
    using find_char_None [of dq s start n] 1(2-4) by (cases "find_char dq s start") auto
  note f = find_char_Some [OF idx]
  have le: "idx \<le> n" using f 1(3,4) by (metis linorder_not_le)
  have st: "start < length s" using 1(2,3) by simp
  show ?case
  proof (cases "idx = n")
    case True
    with 1(5) idx st show ?thesis by (subst find_close.simps) simp
  next
    case False
    with le have lt: "idx < n" by simp
    with 1(6) f have odd: "odd (backslashes s idx)" by auto
    have "find_close s (idx + 1) = Some n"
      by (rule 1(1) [OF st idx]) (use 1 lt odd f in auto)
    with idx st odd show ?thesis by (subst find_close.simps) simp
  qed
qed

lemma expect_ok [simp]: "expect e (e @ s) = Some (Inr ((), s))"
  by (simp add: expect_def)

theorem parse_printString: "parseString (printString s @ r) = Some (Inr (s, r))"
proof -
  let ?t = "escaped s @ dq # r"
  have c: "find_close ?t 0 = Some (length (escaped s))"
  proof (rule find_close_least)
    show "even (backslashes ?t (length (escaped s)))" by (simp add: backslashes_append even_escaped)
    show "\<forall>m. 0 \<le> m \<longrightarrow> m < length (escaped s) \<longrightarrow> ?t ! m = dq \<longrightarrow> odd (backslashes ?t m)"
      by (simp add: nth_append backslashes_append odd_escaped)
  qed simp_all
  have e: "expect [dq] (dq # ?t) = Some (Inr ((), ?t))" using expect_ok [of "[dq]" ?t] by simp
  have "printString s @ r = dq # ?t" by (simp add: printString_def escaped_def)
  then show ?thesis
    using c escaped_no_bsl [of s] by (simp add: parseString_def bindP_def e unescape_escaped Let_def)
qed

definition plain :: "string \<Rightarrow> bool" where
  "plain s = (dq \<notin> set s \<and> bsl \<notin> set s)"

lemma parse_printUnquotedString: "plain s \<Longrightarrow> parseString (printUnquotedString s @ r) = Some (Inr (s, r))"
proof -
  assume p: "plain s"
  let ?t = "s @ dq # r"
  have b: "backslashes ?t (length s) = 0"
    using p by (cases s rule: rev_cases) (auto simp: backslashes_def plain_def)
  have c: "find_close ?t 0 = Some (length s)"
    by (rule find_close_least) (use p b in \<open>auto simp: nth_append plain_def dest: nth_mem\<close>)
  have e: "expect [dq] (dq # ?t) = Some (Inr ((), ?t))" using expect_ok [of "[dq]" ?t] by simp
  have "printUnquotedString s @ r = dq # ?t" by (simp add: printUnquotedString_def)
  then show ?thesis using c p by (simp add: parseString_def bindP_def e Let_def plain_def)
qed

section \<open>Lists\<close>

text \<open>The contract of a printer with its parser, for the elements of a list: nothing that is printed
  starts like the end of a list.\<close>

locale stream_codec =
  fixes enc :: "'a \<Rightarrow> string" and dec :: "'a stream" and valid :: "'a \<Rightarrow> bool"
  assumes dec_enc: "valid x \<Longrightarrow> dec (enc x @ s) = Some (Inr (x, s))"
    and starts: "valid x \<Longrightarrow> \<exists>c t. enc x = c # t \<and> c \<noteq> CHR '','' \<and> c \<noteq> CHR '']''"
begin

lemma loop_tail:
  "list_all valid xs \<Longrightarrow>
   list_loop dec add acc (concat (map (\<lambda>x. '','' @ enc x) xs) @ '']'' @ s) = Some (Inr (fold add xs acc, s))"
proof (induction xs arbitrary: acc)
  case Nil
  then show ?case by (subst list_loop.simps) (simp add: endOfList_def peek_def)
next
  case (Cons x xs)
  then show ?case by (subst list_loop.simps) (simp add: endOfList_def peek_def dec_enc)
qed

lemma loop:
  assumes "list_all valid xs"
  shows "list_loop dec add acc (commas (map enc xs) @ '']'' @ s) = Some (Inr (fold add xs acc, s))"
proof (cases xs)
  case Nil
  then show ?thesis using loop_tail [of "[]"] by simp
next
  case (Cons x ys)
  with assms obtain c t where c: "enc x = c # t" "c \<noteq> CHR '',''" "c \<noteq> CHR '']''" using starts by fastforce
  have d: "dec (enc x @ u) = Some (Inr (x, u))" for u using dec_enc assms Cons by simp
  have e: "endOfList (enc x @ u) = (False, enc x @ u)" for u using c by (simp add: endOfList_def peek_def)
  have "list_loop dec add acc (enc x @ concat (map (\<lambda>x. '','' @ enc x) ys) @ '']'' @ s) =
      list_loop dec add (add x acc) (concat (map (\<lambda>x. '','' @ enc x) ys) @ '']'' @ s)"
    by (subst list_loop.simps) (simp add: e d)
  with loop_tail [of ys add "add x acc" s] assms Cons show ?thesis by (simp add: comp_def)
qed

end

lemma dq_seps [simp]: "dq \<noteq> CHR '',''" "dq \<noteq> CHR '']''" by (simp_all add: dq_def)

interpretation quoted: stream_codec printString parseString "\<lambda>_. True"
  by unfold_locales (simp_all add: parse_printString, simp add: printString_def)

interpretation unquoted: stream_codec printUnquotedString parseString plain
  by unfold_locales (simp_all add: parse_printUnquotedString, simp add: printUnquotedString_def)

definition plain_path :: "string \<Rightarrow> bool" where
  "plain_path s = (plain s \<and> (\<exists>t. s = slash # t))"

interpretation paths: stream_codec printUnquotedString parsePath plain_path
  by unfold_locales
    (auto simp: plain_path_def parsePath_def bindP_def parse_printUnquotedString liftP_def retP_def validatePath_def,
      simp add: printUnquotedString_def)

text \<open>Inserting the elements of a set in their order.\<close>

lemma fold_set_put: "sorted_wrt (<) (xs @ ys) \<Longrightarrow> fold set_put ys xs = xs @ ys"
proof (induction ys arbitrary: xs)
  case (Cons y ys)
  have "set_put y xs = xs @ [y]" using Cons.prems
    by (induction xs) (auto simp: sorted_wrt_append)
  with Cons.IH [of "xs @ [y]"] Cons.prems show ?case by simp
qed simp

lemma fold_map_puts: "ordered (m @ es) \<Longrightarrow> fold (\<lambda>(k, v). map_put k v) es m = m @ es"
  using fold_map_put [of m es "\<lambda>v. v"] by simp

lemma fold_emplace: "ordered (m @ es) \<Longrightarrow> fold (\<lambda>(k, v) m. fst (map_emplace k v m)) es m = m @ es"
proof (induction es arbitrary: m)
  case (Cons e es)
  obtain k v where e: "e = (k, v)" by (cases e)
  have lt: "\<forall>k' \<in> fst ` set m. k' < k" using Cons.prems e by (auto simp: ordered_def sorted_wrt_append)
  then have "map_of m k = None" by (force simp: map_of_eq_None_iff)
  with Cons.IH [of "m @ [e]"] Cons.prems e map_put_last [OF lt] show ?case by (simp add: map_emplace_def)
qed simp

lemma parse_unquoted_strings:
  "sorted_wrt (<) ss \<Longrightarrow> list_all plain ss \<Longrightarrow> parseStrings False (printUnquotedStrings ss @ r) = Some (Inr (ss, r))"
  using unquoted.loop [of ss set_put "[]" r] fold_set_put [of "[]" ss] expect_ok [of "''[''"]
  by (simp add: parseStrings_def printUnquotedStrings_def bindP_def expect_def)

lemma parse_unquoted_paths:
  "sorted_wrt (<) ss \<Longrightarrow> list_all plain_path ss \<Longrightarrow> parseStrings True (printUnquotedStrings ss @ r) = Some (Inr (ss, r))"
  using paths.loop [of ss set_put "[]" r] fold_set_put [of "[]" ss]
  by (simp add: parseStrings_def printUnquotedStrings_def bindP_def expect_def)

section \<open>Nodes\<close>

lemma size_child [termination_simp]:
  "e \<in> set m \<Longrightarrow> size (snd e) < Suc (size_list (size_prod (\<lambda>s. 0) size) m)"
proof (induction m)
  case (Cons a m)
  then show ?case by (cases a) auto
qed simp

fun wf_node :: "ChildNode \<Rightarrow> bool" where
  "wf_node (ChildNode v m) =
     (sorted_wrt (<) v \<and> list_all plain v \<and> ordered m \<and> (\<forall>e \<in> set m. plain (fst e) \<and> wf_node (snd e)))"

lemma commas_length: "x \<in> set xs \<Longrightarrow> length x \<le> length (commas xs)"
proof (cases xs)
  case (Cons y ys)
  assume "x \<in> set xs"
  then consider "x = y" | "x \<in> set ys" using Cons by auto
  then show ?thesis
  proof cases
    case 2
    then have "length x \<le> length (concat (map (\<lambda>y. '','' @ y) ys))" by (induction ys) auto
    then show ?thesis using Cons by (simp del: append_Cons append_Nil)
  qed (use Cons in simp)
qed simp

definition print_child :: "string \<times> ChildNode \<Rightarrow> string" where
  "print_child e = ''('' @ printUnquotedString (fst e) @ unparseDerivedPathMapNode (snd e) @ '')''"

definition parse_child :: "nat \<Rightarrow> (string \<times> ChildNode) stream" where
  "parse_child fuel =
     bindP (expect ''('') (\<lambda>_. bindP parseString (\<lambda>outputName.
     bindP (expect '','') (\<lambda>_. bindP (parseDerivedPathMapNode fuel DynDrv) (\<lambda>node.
     bindP (expect '')'') (\<lambda>_. retP (outputName, node))))))"

lemma expect_Cons [simp]: "expect [c] (c # s) = Some (Inr ((), s))"
  using expect_ok [of "[c]" s] by simp

theorem parse_node_print:
  "wf_node n \<Longrightarrow> length (unparseDerivedPathMapNode n) \<le> fuel \<Longrightarrow> (ver = Traditional \<longrightarrow> childMap n = []) \<Longrightarrow>
   parseDerivedPathMapNode fuel ver (drop 1 (unparseDerivedPathMapNode n) @ r) = Some (Inr (n, r))"
proof (induction fuel arbitrary: n ver r)
  case 0
  then show ?case by (cases n) simp
next
  case (Suc fuel)
  obtain v m where n: "n = ChildNode v m" by (cases n)
  have v: "parseStrings False (printUnquotedStrings v @ t) = Some (Inr (v, t))" for t
    using Suc.prems(1) n by (intro parse_unquoted_strings) auto
  show ?case
  proof (cases "m = []")
    case True
    have "peek (printUnquotedStrings v @ r) = Some (CHR ''['')" by (simp add: printUnquotedStrings_def peek_def)
    with True n v show ?thesis by (simp add: bindP_def retP_def)
  next
    case False
    with Suc.prems(3) n have ver: "ver = DynDrv" by (cases ver) auto
    have u: "unparseDerivedPathMapNode n = '','' @ ''('' @ printUnquotedStrings v @ '',['' @ commas (map print_child m) @ ''])''"
      using n False by (simp add: print_child_def [abs_def])
    have codec: "stream_codec print_child (parse_child fuel) (\<lambda>e. e \<in> set m)"
    proof
      fix e s assume e: "e \<in> set m"
      have "length (print_child e) \<le> length (commas (map print_child m))" using e by (intro commas_length) simp
      then have "length (unparseDerivedPathMapNode (snd e)) \<le> fuel"
        using Suc.prems(2) unfolding u by (simp add: print_child_def)
      moreover obtain w where w: "unparseDerivedPathMapNode (snd e) = CHR '','' # w" by (cases "snd e") simp
      ultimately have ih: "parseDerivedPathMapNode fuel DynDrv (w @ t) = Some (Inr (snd e, t))" for t
        using Suc.IH [of "snd e" DynDrv t] e Suc.prems(1) n by auto
      have pl: "plain (fst e)" using e Suc.prems(1) n by auto
      have "print_child e @ s = CHR ''('' # printUnquotedString (fst e) @ CHR '','' # w @ CHR '')'' # s"
        by (simp add: print_child_def w)
      then show "parse_child fuel (print_child e @ s) = Some (Inr (e, s))"
        by (simp add: parse_child_def bindP_def parse_printUnquotedString [OF pl] ih retP_def)
    qed (simp add: print_child_def)
    have lp: "list_loop (parse_child fuel) (\<lambda>(n, c). map_put n c) [] (commas (map print_child m) @ '']'' @ t) = Some (Inr (m, t))" for t
      using stream_codec.loop [OF codec, of m "\<lambda>(n, c). map_put n c" "[]" t] fold_map_puts [of "[]" m] Suc.prems(1) n
      by (simp add: list_all_iff)
    have d: "drop 1 (unparseDerivedPathMapNode n) @ r =
        ''('' @ printUnquotedStrings v @ '',['' @ commas (map print_child m) @ '']'' @ '')'' @ r" unfolding u by simp
    have p: "peek (''('' @ t) = Some (CHR ''('')" for t by (simp add: peek_def)
    have x: "expect ''('' (''('' @ t) = Some (Inr ((), t))" "expect '')'' ('')'' @ t) = Some (Inr ((), t))"
      "expect '',['' ('',['' @ t) = Some (Inr ((), t))" for t by (rule expect_ok)+
    show ?thesis
      unfolding d ver parseDerivedPathMapNode.simps p
      using lp n unfolding parse_child_def by (simp add: bindP_def x v retP_def del: append_Cons append_Nil)
  qed
qed

section \<open>Outputs\<close>

lemma plain_simps [simp]: "plain []" "plain (c # s) = (c \<noteq> dq \<and> c \<noteq> bsl \<and> plain s)" "plain (s @ t) = (plain s \<and> plain t)"
  by (auto simp: plain_def)

lemma plain_algo: "plain (printHashAlgo a)"
  by (cases a) (simp_all add: printHashAlgo_def dq_def bsl_def)

lemma set_base16_encode: "set (base16_encode bs) \<subseteq> set base16Chars"
proof (induction bs)
  case (Cons b bs)
  have "n < 16 \<Longrightarrow> base16Chars ! n \<in> set base16Chars" for n
    by (intro nth_mem) (simp add: base16Chars_def)
  with Cons nibble_bounds [of b] show ?case by simp
qed simp

lemma plain_base16: "plain (base16_encode bs)"
  using set_base16_encode [of bs] by (auto simp: plain_def base16Chars_def dq_def bsl_def)

lemma plain_store_path:
  assumes "plain d" "path_wf p"
  shows "plain (printStorePath d p)"
proof -
  obtain h n where hn: "base p = h @ ''-'' @ n" "\<not> list_ex bad_hash_char h" "name_regex n"
    using assms(2) by (auto simp: path_wf_def)
  have "bad_hash_char dq" "bad_hash_char bsl" "\<not> name_char dq" "\<not> name_char bsl"
    by (simp_all add: bad_hash_char_def name_char_def dq_def bsl_def less_eq_char_def)
  then have "plain h" "plain n"
    using hn by (auto simp: plain_def list_ex_iff name_regex_def list_all_iff)
  then show ?thesis using assms(1) hn(1) by (simp add: printStorePath_def dq_def bsl_def)
qed

lemma parsePrefix_render:
  assumes "method_enabled xp m"
  shows "\<exists>pre. renderPrefix xp m = Inr pre \<and> plain pre \<and> pre @ printHashAlgo a \<noteq> [] \<and>
    parsePrefix xp (pre @ printHashAlgo a) = Inr (m, printHashAlgo a)"
proof (cases m)
  case Git
  with assms have "require xp GitHashing = Inr ()" by (simp add: method_enabled_def require_enabled)
  then show ?thesis
    using Git assms by (cases a) (simp_all add: renderPrefix_def makeFileIngestionPrefix_eq parsePrefix_def splitPrefix_def printHashAlgo_def dq_def bsl_def)
qed (use assms in \<open>cases a; simp add: renderPrefix_def makeFileIngestionPrefix_eq parsePrefix_def splitPrefix_def printHashAlgo_def dq_def bsl_def\<close>)+

lemma parseNonSRI_base16:
  assumes "hash_wf h" "algo_enabled xp (algo h)"
  shows "parseNonSRIUnprefixed xp (base16_encode (hash_bytes h)) (algo h) = Inr h"
  using assms baseFromSize_encode(1) [OF hash_bytes_len [OF assms(1)]]
    parseLowLevel_ok [of h xp base16_decode] base16_roundtrip
  by (simp add: parseNonSRIUnprefixed_def parseExplicitFormatUnprefixed_def baseExplicit_def)

text \<open>What \<open>parseDerivationOutput\<close> accepts: enabled methods and algorithms, well-formed paths.\<close>

definition method_ok :: "xp_settings \<Rightarrow> CAMethod \<Rightarrow> HashAlgorithm \<Rightarrow> bool" where
  "method_ok xp m a =
     (method_enabled xp m \<and> algo_enabled xp a \<and> (m = Text \<longrightarrow> isEnabled xp DynamicDerivations))"

definition output_ok :: "'j StoreDirConfig \<Rightarrow> string \<Rightarrow> string \<Rightarrow> DerivationOutput \<Rightarrow> bool" where
  "output_ok sd drvName outputName out =
     (case out of
        InputAddressed p \<Rightarrow> path_wf p
      | CAFixed ca \<Rightarrow>
          hash_wf (ca_hash ca) \<and> method_ok (sd_xp sd) (ca_method ca) (algo (ca_hash ca)) \<and>
          (\<exists>p. caFixed_path sd drvName outputName ca = Inr p \<and> path_wf p)
      | CAFloating m a \<Rightarrow> method_ok (sd_xp sd) m a \<and> isEnabled (sd_xp sd) CaDerivations
      | Deferred \<Rightarrow> True
      | Impure m a \<Rightarrow> method_ok (sd_xp sd) m a \<and> isEnabled (sd_xp sd) ImpureDerivations)"

definition dir_ok :: "string \<Rightarrow> bool" where
  "dir_ok d = (plain d \<and> (\<exists>ds. d = rend_root ds \<and> list_all comp_ok ds))"

lemma parse_print_path:
  assumes "dir_ok d" "path_wf p"
  shows "parseStorePath d (printStorePath d p) = Some (Inr p)"
proof -
  obtain ds where ds: "d = rend_root ds" "list_all comp_ok ds" using assms(1) by (auto simp: dir_ok_def)
  have abs: "is_absolute (printStorePath (rend_root ds) p)"
    by (cases ds) (simp_all add: printStorePath_def is_absolute_def rend_root_def)
  show ?thesis
    using parseStorePath_eq [OF abs ds(2)] resolve_print [OF ds(2) path_wf_comp [OF assms(2)]] mk_StorePath_wf [OF assms(2)]
    by (simp add: ds(1) printStorePath_def)
qed

lemma plain_path_print: "dir_ok d \<Longrightarrow> path_wf p \<Longrightarrow> plain_path (printStorePath d p)"
proof -
  assume a: "dir_ok d" "path_wf p"
  then have "plain (printStorePath d p)" by (simp add: plain_store_path dir_ok_def)
  moreover obtain ds where "d = rend_root ds" using a(1) by (auto simp: dir_ok_def)
  then have "\<exists>t. printStorePath d p = slash # t" by (cases ds) (simp_all add: printStorePath_def rend_root_def)
  ultimately show ?thesis by (simp add: plain_path_def)
qed

lemma output_fields_parse:
  assumes d: "dir_ok (sd_dir sd)" and ok: "output_ok sd drvName i out"
  shows "\<exists>pathS ma h. output_fields sd False drvName i out = Inr (pathS, ma, h) \<and> plain pathS \<and> plain ma \<and> plain h \<and>
    parseDerivationOutput_fields sd pathS ma h = Some (Inr out)"
proof (cases out)
  case (InputAddressed p)
  then have p: "path_wf p" using ok by (simp add: output_ok_def)
  have "plain_path (printStorePath (sd_dir sd) p)" using plain_path_print [OF d p] .
  then show ?thesis using parse_print_path [OF d p] InputAddressed
    by (auto simp: output_fields_def parseDerivationOutput_fields_def plain_path_def validatePath_def)
next
  case Deferred
  then show ?thesis by (simp add: output_fields_def parseDerivationOutput_fields_def)
next
  case (CAFloating m a)
  then have m: "method_ok (sd_xp sd) m a" "isEnabled (sd_xp sd) CaDerivations" using ok by (simp_all add: output_ok_def)
  then obtain pre where "renderPrefix (sd_xp sd) m = Inr pre" "plain pre" "pre @ printHashAlgo a \<noteq> []"
    "parsePrefix (sd_xp sd) (pre @ printHashAlgo a) = Inr (m, printHashAlgo a)"
    using parsePrefix_render [of "sd_xp sd" m a] by (auto simp: method_ok_def)
  with m show ?thesis unfolding CAFloating
    by (simp add: output_fields_def parseDerivationOutput_fields_def method_ok_def require_enabled parse_print_algo plain_algo)
next
  case (Impure m a)
  then have m: "method_ok (sd_xp sd) m a" "isEnabled (sd_xp sd) ImpureDerivations" using ok by (simp_all add: output_ok_def)
  then obtain pre where "renderPrefix (sd_xp sd) m = Inr pre" "plain pre" "pre @ printHashAlgo a \<noteq> []"
    "parsePrefix (sd_xp sd) (pre @ printHashAlgo a) = Inr (m, printHashAlgo a)"
    using parsePrefix_render [of "sd_xp sd" m a] by (auto simp: method_ok_def)
  with m show ?thesis unfolding Impure
    by (simp add: output_fields_def parseDerivationOutput_fields_def method_ok_def require_enabled parse_print_algo plain_algo
        dq_def bsl_def)
next
  case (CAFixed ca)
  let ?h = "ca_hash ca"
  obtain p where p: "caFixed_path sd drvName i ca = Inr p" "path_wf p" and
    m: "hash_wf ?h" "method_ok (sd_xp sd) (ca_method ca) (algo ?h)" using ok CAFixed by (auto simp: output_ok_def)
  then obtain pre where pre: "renderPrefix (sd_xp sd) (ca_method ca) = Inr pre" "plain pre" "pre @ printHashAlgo (algo ?h) \<noteq> []"
    "parsePrefix (sd_xp sd) (pre @ printHashAlgo (algo ?h)) = Inr (ca_method ca, printHashAlgo (algo ?h))"
    using parsePrefix_render [of "sd_xp sd" "ca_method ca" "algo ?h"] by (auto simp: method_ok_def)
  have h: "hash_to_string ?h Base16 False = Inr (base16_encode (hash_bytes ?h))"
    using m(1) regularHashSize_bounds(1) [of "algo ?h"] by (simp add: hash_to_string_def Let_def assert_res_def hash_wf_def)
  have ne: "base16_encode (hash_bytes ?h) \<noteq> []" "base16_encode (hash_bytes ?h) \<noteq> ''impure''"
  proof -
    have "32 \<le> length (base16_encode (hash_bytes ?h))"
      using hash_bytes_len [OF m(1)] regularHashSize_bounds(1) [of "algo ?h"] by (simp add: base16_encodedLength_def)
    then have "length (base16_encode (hash_bytes ?h)) \<noteq> length []" "length (base16_encode (hash_bytes ?h)) \<noteq> length ''impure''"
      by simp_all
    then show "base16_encode (hash_bytes ?h) \<noteq> []" "base16_encode (hash_bytes ?h) \<noteq> ''impure''" by metis+
  qed
  have v: "validatePath (printStorePath (sd_dir sd) p) = Inr ()" "plain (printStorePath (sd_dir sd) p)"
    using plain_path_print [OF d p(2)] by (auto simp: validatePath_def plain_path_def)
  show ?thesis
    using p(1) m pre h ne v plain_base16 parseNonSRI_base16 [OF m(1)] unfolding CAFixed
    by (simp add: output_fields_def parseDerivationOutput_fields_def printMethodAlgo_def method_ok_def require_enabled
        parse_print_algo plain_algo)
qed

section \<open>The entries of a derivation\<close>

definition output_entry_ok :: "'j StoreDirConfig \<Rightarrow> string \<Rightarrow> string \<times> DerivationOutput \<Rightarrow> bool" where
  "output_entry_ok sd drvName e = (dir_ok (sd_dir sd) \<and> plain (fst e) \<and> output_ok sd drvName (fst e) (snd e))"

definition the_res :: "'a res \<Rightarrow> 'a" where "the_res r = (case r of Inr x \<Rightarrow> x)"

lemma the_res_Inr [simp]: "the_res (Inr x) = x" by (simp add: the_res_def)

interpretation output_codec: stream_codec "\<lambda>e. the_res (unparseOutput sd False n e)" "parseOutputEntry sd" "output_entry_ok sd n"
    for sd n
proof
  fix e s assume e: "output_entry_ok sd n e"
  obtain i out where i: "e = (i, out)" by (cases e)
  obtain pathS ma h where f: "output_fields sd False n i out = Inr (pathS, ma, h)" "plain pathS" "plain ma" "plain h"
    "parseDerivationOutput_fields sd pathS ma h = Some (Inr out)"
    using output_fields_parse [of sd n i out] e i by (auto simp: output_entry_ok_def)
  have "plain i" using e i by (simp add: output_entry_ok_def)
  then have u: "the_res (unparseOutput sd False n e) @ s = CHR ''('' # printUnquotedString i @ CHR '','' # printUnquotedString pathS @
      CHR '','' # printUnquotedString ma @ CHR '','' # printUnquotedString h @ CHR '')'' # s"
    using f(1) i by (simp add: unparseOutput_def)
  show "parseOutputEntry sd (the_res (unparseOutput sd False n e) @ s) = Some (Inr (e, s))"
    unfolding u using f \<open>plain i\<close> i
    by (simp add: parseOutputEntry_def parseDerivationOutput_def bindP_def parse_printUnquotedString liftP_def retP_def)
next
  fix e assume "output_entry_ok sd n e"
  then show "\<exists>c t. the_res (unparseOutput sd False n e) = c # t \<and> c \<noteq> CHR '','' \<and> c \<noteq> CHR '']''"
    using output_fields_parse [of sd n "fst e" "snd e"] by (auto simp: output_entry_ok_def unparseOutput_def)
qed

lemma unparse_outputs:
  assumes "list_all (output_entry_ok sd n) es"
  shows "map_res (unparseOutput sd False n) es = Inr (map (\<lambda>e. the_res (unparseOutput sd False n e)) es)"
proof (rule map_res_total)
  fix e assume "e \<in> set es"
  with assms have "output_entry_ok sd n e" by (simp add: list_all_iff)
  then show "unparseOutput sd False n e = Inr (the_res (unparseOutput sd False n e))"
    using output_fields_parse [of sd n "fst e" "snd e"] by (auto simp: output_entry_ok_def unparseOutput_def)
qed

definition input_entry_ok :: "'j StoreDirConfig \<Rightarrow> nat \<Rightarrow> DerivationATermVersion \<Rightarrow> StorePath \<times> ChildNode \<Rightarrow> bool" where
  "input_entry_ok sd fuel ver e =
     (dir_ok (sd_dir sd) \<and> path_wf (fst e) \<and> wf_node (snd e) \<and>
      length (unparseDerivedPathMapNode (snd e)) \<le> fuel \<and> (ver = Traditional \<longrightarrow> childMap (snd e) = []))"

interpretation input_codec: stream_codec "\<lambda>e. unparseInput (printStorePath (sd_dir sd) (fst e), snd e)"
    "parseInputEntry sd fuel ver" "input_entry_ok sd fuel ver" for sd fuel ver
proof
  fix e s assume e: "input_entry_ok sd fuel ver e"
  obtain p node where p: "e = (p, node)" by (cases e)
  obtain w where w: "unparseDerivedPathMapNode node = CHR '','' # w" by (cases node) simp
  have u: "unparseInput (printStorePath (sd_dir sd) (fst e), snd e) @ s =
      CHR ''('' # printUnquotedString (printStorePath (sd_dir sd) p) @ CHR '','' # w @ CHR '')'' # s"
    by (simp add: unparseInput_def p w)
  have "plain_path (printStorePath (sd_dir sd) p)" "parseStorePath (sd_dir sd) (printStorePath (sd_dir sd) p) = Some (Inr p)"
    using e p by (auto simp: input_entry_ok_def intro: plain_path_print parse_print_path)
  moreover have "parseDerivedPathMapNode fuel ver (w @ CHR '')'' # s) = Some (Inr (node, CHR '')'' # s))"
    using parse_node_print [of node fuel ver] e w p by (simp add: input_entry_ok_def)
  ultimately show "parseInputEntry sd fuel ver (unparseInput (printStorePath (sd_dir sd) (fst e), snd e) @ s) = Some (Inr (e, s))"
    unfolding u by (simp add: parseInputEntry_def bindP_def paths.dec_enc liftP_def retP_def p)
qed (simp add: unparseInput_def)

definition print_env :: "string \<times> string \<Rightarrow> string" where
  "print_env i = ''('' @ printString (fst i) @ '','' @ printString (snd i) @ '')''"

text \<open>An element of the environment list: a variable, or the structured attributes.\<close>

definition env_of :: "'j StoreDirConfig \<Rightarrow> string \<times> string + 'j \<Rightarrow> string \<times> string" where
  "env_of sd r = (case r of Inl i \<Rightarrow> i | Inr j \<Rightarrow> sa_unparse sd j)"

definition env_ok :: "'j StoreDirConfig \<Rightarrow> string \<times> string + 'j \<Rightarrow> bool" where
  "env_ok sd r = (case r of Inl i \<Rightarrow> fst i \<noteq> envVarName | Inr j \<Rightarrow> sa_parse sd (sd_json_dump sd j) = Inr j)"

interpretation env_codec: stream_codec "\<lambda>r. print_env (env_of sd r)" "parseEnv sd" "env_ok sd" for sd
proof
  fix r s assume r: "env_ok sd r"
  have u: "print_env (env_of sd r) @ s = CHR ''('' # printString (fst (env_of sd r)) @ CHR '','' # printString (snd (env_of sd r)) @
      CHR '')'' # s" by (simp add: print_env_def)
  show "parseEnv sd (print_env (env_of sd r) @ s) = Some (Inr (r, s))"
    unfolding u using r
    by (cases r) (auto simp: parseEnv_def bindP_def parse_printString env_of_def env_ok_def sa_unparse_def liftP_def retP_def)
qed (simp add: print_env_def)

definition env_items :: "'j option \<Rightarrow> (string \<times> string) list \<Rightarrow> (string \<times> string + 'j) list" where
  "env_items sa env = map (\<lambda>i. case sa of Some j \<Rightarrow> if fst i = envVarName then Inr j else Inl i | None \<Rightarrow> Inl i) env"

text \<open>The list that is printed: the variables with the encoded attributes in their place.\<close>

definition print_list :: "'j StoreDirConfig \<Rightarrow> 'j option \<Rightarrow> (string \<times> string) list \<Rightarrow> (string \<times> string) list" where
  "print_list sd sa env =
     (case sa of Some j \<Rightarrow> fst (map_emplace (fst (sa_unparse sd j)) (snd (sa_unparse sd j)) env) | None \<Rightarrow> env)"

lemma add_env_simps [simp]:
  "add_env (Inl (n, v)) acc = (map_put n v (fst acc), snd acc)" "add_env (Inr j) acc = (fst acc, Some j)"
  by (simp_all add: add_env_def)

lemma fold_add_env_plain:
  "ordered (m @ env) \<Longrightarrow> fold add_env (map Inl env) (m, sa) = (m @ env, sa)"
proof (induction env arbitrary: m)
  case (Cons e env)
  obtain k v where e: "e = (k, v)" by (cases e)
  have lt: "\<forall>k' \<in> fst ` set m. k' < k" using Cons.prems e by (auto simp: ordered_def sorted_wrt_append)
  with Cons.IH [of "m @ [(k, v)]"] Cons.prems e map_put_last [OF lt] show ?case by simp
qed simp

lemma fold_add_env_json:
  assumes "map_of env envVarName = None"
  shows "fold add_env (env_items (Some j) (map_put envVarName d env)) (m, sa) =
    (fold (\<lambda>(k, v). map_put k v) env m, Some j)"
  using assms
proof (induction env arbitrary: m sa)
  case (Cons e env)
  obtain k v where e: "e = (k, v)" by (cases e)
  have k: "k \<noteq> envVarName" "map_of env envVarName = None" using Cons.prems e by (auto split: if_splits)
  have tail: "fold add_env (env_items (Some j) env) (m, sa) = (fold (\<lambda>(k, v). map_put k v) env m, sa)"
    if "map_of env envVarName = None" for env m sa
    using that by (induction env arbitrary: m) (auto simp: env_items_def split: if_splits)
  show ?case
  proof (cases "envVarName < k")
    case True
    with e k tail [of "e # env" m "Some j"] Cons.prems show ?thesis by (simp add: env_items_def)
  next
    case False
    with e k Cons.IH [OF k(2), of "map_put k v m" sa] show ?thesis by (auto simp: env_items_def)
  qed
qed (simp add: env_items_def)

lemma parse_print_env:
  assumes "ordered env" "map_of env envVarName = None"
    and "\<And>j. sa = Some j \<Longrightarrow> sa_parse sd (sd_json_dump sd j) = Inr j"
  shows "list_loop (parseEnv sd) add_env ([], None) (commas (map print_env (print_list sd sa env)) @ '']'' @ s) =
    Some (Inr ((env, sa), s))"
proof -
  let ?l = "print_list sd sa env" and ?items = "env_items sa (print_list sd sa env)"
  have ok: "list_all (env_ok sd) ?items \<and> map (env_of sd) ?items = ?l"
  proof (cases sa)
    case None
    have "fst e \<noteq> envVarName" if "e \<in> set env" for e
      using that assms(2) by (force simp: map_of_eq_None_iff)
    with None show ?thesis by (auto simp: print_list_def env_items_def env_ok_def env_of_def list_all_iff comp_def)
  next
    case (Some j)
    let ?m = "map_put envVarName (sd_json_dump sd j) env"
    have l: "?l = ?m" using Some assms(2) by (simp add: print_list_def sa_unparse_def map_emplace_def)
    have "map_of ?m envVarName = Some (sd_json_dump sd j)" by simp
    then have v: "snd e = sd_json_dump sd j" if "e \<in> set ?m" "fst e = envVarName" for e
      using that ordered_distinct [OF ordered_map_put [OF assms(1)]] by (metis map_of_eq_Some_iff option.inject prod.collapse)
    have "env_of sd (if fst e = envVarName then Inr j else Inl e) = e" if "e \<in> set ?m" for e
      using v [OF that] by (auto simp: env_of_def sa_unparse_def prod_eq_iff)
    then have "map (env_of sd) ?items = ?m" by (simp add: l [unfolded Some] env_items_def Some map_idI)
    with Some l assms(3) show ?thesis by (auto simp: env_items_def env_ok_def list_all_iff)
  qed
  have "fold add_env ?items ([], None) = (env, sa)"
  proof (cases sa)
    case None
    then show ?thesis using fold_add_env_plain [of "[]" env None] assms(1) by (simp add: print_list_def env_items_def)
  next
    case (Some j)
    then show ?thesis
      using fold_add_env_json [OF assms(2), of j] fold_map_puts [of "[]" env] assms(1,2)
      by (simp add: print_list_def sa_unparse_def map_emplace_def)
  qed
  with env_codec.loop [of sd ?items add_env "([], None)" s] ok show ?thesis
    by (metis (no_types, lifting) list.map_comp comp_apply map_eq_conv)
qed

section \<open>Whole derivations\<close>

definition derivation_ok :: "'j StoreDirConfig \<Rightarrow> 'j Derivation \<Rightarrow> bool" where
  "derivation_ok sd drv =
     (dir_ok (sd_dir sd) \<and>
      ordered (outputs drv) \<and> list_all (output_entry_ok sd (drv_name drv)) (outputs drv) \<and>
      ordered (inputDrvs drv) \<and> list_all (\<lambda>e. path_wf (fst e) \<and> wf_node (snd e)) (inputDrvs drv) \<and>
      (hasDynamicDrvDep drv \<longrightarrow> isEnabled (sd_xp sd) DynamicDerivations) \<and>
      sorted_wrt (<) (inputSrcs drv) \<and> list_all path_wf (inputSrcs drv) \<and>
      plain (platform drv) \<and>
      ordered (drv_env drv) \<and> map_of (drv_env drv) envVarName = None \<and>
      (\<forall>j. structuredAttrs drv = Some j \<longrightarrow> sa_parse sd (sd_json_dump sd j) = Inr j))"

lemma sorted_print_paths:
  "sorted_wrt (<) ps \<Longrightarrow> sorted_wrt (<) (map (printStorePath d) (ps :: StorePath list))"
proof -
  have "printStorePath d p < printStorePath d q" if "p < q" for p q
    using that by (induction d) (simp_all add: printStorePath_def less_StorePath_def)
  then show "sorted_wrt (<) ps \<Longrightarrow> sorted_wrt (<) (map (printStorePath d) ps)"
    by (simp add: sorted_wrt_map sorted_wrt_mono_rel [of ps "(<)"])
qed

lemma parseStorePathSet_print:
  assumes "dir_ok d"
  shows "sorted_wrt (<) (qs @ ps) \<Longrightarrow> list_all path_wf ps \<Longrightarrow>
    fold_ro (\<lambda>i res. bind_ro (parseStorePath d i) (\<lambda>p. Some (Inr (set_put p res)))) (map (printStorePath d) ps) qs =
    Some (Inr (qs @ ps))"
proof (induction ps arbitrary: qs)
  case (Cons p ps)
  have "set_put p qs = qs @ [p]" using fold_set_put [of qs "[p]"] Cons.prems by (simp add: sorted_wrt_append)
  with Cons.IH [of "qs @ [p]"] Cons.prems show ?case by (simp add: parse_print_path [OF assms])
qed simp

lemma parseVersion_print:
  assumes "dyn \<longrightarrow> isEnabled (sd_xp sd) DynamicDerivations"
  shows "parseVersion sd (unparse_header dyn @ s) = Some (Inr (if dyn then DynDrv else Traditional, s))"
proof (cases dyn)
  case False
  then show ?thesis by (simp add: parseVersion_def unparse_header_def bindP_def expect_def peek_def retP_def)
next
  case True
  have "parseString (printUnquotedString ''xp-dyn-drv'' @ t) = Some (Inr (''xp-dyn-drv'', t))" for t
    by (rule parse_printUnquotedString) (simp add: dq_def bsl_def)
  with True assms show ?thesis
    by (simp add: parseVersion_def unparse_header_def bindP_def expect_def peek_def retP_def liftP_def require_enabled)
qed

lemma unparse_inputs:
  "map (\<lambda>(p, n). (printStorePath d p, n)) m = map (\<lambda>e. (printStorePath d (fst e), snd e)) m"
  by (simp add: case_prod_unfold)

definition print_front :: "'j StoreDirConfig \<Rightarrow> 'j Derivation \<Rightarrow> string" where
  "print_front sd drv =
     unparse_header (hasDynamicDrvDep drv) @ ''['' @
     commas (map (\<lambda>e. the_res (unparseOutput sd False (drv_name drv) e)) (outputs drv)) @ '']'' @ '',['' @
     commas (map (\<lambda>e. unparseInput (printStorePath (sd_dir sd) (fst e), snd e)) (inputDrvs drv)) @ '']'' @ '','' @
     printUnquotedStrings (map (printStorePath (sd_dir sd)) (inputSrcs drv))"

definition print_back :: "'j StoreDirConfig \<Rightarrow> 'j Derivation \<Rightarrow> string" where
  "print_back sd drv =
     '','' @ printUnquotedString (platform drv) @ '','' @ printString (builder drv) @ '',['' @
     commas (map printString (drv_args drv)) @ '']'' @ '',['' @
     commas (map print_env (print_list sd (structuredAttrs drv) (drv_env drv))) @ '']'' @ '')''"

definition parse_back :: "'j StoreDirConfig \<Rightarrow> 'j Derivation \<Rightarrow> 'j Derivation stream" where
  "parse_back sd drv =
     bindP (expect '','') (\<lambda>_. bindP parseString (\<lambda>plat.
     bindP (expect '','') (\<lambda>_. bindP parseString (\<lambda>bld.
     bindP (expect '',['') (\<lambda>_. bindP (list_loop parseString (\<lambda>a as. as @ [a]) []) (\<lambda>args.
     bindP (expect '',['') (\<lambda>_. bindP (list_loop (parseEnv sd) add_env ([], None)) (\<lambda>env.
     bindP (expect '')'') (\<lambda>_.
       retP (drv\<lparr>platform := plat, builder := bld, drv_args := args, drv_env := fst env, structuredAttrs := snd env\<rparr>))))))))))"

lemma unparse_eq:
  assumes "derivation_ok sd drv"
  shows "unparse sd False None (drv\<lparr>platform := p\<rparr>) = Inr (print_front sd drv @ print_back sd (drv\<lparr>platform := p\<rparr>))"
proof -
  have "checkKeyNotInUse (drv_env drv) = Inr ()" using assms by (simp add: derivation_ok_def checkKeyNotInUse_def)
  moreover have "map_res (unparseOutput sd False (drv_name drv)) (outputs drv) =
      Inr (map (\<lambda>e. the_res (unparseOutput sd False (drv_name drv) e)) (outputs drv))"
    using assms by (intro unparse_outputs) (simp add: derivation_ok_def)
  ultimately show ?thesis
    by (simp add: unparse_def print_front_def print_back_def Let_def unparse_inputs printStrings_def print_env_def [abs_def]
        print_list_def comp_def hasDynamicDrvDep_def cong: option.case_cong)
qed

lemma parse_front:
  assumes "derivation_ok sd drv"
  shows "parseDerivation sd (print_front sd drv @ rest) (drv_name drv) =
    bind_ro (parse_back sd drv rest) (\<lambda>(d, _). Some (Inr d))"
proof -
  let ?ver = "if hasDynamicDrvDep drv then DynDrv else Traditional"
  let ?out = "\<lambda>e. the_res (unparseOutput sd False (drv_name drv) e)"
  let ?inp = "\<lambda>e. unparseInput (printStorePath (sd_dir sd) (fst e), snd e)"
  let ?n = "length (print_front sd drv @ rest)"
  note ok = assms [unfolded derivation_ok_def]
  have len: "length (unparseDerivedPathMapNode (snd e)) \<le> ?n" if "e \<in> set (inputDrvs drv)" for e
  proof -
    have "length (?inp e) \<le> length (commas (map ?inp (inputDrvs drv)))" using that by (intro commas_length) simp
    then show ?thesis by (simp add: print_front_def unparseInput_def)
  qed
  have "list_all (input_entry_ok sd ?n ?ver) (inputDrvs drv)"
    using ok len by (auto simp: list_all_iff input_entry_ok_def hasDynamicDrvDep_def list_ex_iff)
  then have inp: "list_loop (parseInputEntry sd ?n ?ver) (\<lambda>(p, n). map_put p n) []
      (commas (map ?inp (inputDrvs drv)) @ '']'' @ t) = Some (Inr (inputDrvs drv, t))" for t
    using input_codec.loop [of sd ?n ?ver "inputDrvs drv" "\<lambda>(p, n). map_put p n" "[]" t]
      fold_map_puts [of "[]" "inputDrvs drv"] ok by simp
  have outs: "list_loop (parseOutputEntry sd) (\<lambda>(i, out) m. fst (map_emplace i out m)) []
      (commas (map ?out (outputs drv)) @ '']'' @ t) = Some (Inr (outputs drv, t))" for t
    using output_codec.loop [of sd "drv_name drv" "outputs drv" "\<lambda>(i, out) m. fst (map_emplace i out m)" "[]" t]
      fold_emplace [of "[]" "outputs drv"] ok by simp
  have srcs: "parseStrings True (printUnquotedStrings (map (printStorePath (sd_dir sd)) (inputSrcs drv)) @ t) =
      Some (Inr (map (printStorePath (sd_dir sd)) (inputSrcs drv), t))" for t
    using ok by (intro parse_unquoted_paths sorted_print_paths) (auto simp: list_all_iff plain_path_print)
  have srcs2: "parseStorePathSet (sd_dir sd) (map (printStorePath (sd_dir sd)) (inputSrcs drv)) = Some (Inr (inputSrcs drv))"
    using parseStorePathSet_print [of "sd_dir sd" "[]" "inputSrcs drv"] ok by (simp add: parseStorePathSet_def)
  have ver: "parseVersion sd (unparse_header (hasDynamicDrvDep drv) @ t) = Some (Inr (?ver, t))" for t
    using ok by (intro parseVersion_print) simp
  have front: "print_front sd drv @ rest = unparse_header (hasDynamicDrvDep drv) @ ''['' @ commas (map ?out (outputs drv)) @
      '']'' @ '',['' @ commas (map ?inp (inputDrvs drv)) @ '']'' @ '','' @
      printUnquotedStrings (map (printStorePath (sd_dir sd)) (inputSrcs drv)) @ rest"
    by (simp add: print_front_def)
  have rec: "\<lparr>outputs = outputs drv, inputSrcs = inputSrcs drv, platform = plat, builder = bld, drv_args = args,
      drv_env = fst env, structuredAttrs = snd env, drv_name = drv_name drv, inputDrvs = inputDrvs drv\<rparr> =
    drv\<lparr>platform := plat, builder := bld, drv_args := args, drv_env := fst env, structuredAttrs := snd env\<rparr>"
    for plat bld args and env :: "(string \<times> string) list \<times> 'a option" by simp
  show ?thesis
    unfolding parseDerivation_def parse_back_def bindP_def
    apply (subst front)
    unfolding ver bind_ro.simps prod.case expect_ok outs inp srcs srcs2 liftP_def retP_def rec ..
qed

lemma parse_unquoted: "plain p \<Longrightarrow> parseString (dq # p @ dq # t) = Some (Inr (p, t))"
  using parse_printUnquotedString [of p t] by (simp add: printUnquotedString_def)

theorem parse_unparse:
  assumes "derivation_ok sd drv"
  shows "\<exists>s. unparse sd False None drv = Inr s \<and> parseDerivation sd s (drv_name drv) = Some (Inr drv)"
proof -
  note ok = assms [unfolded derivation_ok_def]
  have args: "list_loop parseString (\<lambda>a as. as @ [a]) [] (commas (map printString (drv_args drv)) @ '']'' @ t) =
      Some (Inr (drv_args drv, t))" for t
  proof -
    have "fold (\<lambda>a as. as @ [a]) xs ys = ys @ xs" for xs ys :: "string list" by (induction xs arbitrary: ys) auto
    then show ?thesis using quoted.loop [of "drv_args drv" "\<lambda>a as. as @ [a]" "[]" t] by (simp add: list_all_iff)
  qed
  have env: "list_loop (parseEnv sd) add_env ([], None)
      (commas (map print_env (print_list sd (structuredAttrs drv) (drv_env drv))) @ '']'' @ t) =
      Some (Inr ((drv_env drv, structuredAttrs drv), t))" for t
    using ok by (intro parse_print_env) auto
  have plat: "parseString (printUnquotedString (platform drv) @ t) = Some (Inr (platform drv, t))" for t
    using ok by (intro parse_printUnquotedString) simp
  have e: "expect '')'' '')'' = Some (Inr ((), []))" using expect_ok [of "'')''" "[]"] by simp
  have "parse_back sd drv (print_back sd drv) = Some (Inr (drv, []))"
    unfolding parse_back_def print_back_def bindP_def
      bind_ro.simps prod.case expect_ok plat parse_printString args env e retP_def by simp
  then have "parseDerivation sd (print_front sd drv @ print_back sd drv) (drv_name drv) = Some (Inr drv)"
    by (simp add: parse_front [OF assms])
  with unparse_eq [OF assms, of "platform drv"] show ?thesis by simp
qed

definition evil :: string where
  "evil = ''x'' @ [dq] @ '','' @ [dq] @ ''b'' @ [dq] @ '',[],[])''"

theorem platform_injection:
  assumes "derivation_ok sd drv"
  shows "\<exists>s. unparse sd False None (drv\<lparr>platform := evil\<rparr>) = Inr s \<and>
    parseDerivation sd s (drv_name drv) =
      Some (Inr (drv\<lparr>platform := ''x'', builder := ''b'', drv_args := [], drv_env := [], structuredAttrs := None\<rparr>))"
proof -
  let ?d = "drv\<lparr>platform := evil\<rparr>"
  obtain t where t: "print_back sd ?d = '','' @ printUnquotedString ''x'' @ '','' @ printUnquotedString ''b'' @
      '',['' @ '']'' @ '',['' @ '']'' @ '')'' @ t"
    by (simp add: print_back_def evil_def printUnquotedString_def)
  have p: "parseString (printUnquotedString ''x'' @ u) = Some (Inr (''x'', u))"
    "parseString (printUnquotedString ''b'' @ u) = Some (Inr (''b'', u))" for u
    by (rule parse_printUnquotedString, simp add: dq_def bsl_def)+
  have l: "list_loop body add acc ('']'' @ u) = Some (Inr (acc, u))" for body add acc u
    by (subst list_loop.simps) (simp add: endOfList_def peek_def)
  have "parse_back sd drv (print_back sd ?d) =
      Some (Inr (drv\<lparr>platform := ''x'', builder := ''b'', drv_args := [], drv_env := [], structuredAttrs := None\<rparr>, t))"
    unfolding parse_back_def t bindP_def bind_ro.simps prod.case expect_ok p l retP_def by simp
  then show ?thesis using unparse_eq [OF assms, of evil] by (simp add: parse_front [OF assms])
qed

section \<open>Parsing returns\<close>

text \<open>On texts of length at most \<open>n\<close>: the parser returns, and what it leaves is no longer, or shorter.\<close>

definition ret_upto :: "nat \<Rightarrow> 'a stream \<Rightarrow> bool" where
  "ret_upto n p = (\<forall>s. length s \<le> n \<longrightarrow> p s \<noteq> None \<and> (\<forall>x r. p s = Some (Inr (x, r)) \<longrightarrow> length r \<le> length s))"

definition cons_upto :: "nat \<Rightarrow> 'a stream \<Rightarrow> bool" where
  "cons_upto n p = (\<forall>s. length s \<le> n \<longrightarrow> p s \<noteq> None \<and> (\<forall>x r. p s = Some (Inr (x, r)) \<longrightarrow> length r < length s))"

named_theorems returns_intros

lemma cons_ret: "cons_upto n p \<Longrightarrow> ret_upto n p"
  by (auto simp: cons_upto_def ret_upto_def simp del: not_None_eq dest: less_imp_le)

lemma bindP_returns:
  assumes "m s \<noteq> None"
    and "\<And>x r. m s = Some (Inr (x, r)) \<Longrightarrow> f x r \<noteq> None \<and> (\<forall>y t. f x r = Some (Inr (y, t)) \<longrightarrow> Q t)"
  shows "bindP m f s \<noteq> None \<and> (\<forall>y t. bindP m f s = Some (Inr (y, t)) \<longrightarrow> Q t)"
proof (cases "m s")
  case (Some z)
  show ?thesis
  proof (cases z)
    case (Inl e)
    with Some show ?thesis by (simp add: bindP_def)
  next
    case (Inr w)
    then obtain x r where w: "m s = Some (Inr (x, r))" using Some by (cases w) auto
    then show ?thesis using assms(2) [OF w] by (simp add: bindP_def)
  qed
qed (use assms(1) in simp)

lemma ret_bind [returns_intros]:
  assumes "ret_upto n m" "\<And>x. ret_upto n (f x)"
  shows "ret_upto n (bindP m f)"
  unfolding ret_upto_def
proof (intro allI impI bindP_returns)
  fix s x r assume s: "length s \<le> n" and m: "m s = Some (Inr (x, r))"
  then have r: "length r \<le> length s" using assms(1) unfolding ret_upto_def by blast
  with s assms(2) [of x] show "f x r \<noteq> None \<and> (\<forall>y t. f x r = Some (Inr (y, t)) \<longrightarrow> length t \<le> length s)"
    unfolding ret_upto_def by (meson order_trans)
qed (use assms(1) in \<open>auto simp: ret_upto_def\<close>)

lemma cons_bind [returns_intros]:
  assumes "cons_upto n m" "\<And>x. ret_upto n (f x)"
  shows "cons_upto n (bindP m f)"
  unfolding cons_upto_def
proof (intro allI impI bindP_returns)
  fix s x r assume s: "length s \<le> n" and m: "m s = Some (Inr (x, r))"
  then have r: "length r < length s" using assms(1) unfolding cons_upto_def by blast
  with s have "length r \<le> n" by simp
  with r assms(2) [of x] show "f x r \<noteq> None \<and> (\<forall>y t. f x r = Some (Inr (y, t)) \<longrightarrow> length t < length s)"
    unfolding ret_upto_def by (meson order_le_less_trans)
qed (use assms(1) in \<open>auto simp: cons_upto_def\<close>)

lemma cons_bind_less:
  assumes "cons_upto (Suc n) m" "\<And>x. ret_upto n (f x)"
  shows "cons_upto (Suc n) (bindP m f)"
  unfolding cons_upto_def
proof (intro allI impI bindP_returns)
  fix s x r assume s: "length s \<le> Suc n" and m: "m s = Some (Inr (x, r))"
  then have r: "length r < length s" using assms(1) unfolding cons_upto_def by blast
  with s have "length r \<le> n" by simp
  with r assms(2) [of x] show "f x r \<noteq> None \<and> (\<forall>y t. f x r = Some (Inr (y, t)) \<longrightarrow> length t < length s)"
    unfolding ret_upto_def by (meson order_le_less_trans)
qed (use assms(1) in \<open>auto simp: cons_upto_def\<close>)

lemma ret_retP [returns_intros]: "ret_upto n (retP x)"
  by (simp add: ret_upto_def retP_def)

lemma ret_failP [returns_intros]: "ret_upto n (failP m)"
  by (simp add: ret_upto_def failP_def)

lemma ret_liftP [returns_intros]: "r \<noteq> None \<Longrightarrow> ret_upto n (liftP r)"
  by (auto simp: ret_upto_def liftP_def bind_ro_None_iff res_simps)

lemma cons_expect [returns_intros]: "e \<noteq> [] \<Longrightarrow> cons_upto n (expect e)"
proof -
  have "drop (length e) s = r \<Longrightarrow> take (length e) s = e \<Longrightarrow> e \<noteq> [] \<Longrightarrow> length r < length s" for s r :: string
    by (cases s; cases e) auto
  then show "e \<noteq> [] \<Longrightarrow> cons_upto n (expect e)" by (auto simp: cons_upto_def expect_def)
qed

lemma ret_expect [returns_intros]: "ret_upto n (expect e)"
  by (auto simp: ret_upto_def expect_def)

lemma cons_parseString [returns_intros]: "cons_upto n parseString"
  unfolding parseString_def
  by (rule cons_bind) (auto simp: ret_upto_def Let_def res_simps intro: cons_expect split: option.splits if_splits)

lemma cons_parsePath [returns_intros]: "cons_upto n parsePath"
  unfolding parsePath_def by (intro returns_intros) simp

lemma list_loop_returns:
  assumes "cons_upto n body" "length s \<le> n"
  shows "list_loop body add acc s \<noteq> None \<and> (\<forall>x r. list_loop body add acc s = Some (Inr (x, r)) \<longrightarrow> length r \<le> length s)"
  using assms(2)
proof (induction "length s" arbitrary: s acc rule: less_induct)
  case less
  have e: "length (snd (endOfList s)) \<le> length s" by (simp add: endOfList_def)
  show ?case
  proof (cases "fst (endOfList s)")
    case True
    then have "list_loop body add acc s = Some (Inr (acc, snd (endOfList s)))" by (subst list_loop.simps) simp
    with e show ?thesis by simp
  next
    case False
    let ?s = "snd (endOfList s)"
    have b: "body ?s \<noteq> None" "\<And>x r. body ?s = Some (Inr (x, r)) \<Longrightarrow> length r < length ?s"
      using assms(1) e less(2) unfolding cons_upto_def by auto
    show ?thesis
    proof (cases "body ?s")
      case (Some y)
      show ?thesis
      proof (cases y)
        case (Inl err)
        with Some False have "list_loop body add acc s = Some (Inl err)" by (subst list_loop.simps) simp
        then show ?thesis by simp
      next
        case (Inr z)
        then obtain x r where z: "body ?s = Some (Inr (x, r))" using Some by (cases z) auto
        then have "length r < length s" using b(2) e by force
        moreover have "list_loop body add acc s = list_loop body add (add x acc) r"
          using False z by (subst list_loop.simps) simp
        ultimately show ?thesis using less(1) [of r "add x acc"] less(2) by force
      qed
    qed (use b in simp)
  qed
qed

lemma ret_list_loop [returns_intros]: "cons_upto n body \<Longrightarrow> ret_upto n (list_loop body add acc)"
  unfolding ret_upto_def by (intro allI impI) (rule list_loop_returns)

lemma ret_parseStrings: "cons_upto n (parseStrings b)"
  unfolding parseStrings_def by (cases b; simp; intro returns_intros; simp)

lemma ret_mono: "ret_upto n p \<Longrightarrow> m \<le> n \<Longrightarrow> ret_upto m p"
  unfolding ret_upto_def by (meson order_trans)

lemma ret_node: "ret_upto n (parseDerivedPathMapNode (Suc n) ver)"
proof (induction n arbitrary: ver)
  case 0
  show ?case by (simp add: ret_upto_def peek_def bindP_def retP_def parseStrings_def expect_def failP_def)
next
  case (Suc n)
  have child: "cons_upto (Suc n)
      (bindP (expect ''('') (\<lambda>_. bindP parseString (\<lambda>outputName.
             bindP (expect '','') (\<lambda>_. bindP (parseDerivedPathMapNode (Suc n) ver) (\<lambda>node.
             bindP (expect '')'') (\<lambda>_. retP (outputName, node)))))))"
    by (rule cons_bind_less) (intro returns_intros Suc.IH cons_ret [OF cons_parseString] | simp)+
  have "ret_upto (Suc n) (\<lambda>s. if ver = Traditional \<or> peek s = Some (CHR ''['')
      then bindP (parseStrings False) (\<lambda>v. retP (ChildNode v [])) s
      else if peek s = Some (CHR ''('') then
        bindP (expect ''('') (\<lambda>_. bindP (parseStrings False) (\<lambda>v.
        bindP (expect '',['') (\<lambda>_.
        bindP (list_loop
            (bindP (expect ''('') (\<lambda>_. bindP parseString (\<lambda>outputName.
             bindP (expect '','') (\<lambda>_. bindP (parseDerivedPathMapNode (Suc n) ver) (\<lambda>node.
             bindP (expect '')'') (\<lambda>_. retP (outputName, node)))))))
            (\<lambda>(n, c). map_put n c) []) (\<lambda>m.
        bindP (expect '')'') (\<lambda>_. retP (ChildNode v m)))))) s
      else failP ''invalid inputDrvs entry in derivation'' s)"
  proof -
    have "ret_upto (Suc n) (bindP (parseStrings False) (\<lambda>v. retP (ChildNode v [])))"
      by (intro returns_intros cons_ret [OF ret_parseStrings])
    moreover have "ret_upto (Suc n) (bindP (expect ''('') (\<lambda>_. bindP (parseStrings False) (\<lambda>v.
        bindP (expect '',['') (\<lambda>_.
        bindP (list_loop
            (bindP (expect ''('') (\<lambda>_. bindP parseString (\<lambda>outputName.
             bindP (expect '','') (\<lambda>_. bindP (parseDerivedPathMapNode (Suc n) ver) (\<lambda>node.
             bindP (expect '')'') (\<lambda>_. retP (outputName, node)))))))
            (\<lambda>(n, c). map_put n c) []) (\<lambda>m.
        bindP (expect '')'') (\<lambda>_. retP (ChildNode v m)))))))"
      by (intro returns_intros child cons_ret [OF ret_parseStrings])
    moreover have "ret_upto (Suc n) (failP ''invalid inputDrvs entry in derivation'' :: ChildNode stream)"
      by (intro returns_intros)
    ultimately show ?thesis unfolding ret_upto_def by auto
  qed
  then show ?case by (simp only: parseDerivedPathMapNode.simps ret_upto_def)
qed

lemma parseStorePath_returns: "parseStorePath d p \<noteq> None"
proof (cases "is_absolute p")
  case True
  then show ?thesis by (simp add: parseStorePath_def canonPath_plain)
next
  case False
  then show ?thesis by (simp add: parseStorePath_def canonPath_def)
qed

lemma ret_fields: "parseDerivationOutput_fields sd a b c \<noteq> None"
  using parseStorePath_returns by (auto simp: parseDerivationOutput_fields_def bind_ro_None_iff simp del: not_None_eq)

lemma ret_parseStorePathSet: "parseStorePathSet d ps \<noteq> None"
proof -
  have "fold_ro (\<lambda>i res. bind_ro (parseStorePath d i) (\<lambda>p. Some (Inr (set_put p res)))) ps acc \<noteq> None" for acc
    by (induction ps arbitrary: acc)
      (auto simp: bind_ro_None_iff parseStorePath_returns simp del: not_None_eq)
  then show ?thesis by (simp add: parseStorePathSet_def)
qed

lemma ret_parseVersion: "cons_upto n (parseVersion sd)"
proof -
  have a: "ret_upto n (bindP (expect ''erive('') (\<lambda>_. retP Traditional))" by (intro returns_intros)
  have b: "ret_upto n (bindP (expect ''rvWithVersion('') (\<lambda>_. bindP parseString (\<lambda>versionS.
           if versionS = ''xp-dyn-drv'' then
             bindP (liftP (Some (require (sd_xp sd) DynamicDerivations))) (\<lambda>_.
             bindP (expect '','') (\<lambda>_. retP DynDrv))
           else failP ''Unknown derivation ATerm format version '%s'.'')))"
    by (intro returns_intros cons_ret [OF cons_parseString]) (auto intro!: returns_intros)
  show ?thesis
    unfolding parseVersion_def by (rule cons_bind [OF cons_expect]) (use a b in \<open>auto simp: ret_upto_def\<close>)
qed

lemma ret_parseEnv: "cons_upto n (parseEnv sd)"
  unfolding parseEnv_def
  by (rule cons_bind [OF cons_expect]) (auto intro!: returns_intros cons_ret [OF cons_parseString])

lemma ret_parseOutputEntry: "cons_upto n (parseOutputEntry sd)"
  unfolding parseOutputEntry_def parseDerivationOutput_def
  by (rule cons_bind [OF cons_expect]) (auto intro!: returns_intros cons_ret [OF cons_parseString] ret_fields)

lemma ret_parseInputEntry: "cons_upto n (parseInputEntry sd (Suc n) ver)"
  unfolding parseInputEntry_def
  by (rule cons_bind [OF cons_expect])
    (auto intro!: returns_intros cons_ret [OF cons_parsePath] ret_node parseStorePath_returns)


lemma bindP_some:
  assumes "length s \<le> Suc n" "cons_upto (Suc n) m" "\<And>x. ret_upto n (f x)"
  shows "bindP m f s \<noteq> None"
proof -
  have "cons_upto (Suc n) (bindP m f)" by (rule cons_bind_less) (rule assms)+
  with assms(1) show ?thesis unfolding cons_upto_def by blast
qed

theorem parse_derivation_returns: "parseDerivation sd s name \<noteq> None"
proof (cases "length s")
  case 0
  then show ?thesis by (simp add: parseDerivation_def parseVersion_def bindP_def expect_def)
next
  case (Suc n)
  have wrap: "bind_ro m (\<lambda>(drv, _). Some (Inr drv)) \<noteq> None" if "m \<noteq> None" for m :: "('a Derivation \<times> string) res option"
    using that by (auto simp: bind_ro_None_iff)
  show ?thesis
    unfolding parseDerivation_def
    apply (rule wrap)
    unfolding Suc
    by (rule bindP_some [where n = n])
      (simp add: Suc, rule ret_parseVersion, intro returns_intros ret_parseOutputEntry ret_parseInputEntry
        cons_ret [OF ret_parseStrings] ret_parseStorePathSet cons_ret [OF cons_parseString] ret_parseEnv cons_parseString)
qed


section \<open>Properties\<close>

text \<open>An example: one deferred output, no inputs.\<close>

definition example_config :: "nat StoreDirConfig" where
  "example_config = \<lparr>sd_digest = (\<lambda>_ _. []), sd_xp = [], sd_dir = rend_root [''nix'', ''store''],
     sd_json_parse = (\<lambda>_. Inl (NixError Error ''json'')), sd_json_dump = (\<lambda>_. [])\<rparr>"

definition example_drv :: "nat Derivation" where
  "example_drv = \<lparr>outputs = [(''out'', Deferred)], inputSrcs = [], platform = ''x86_64-linux'', builder = ''/bin/sh'',
     drv_args = [''-c'', [dq, bsl]], drv_env = [(''out'', [])], structuredAttrs = None, drv_name = ''hello'', inputDrvs = []\<rparr>"

lemma example_ok: "derivation_ok example_config example_drv"
proof -
  have "plain (rend_root [''nix'', ''store''])" by (simp add: rend_root_def rend_def dq_def bsl_def)
  moreover have "list_all comp_ok [''nix'', ''store'']" by (simp add: comp_ok_def)
  ultimately have "dir_ok (sd_dir example_config)" unfolding dir_ok_def by (auto simp: example_config_def)
  moreover have "plain ''x86_64-linux''" "plain ''out''" by (simp_all add: dq_def bsl_def)
  ultimately show ?thesis
    by (simp add: derivation_ok_def example_config_def example_drv_def output_entry_ok_def output_ok_def hasDynamicDrvDep_def envVarName_def)
qed

text \<open>C3: a derivation that is printed and read back under its name is the same derivation, whatever
  its outputs (input-addressed, fixed, floating, deferred, impure), inputs (nested dynamic ones
  included), builder, arguments, environment and structured attributes, as long as the platform has
  no quote or backslash and no environment variable takes the reserved key.\<close>

theorem derivation_roundtrip:
  assumes "derivation_ok sd drv"
  shows "\<exists>s. unparse sd False None drv = Inr s \<and> parseDerivation sd s (drv_name drv) = Some (Inr drv)"
  using assms by (rule parse_unparse)

theorem derivation_roundtrip_witness:
  "\<exists>s. unparse example_config False None example_drv = Inr s \<and>
    parseDerivation example_config s ''hello'' = Some (Inr example_drv)"
  using derivation_roundtrip [OF example_ok] by (simp add: example_drv_def)

text \<open>C29: reading a derivation returns a derivation or an error for every text: each loop consumes
  input, and the length of the text bounds the nesting of dynamic derivation inputs.\<close>

theorem parseDerivation_returns: "\<exists>r. parseDerivation sd s name = Some r"
  using parse_derivation_returns by blast

text \<open>C35: the platform is printed without escaping: a platform that contains a quote changes which
  derivation the printed text stands for, here the builder, the arguments and the environment.\<close>

theorem platform_not_escaped:
  assumes "derivation_ok sd drv"
  shows "\<exists>s. unparse sd False None (drv\<lparr>platform := evil\<rparr>) = Inr s \<and>
    parseDerivation sd s (drv_name drv) =
      Some (Inr (drv\<lparr>platform := ''x'', builder := ''b'', drv_args := [], drv_env := [], structuredAttrs := None\<rparr>))"
  using assms by (rule platform_injection)

theorem platform_not_escaped_witness:
  "\<exists>s. unparse example_config False None (example_drv\<lparr>platform := evil\<rparr>) = Inr s \<and>
    parseDerivation example_config s ''hello'' = Some (Inr (example_drv\<lparr>platform := ''x'', builder := ''b'',
      drv_args := [], drv_env := [], structuredAttrs := None\<rparr>))"
  using platform_not_escaped [OF example_ok] by (simp add: example_drv_def)

end
