(* ===== verification/State_Res.thy ===== *)
theory State_Res
  imports Prelude
begin

text \<open>
  Computations that may throw, may not return, and update a state that survives a throw: a state
  transformer to an optional pair of a result and the new state. \<open>None\<close> is a computation that does
  not return (or whose fuel is exhausted).
\<close>

type_synonym ('a, 's) st = "'s \<Rightarrow> ('a res \<times> 's) option"

definition retS :: "'a \<Rightarrow> ('a, 's) st" where "retS x s = Some (Inr x, s)"

definition bindS :: "('a, 's) st \<Rightarrow> ('a \<Rightarrow> ('b, 's) st) \<Rightarrow> ('b, 's) st" where
  "bindS m f s =
     (case m s of
        None \<Rightarrow> None
      | Some (Inl e, s1) \<Rightarrow> Some (Inl e, s1)
      | Some (Inr x, s1) \<Rightarrow> f x s1)"

definition liftS :: "'a res \<Rightarrow> ('a, 's) st" where "liftS r s = Some (r, s)"

definition liftRo :: "'a res option \<Rightarrow> ('a, 's) st" where "liftRo r s = map_option (\<lambda>x. (x, s)) r"

definition throwS :: "err_class \<Rightarrow> string \<Rightarrow> ('a, 's) st" where "throwS c m s = Some (Inl (NixError c m), s)"

fun foldS :: "('a \<Rightarrow> 'b \<Rightarrow> ('b, 's) st) \<Rightarrow> 'a list \<Rightarrow> 'b \<Rightarrow> ('b, 's) st" where
  "foldS f [] b = retS b"
| "foldS f (x # xs) b = bindS (f x b) (foldS f xs)"

lemma bindS_retS [simp]: "bindS (retS x) f = f x"
  by (rule ext) (simp add: bindS_def retS_def)

lemma bindS_liftS_Inr [simp]: "bindS (liftS (Inr x)) f = f x"
  by (rule ext) (simp add: bindS_def liftS_def)

lemma bindS_liftS_Inl [simp]: "bindS (liftS (Inl e)) f = liftS (Inl e)"
  by (rule ext) (simp add: bindS_def liftS_def)

lemma bindS_throwS [simp]: "bindS (throwS c m) f = throwS c m"
  by (rule ext) (simp add: bindS_def throwS_def)

lemma bindS_assoc: "bindS (bindS m f) g = bindS m (\<lambda>x. bindS (f x) g)"
  by (rule ext) (simp add: bindS_def split: option.splits prod.splits sum.splits)

lemma bindS_cong:
  "m s = m' s \<Longrightarrow> (\<And>x s1. m' s = Some (Inr x, s1) \<Longrightarrow> f x s1 = f' x s1) \<Longrightarrow> bindS m f s = bindS m' f' s"
  by (auto simp: bindS_def split: option.splits prod.splits sum.splits)

lemma bindS_Some:
  "(bindS m f s = Some (r, s')) =
     ((\<exists>e. m s = Some (Inl e, s') \<and> r = Inl e) \<or> (\<exists>x s1. m s = Some (Inr x, s1) \<and> f x s1 = Some (r, s')))"
  by (auto simp: bindS_def split: option.splits prod.splits sum.splits)

lemma bindS_Inr:
  "(bindS m f s = Some (Inr y, s')) = (\<exists>x s1. m s = Some (Inr x, s1) \<and> f x s1 = Some (Inr y, s'))"
  by (auto simp: bindS_Some)

lemma bindS_None: "(bindS m f s = None) = (m s = None \<or> (\<exists>x s1. m s = Some (Inr x, s1) \<and> f x s1 = None))"
  by (auto simp: bindS_def split: option.splits prod.splits sum.splits)

lemma retS_Some [simp]: "(retS x s = Some (r, s')) = (r = Inr x \<and> s' = s)"
  by (auto simp: retS_def)

lemma liftS_Some [simp]: "(liftS y s = Some (r, s')) = (y = r \<and> s' = s)"
  by (auto simp: liftS_def)

lemma liftRo_Some [simp]: "(liftRo y s = Some (r, s')) = (y = Some r \<and> s' = s)"
  by (auto simp: liftRo_def)

lemma throwS_Some [simp]: "(throwS c m s = Some (r, s')) = (r = Inl (NixError c m) \<and> s' = s)"
  by (auto simp: throwS_def)

lemma returns_simps [simp]: "retS x s \<noteq> None" "liftS r s \<noteq> None" "throwS c m s \<noteq> None" "(liftRo y s = None) = (y = None)"
  by (simp_all add: retS_def liftS_def throwS_def liftRo_def)

text \<open>A computation that returns from every state.\<close>

definition total_st :: "('a, 's) st \<Rightarrow> bool" where
  "total_st m = (\<forall>s. m s \<noteq> None)"

named_theorems total_intros

lemma total_simple [total_intros, simp]: "total_st (retS x)" "total_st (liftS r)" "total_st (throwS c m)"
  by (simp_all add: total_st_def retS_def liftS_def throwS_def)

lemma total_liftRo [total_intros]: "r \<noteq> None \<Longrightarrow> total_st (liftRo r)"
  by (simp add: total_st_def liftRo_def)

lemma total_bind [total_intros]: "total_st m \<Longrightarrow> (\<And>x. total_st (f x)) \<Longrightarrow> total_st (bindS m f)"
  unfolding total_st_def bindS_None by blast

lemma total_fold [total_intros]: "(\<And>x b. x \<in> set xs \<Longrightarrow> total_st (f x b)) \<Longrightarrow> total_st (foldS f xs b)"
  by (induction xs arbitrary: b) (auto intro!: total_intros)

end
