(* ===== verification/Derivation_Modulo.thy ===== *)
theory Derivation_Modulo
  imports Derivation_ATerm State_Res Source_Accessor
begin

text \<open>
  What a derivation is (\<open>DerivationType\<close>), its store path, and its hash modulo fixed-output inputs:
  \<open>BasicDerivation::type\<close>, \<open>computeStorePath\<close>, \<open>hashDerivationModulo\<close> with its memo table \<open>drvHashes\<close>,
  \<open>fillInOutputPaths\<close> and \<open>checkInvariants\<close> of \<open>src/src/libstore/derivations.cc\<close>.

  The store is a parameter: \<open>acc drvPath\<close> is \<open>requireStoreObjectAccessor\<close>, from which
  \<open>readDerivationCommon\<close> reads and parses a derivation. The recursion over input derivations takes
  fuel, since nothing in the code prevents a cyclic store; any number above the depth of the input
  graph is enough (\<open>hashDerivationModulo_returns\<close>).
\<close>

section \<open>The type of a derivation\<close>

datatype DerivationType = InputAddressedType bool | ContentAddressedType bool bool | ImpureType

text \<open>\<open>InputAddressedType deferred\<close>, \<open>ContentAddressedType sandboxed fixed\<close>.\<close>

fun isCA :: "DerivationType \<Rightarrow> bool" where
  "isCA (InputAddressedType d) = False"
| "isCA (ContentAddressedType s f) = True"
| "isCA ImpureType = True"

fun isFixed :: "DerivationType \<Rightarrow> bool" where
  "isFixed (InputAddressedType d) = False"
| "isFixed (ContentAddressedType s f) = f"
| "isFixed ImpureType = False"

fun hasKnownOutputPaths :: "DerivationType \<Rightarrow> bool" where
  "hasKnownOutputPaths (InputAddressedType d) = (\<not> d)"
| "hasKnownOutputPaths (ContentAddressedType s f) = f"
| "hasKnownOutputPaths ImpureType = False"

fun isSandboxed :: "DerivationType \<Rightarrow> bool" where
  "isSandboxed (InputAddressedType d) = True"
| "isSandboxed (ContentAddressedType s f) = s"
| "isSandboxed ImpureType = False"

fun isImpure :: "DerivationType \<Rightarrow> bool" where
  "isImpure (InputAddressedType d) = False"
| "isImpure (ContentAddressedType s f) = False"
| "isImpure ImpureType = True"

definition isBuiltin :: "('j, 'm) BasicDerivation_scheme \<Rightarrow> bool" where
  "isBuiltin drv = (take 8 (builder drv) = ''builtin:'')"

definition decide :: "DerivationType \<Rightarrow> DerivationType option \<Rightarrow> DerivationType option res" where
  "decide newTy ty =
     (case ty of
        None \<Rightarrow> Inr (Some newTy)
      | Some t \<Rightarrow>
          if t \<noteq> newTy then Inl (NixError Error ''can't mix derivation output types'')
          else if t = ContentAddressedType False True
          then Inl (NixError Error ''only one fixed output is allowed for now'')
          else Inr ty)"

definition type_output ::
    "string \<times> DerivationOutput \<Rightarrow> HashAlgorithm option \<times> DerivationType option
     \<Rightarrow> (HashAlgorithm option \<times> DerivationType option) res" where
  "type_output i s =
     (case snd i of
        InputAddressed p \<Rightarrow> bind_res (decide (InputAddressedType False) (snd s)) (\<lambda>ty. Inr (fst s, ty))
      | CAFixed ca \<Rightarrow>
          bind_res (decide (ContentAddressedType False True) (snd s)) (\<lambda>ty.
          bind_res (throw_if (fst i \<noteq> ''out'') Error ''single fixed output must be named out'') (\<lambda>_. Inr (fst s, ty)))
      | CAFloating m a \<Rightarrow>
          bind_res (decide (ContentAddressedType True False) (snd s)) (\<lambda>ty.
            case fst s of
              None \<Rightarrow> Inr (Some a, ty)
            | Some b \<Rightarrow>
                bind_res (throw_if (b \<noteq> a) Error ''all floating outputs must use the same hash algorithm'')
                  (\<lambda>_. Inr (Some b, ty)))
      | Deferred \<Rightarrow> bind_res (decide (InputAddressedType True) (snd s)) (\<lambda>ty. Inr (fst s, ty))
      | Impure m a \<Rightarrow> bind_res (decide ImpureType (snd s)) (\<lambda>ty. Inr (fst s, ty)))"

definition drv_type :: "('j, 'm) BasicDerivation_scheme \<Rightarrow> DerivationType res" where
  "drv_type drv =
     bind_res (fold_res type_output (outputs drv) (None, None)) (\<lambda>(_, ty).
       case ty of None \<Rightarrow> Inl (NixError Error ''must have at least one output'') | Some t \<Rightarrow> Inr t)"

definition outputNames :: "('j, 'm) BasicDerivation_scheme \<Rightarrow> string list" where
  "outputNames drv = fold (\<lambda>i. set_put (fst i)) (outputs drv) []"

definition outputsAndOptPaths ::
    "'j StoreDirConfig \<Rightarrow> ('j, 'm) BasicDerivation_scheme
     \<Rightarrow> (string \<times> DerivationOutput \<times> StorePath option) list res" where
  "outputsAndOptPaths sd drv =
     fold_res (\<lambda>(n, out) m. bind_res (output_path sd (drv_name drv) n out) (\<lambda>p. Inr (fst (map_emplace n (out, p) m))))
       (outputs drv) []"

definition nameFromPath :: "StorePath \<Rightarrow> string res" where
  "nameFromPath drvPath =
     bind_res (requireDerivation drvPath) (\<lambda>_.
     bind_res (path_name drvPath) (\<lambda>n. Inr (take (length n - length drvExtension) n)))"

section \<open>The path of a derivation\<close>

definition infoForDerivation ::
    "'j StoreDirConfig \<Rightarrow> 'j Derivation \<Rightarrow> (string \<times> string \<times> StorePath list \<times> StorePath) res" where
  "infoForDerivation sd drv =
     (let references = fold (\<lambda>i. set_put (fst i)) (inputDrvs drv) (inputSrcs drv);
          suffix = drv_name drv @ drvExtension
      in bind_res (unparse sd False None drv) (\<lambda>contents.
         bind_res (hashString (sd_digest sd) (sd_xp sd) SHA256 contents) (\<lambda>h.
         bind_res (makeFixedOutputPathFromCA (sd_digest sd) (sd_xp sd) (sd_dir sd) suffix (TextInfo h references))
           (\<lambda>path. Inr (suffix, contents, references, path)))))"

definition computeStorePath :: "'j StoreDirConfig \<Rightarrow> 'j Derivation \<Rightarrow> StorePath res" where
  "computeStorePath sd drv = bind_res (infoForDerivation sd drv) (\<lambda>(_, _, _, path). Inr path)"

section \<open>Reading derivations from the store\<close>

definition rethrow_format :: "'a res \<Rightarrow> 'a res" where
  "rethrow_format r =
     (case r of
        Inl (NixError c m) \<Rightarrow> Inl (if c = FormatError then NixError Error ''error parsing derivation '%s': %s'' else NixError c m)
      | Inr x \<Rightarrow> Inr x)"

definition readDerivationCommon ::
    "'j StoreDirConfig \<Rightarrow> (StorePath \<Rightarrow> SourceAccessor res) \<Rightarrow> StorePath \<Rightarrow> 'j Derivation res option" where
  "readDerivationCommon sd acc drvPath =
     bind_ro (Some (bind_res (acc drvPath) (\<lambda>a. readFile_string a root))) (\<lambda>contents.
       map_option rethrow_format
         (bind_ro (Some (throw_if (contents = []) FormatError ''file is empty (possible filesystem corruption)'')) (\<lambda>_.
          bind_ro (Some (nameFromPath drvPath)) (\<lambda>name. parseDerivation sd contents name))))"

section \<open>Hashes modulo\<close>

datatype DrvHashModulo = DrvHash Hash | CaOutputHashes "(string \<times> Hash) list" | DeferredDrv

type_synonym DrvHashes = "StorePath \<Rightarrow> DrvHashModulo option"

definition fixed_output_hash ::
    "'j StoreDirConfig \<Rightarrow> string \<Rightarrow> string \<times> DerivationOutput \<Rightarrow> (string \<times> Hash) list \<Rightarrow> (string \<times> Hash) list res" where
  "fixed_output_hash sd drvName i outputHashes =
     (case snd i of
        CAFixed ca \<Rightarrow>
          bind_res (printMethodAlgo (sd_xp sd) ca) (\<lambda>ma.
          bind_res (hash_to_string (ca_hash ca) Base16 False) (\<lambda>hs.
          bind_res (caFixed_path sd drvName (fst i) ca) (\<lambda>p.
          bind_res (hashString (sd_digest sd) (sd_xp sd) SHA256
              (''fixed:out:'' @ ma @ '':'' @ hs @ '':'' @ printStorePath (sd_dir sd) p)) (\<lambda>h.
            Inr (map_put (fst i) h outputHashes)))))
      | _ \<Rightarrow> Inl (NixError AssertionFailure ''bad_variant_access''))"

definition ca_input ::
    "(string \<times> Hash) list \<Rightarrow> string \<Rightarrow> (string \<times> ChildNode) list \<Rightarrow> (string \<times> ChildNode) list res" where
  "ca_input outputHashes outputName inputs2 =
     (case map_of outputHashes outputName of
        None \<Rightarrow> Inl (NixError Error ''no hash for output '%s' of derivation %s'')
      | Some h \<Rightarrow>
          bind_res (hash_to_string h Base16 False) (\<lambda>k. Inr (map_put k (ChildNode [''out''] []) inputs2)))"

text \<open>The loop over the input derivations; \<open>None\<close> as a result is the early return of \<open>DeferredDrv\<close>.\<close>

fun hash_inputs ::
    "(StorePath \<Rightarrow> (DrvHashModulo, 's) st) \<Rightarrow> (StorePath \<times> ChildNode) list \<Rightarrow> (string \<times> ChildNode) list
     \<Rightarrow> ((string \<times> ChildNode) list option, 's) st" where
  "hash_inputs pm [] inputs2 = retS (Some inputs2)"
| "hash_inputs pm ((drvPath, node) # rest) inputs2 =
     (if childMap node \<noteq> [] then retS None
      else bindS (pm drvPath) (\<lambda>r.
        case r of
          DeferredDrv \<Rightarrow> retS None
        | DrvHash drvHash \<Rightarrow>
            bindS (liftS (hash_to_string drvHash Base16 False)) (\<lambda>k. hash_inputs pm rest (map_put k node inputs2))
        | CaOutputHashes outputHashes \<Rightarrow>
            bindS (liftS (fold_res (ca_input outputHashes) (node_value node) inputs2)) (hash_inputs pm rest)))"

definition modulo_body ::
    "'j StoreDirConfig \<Rightarrow> (StorePath \<Rightarrow> (DrvHashModulo, 's) st) \<Rightarrow> 'j Derivation \<Rightarrow> bool \<Rightarrow> (DrvHashModulo, 's) st" where
  "modulo_body sd pm drv maskOutputs =
     bindS (liftS (drv_type drv)) (\<lambda>ty.
       if isFixed ty then
         bindS (liftS (fold_res (fixed_output_hash sd (drv_name drv)) (outputs drv) [])) (\<lambda>m. retS (CaOutputHashes m))
       else case ty of
         InputAddressedType d \<Rightarrow>
           bindS (hash_inputs pm (inputDrvs drv) []) (\<lambda>r.
             case r of
               None \<Rightarrow> retS DeferredDrv
             | Some inputs2 \<Rightarrow>
                 bindS (liftS (unparse sd maskOutputs (Some inputs2) drv)) (\<lambda>t.
                 bindS (liftS (hashString (sd_digest sd) (sd_xp sd) SHA256 t)) (\<lambda>h. retS (DrvHash h))))
       | _ \<Rightarrow> retS DeferredDrv)"

text \<open>\<open>hdm\<close> is the recursive call \<open>hashDerivationModulo(store, drv, false)\<close>.\<close>

definition pathDerivationModulo ::
    "(StorePath \<Rightarrow> 'j Derivation res option) \<Rightarrow> ('j Derivation \<Rightarrow> (DrvHashModulo, DrvHashes) st)
     \<Rightarrow> StorePath \<Rightarrow> (DrvHashModulo, DrvHashes) st" where
  "pathDerivationModulo rd hdm drvPath drvHashes =
     (case drvHashes drvPath of
        Some h \<Rightarrow> retS h drvHashes
      | None \<Rightarrow>
          bindS (bindS (liftRo (rd drvPath)) hdm) (\<lambda>h drvHashes1. Some (Inr h, drvHashes1(drvPath \<mapsto> h))) drvHashes)"

fun hashDerivationModulo ::
    "nat \<Rightarrow> 'j StoreDirConfig \<Rightarrow> (StorePath \<Rightarrow> 'j Derivation res option) \<Rightarrow> 'j Derivation \<Rightarrow> bool
     \<Rightarrow> (DrvHashModulo, DrvHashes) st" where
  "hashDerivationModulo 0 sd rd drv maskOutputs = (\<lambda>_. None)"
| "hashDerivationModulo (Suc fuel) sd rd drv maskOutputs =
     modulo_body sd (pathDerivationModulo rd (\<lambda>d. hashDerivationModulo fuel sd rd d False)) drv maskOutputs"

section \<open>Output paths\<close>

definition envHasRightPath ::
    "'j StoreDirConfig \<Rightarrow> bool \<Rightarrow> string \<Rightarrow> StorePath \<Rightarrow> 'j Derivation \<Rightarrow> 'j Derivation res" where
  "envHasRightPath sd fillIn outputName actual drv =
     (let p = printStorePath (sd_dir sd) actual;
          drv1 = (if fillIn \<and> (map_of (drv_env drv) outputName = None \<or> map_of (drv_env drv) outputName = Some [])
                  then drv\<lparr>drv_env := map_put outputName p (drv_env drv)\<rparr> else drv)
      in case map_of (drv_env drv1) outputName of
           None \<Rightarrow> Inl (NixError Error ''derivation has missing environment variable '%s', should be '%s' but is not present'')
         | Some v \<Rightarrow>
             bind_res (throw_if (v \<noteq> p) Error
               ''derivation has incorrect environment variable '%s', should be '%s' but is actually %s'')
               (\<lambda>_. Inr drv1))"

text \<open>\<open>hashModulo()\<close> computes the hash of the derivation as it is at the first call and keeps it.\<close>

definition lazy_modulo ::
    "('j Derivation \<Rightarrow> (DrvHashModulo, DrvHashes) st) \<Rightarrow> 'j Derivation \<times> DrvHashModulo option
     \<Rightarrow> (DrvHashModulo, DrvHashes) st" where
  "lazy_modulo hdm s = (case snd s of Some h \<Rightarrow> retS h | None \<Rightarrow> hdm (fst s))"

definition process_output ::
    "'j StoreDirConfig \<Rightarrow> ('j Derivation \<Rightarrow> (DrvHashModulo, DrvHashes) st) \<Rightarrow> bool \<Rightarrow> string \<Rightarrow> string \<times> DerivationOutput
     \<Rightarrow> 'j Derivation \<times> DrvHashModulo option \<Rightarrow> ('j Derivation \<times> DrvHashModulo option, DrvHashes) st" where
  "process_output sd hdm fillIn drvName i s =
     (case snd i of
        InputAddressed path \<Rightarrow>
          bindS (lazy_modulo hdm s) (\<lambda>h.
            case h of
              DrvHash drvHash \<Rightarrow>
                bindS (liftS (makeOutputPath (sd_digest sd) (sd_xp sd) (sd_dir sd) (fst i) drvHash drvName)) (\<lambda>outPath.
                  if path = outPath
                  then bindS (liftS (envHasRightPath sd fillIn (fst i) outPath (fst s))) (\<lambda>drv. retS (drv, Some h))
                  else throwS Error ''derivation has incorrect output '%s', should be %s'')
            | CaOutputHashes m \<Rightarrow> throwS AssertionFailure ''assert''
            | DeferredDrv \<Rightarrow> throwS Error ''derivation has incorrect output '%s', should be deferred'')
      | Deferred \<Rightarrow>
          bindS (lazy_modulo hdm s) (\<lambda>h.
            case h of
              DrvHash drvHash \<Rightarrow>
                bindS (liftS (makeOutputPath (sd_digest sd) (sd_xp sd) (sd_dir sd) (fst i) drvHash drvName)) (\<lambda>outPath.
                  if fillIn
                  then bindS (liftS (envHasRightPath sd fillIn (fst i) outPath
                         ((fst s)\<lparr>outputs := map_put (fst i) (InputAddressed outPath) (outputs (fst s))\<rparr>)))
                       (\<lambda>drv. retS (drv, Some h))
                  else retS (fst s, Some h))
            | CaOutputHashes m \<Rightarrow> throwS AssertionFailure ''assert''
            | DeferredDrv \<Rightarrow> retS (fst s, Some h))
      | CAFixed ca \<Rightarrow>
          bindS (liftS (caFixed_path sd drvName (fst i) ca)) (\<lambda>p.
          bindS (liftS (envHasRightPath sd fillIn (fst i) p (fst s))) (\<lambda>drv. retS (drv, snd s)))
      | _ \<Rightarrow> retS s)"

definition processDerivationOutputPaths ::
    "'j StoreDirConfig \<Rightarrow> ('j Derivation \<Rightarrow> (DrvHashModulo, DrvHashes) st) \<Rightarrow> bool \<Rightarrow> string \<Rightarrow> 'j Derivation
     \<Rightarrow> ('j Derivation, DrvHashes) st" where
  "processDerivationOutputPaths sd hdm fillIn drvName drv =
     bindS (foldS (process_output sd hdm fillIn drvName) (outputs drv) (drv, None)) (\<lambda>s.
     bindS (liftS (drv_type (fst s))) (\<lambda>_. retS (fst s)))"

definition fillInOutputPaths ::
    "nat \<Rightarrow> 'j StoreDirConfig \<Rightarrow> (StorePath \<Rightarrow> 'j Derivation res option) \<Rightarrow> 'j Derivation
     \<Rightarrow> ('j Derivation, DrvHashes) st" where
  "fillInOutputPaths fuel sd rd drv =
     processDerivationOutputPaths sd (\<lambda>d. hashDerivationModulo fuel sd rd d True) True (drv_name drv) drv"

definition checkInvariants ::
    "nat \<Rightarrow> 'j StoreDirConfig \<Rightarrow> (StorePath \<Rightarrow> 'j Derivation res option) \<Rightarrow> 'j Derivation \<Rightarrow> (unit, DrvHashes) st" where
  "checkInvariants fuel sd rd drv =
     bindS (processDerivationOutputPaths sd (\<lambda>d. hashDerivationModulo fuel sd rd d True) False (drv_name drv) drv)
       (\<lambda>_. retS ())"

definition checkInvariants_path ::
    "nat \<Rightarrow> 'j StoreDirConfig \<Rightarrow> (StorePath \<Rightarrow> 'j Derivation res option) \<Rightarrow> StorePath \<Rightarrow> 'j Derivation
     \<Rightarrow> (unit, DrvHashes) st" where
  "checkInvariants_path fuel sd rd drvPath drv =
     bindS (liftS (isDerivation drvPath)) (\<lambda>b.
     bindS (liftS (assert_res b)) (\<lambda>_.
     bindS (liftS (path_name drvPath)) (\<lambda>n.
       if take (length n - length drvExtension) n \<noteq> drv_name drv
       then throwS Error ''derivation '%s' has name '%s' which does not match its path''
       else checkInvariants fuel sd rd drv)))"

text \<open>\<open>parseJsonAndValidate\<close>, after the JSON library and the decoder have given a derivation.\<close>

definition fill_and_validate ::
    "nat \<Rightarrow> 'j StoreDirConfig \<Rightarrow> (StorePath \<Rightarrow> 'j Derivation res option) \<Rightarrow> 'j Derivation
     \<Rightarrow> ('j Derivation, DrvHashes) st" where
  "fill_and_validate fuel sd rd drv =
     bindS (fillInOutputPaths fuel sd rd drv) (\<lambda>drv1.
     bindS (checkInvariants fuel sd rd drv1) (\<lambda>_. retS drv1))"

section \<open>Lemmas: types\<close>

fun kind_of :: "DerivationOutput \<Rightarrow> DerivationType" where
  "kind_of (InputAddressed p) = InputAddressedType False"
| "kind_of (CAFixed ca) = ContentAddressedType False True"
| "kind_of (CAFloating m a) = ContentAddressedType True False"
| "kind_of Deferred = InputAddressedType True"
| "kind_of (Impure m a) = ImpureType"

text \<open>The specification: at least one output, all of one kind, a fixed output alone and named \<open>out\<close>,
  floating outputs with one algorithm.\<close>

definition typed_outputs :: "DerivationType \<Rightarrow> (string \<times> DerivationOutput) list \<Rightarrow> bool" where
  "typed_outputs t os =
     (os \<noteq> [] \<and> list_all (\<lambda>i. kind_of (snd i) = t) os \<and>
      (t = ContentAddressedType False True \<longrightarrow> map fst os = [''out'']) \<and>
      (t = ContentAddressedType True False \<longrightarrow> (\<exists>a. list_all (\<lambda>i. \<exists>m. snd i = CAFloating m a) os)))"

lemma decide_Some: "(decide t (Some u) = Inr r) = (u = t \<and> t \<noteq> ContentAddressedType False True \<and> r = Some u)"
  by (auto simp: decide_def)

lemma decide_None [simp]: "decide t None = Inr (Some t)"
  by (simp add: decide_def)

lemma type_fold_plain:
  assumes "t \<noteq> ContentAddressedType False True" "t \<noteq> ContentAddressedType True False"
  shows "(fold_res type_output os (None, Some t) = Inr r) =
    (list_all (\<lambda>i. kind_of (snd i) = t) os \<and> r = (None, Some t))"
proof (induction os)
  case (Cons i os)
  have "(type_output i (None, Some t) = Inr s) = (kind_of (snd i) = t \<and> s = (None, Some t))" for s
    using assms by (cases "snd i") (auto simp: type_output_def res_simps decide_Some)
  with Cons show ?case by (auto simp: res_simps)
qed auto

lemma type_fold_fixed:
  "(fold_res type_output os (None, Some (ContentAddressedType False True)) = Inr r) =
    (os = [] \<and> r = (None, Some (ContentAddressedType False True)))"
proof (cases os)
  case (Cons i os')
  have "type_output i (None, Some (ContentAddressedType False True)) \<noteq> Inr s" for s
    by (cases "snd i") (auto simp: type_output_def res_simps decide_Some)
  with Cons show ?thesis by (auto simp: res_simps)
qed auto

lemma type_fold_floating:
  "(fold_res type_output os (Some a, Some (ContentAddressedType True False)) = Inr r) =
    (list_all (\<lambda>i. \<exists>m. snd i = CAFloating m a) os \<and> r = (Some a, Some (ContentAddressedType True False)))"
proof (induction os)
  case (Cons i os)
  have "(type_output i (Some a, Some (ContentAddressedType True False)) = Inr s) =
      ((\<exists>m. snd i = CAFloating m a) \<and> s = (Some a, Some (ContentAddressedType True False)))" for s
    by (cases "snd i") (auto simp: type_output_def res_simps decide_Some)
  with Cons show ?case by (auto simp: res_simps)
qed auto

theorem drv_type_iff: "(drv_type drv = Inr t) = typed_outputs t (outputs drv)"
proof (cases "outputs drv")
  case (Cons i os)
  obtain n out where i: "i = (n, out)" by (cases i)
  show ?thesis
  proof (cases out)
    case (CAFixed ca)
    then show ?thesis
      using Cons i type_fold_fixed [of os]
      by (auto simp: drv_type_def typed_outputs_def type_output_def res_simps split: option.splits)
  next
    case (CAFloating m a)
    have k: "list_all (\<lambda>i. \<exists>m. snd i = CAFloating m a) os \<Longrightarrow> list_all (\<lambda>i. kind_of (snd i) = ContentAddressedType True False) os"
      by (auto simp: list_all_iff)
    show ?thesis
      using Cons i CAFloating type_fold_floating [of os a] k
      by (auto simp: drv_type_def typed_outputs_def type_output_def res_simps split: option.splits)
  next
    case Deferred
    then show ?thesis
      using Cons i type_fold_plain [of "InputAddressedType True" os]
      by (auto simp: drv_type_def typed_outputs_def type_output_def res_simps split: option.splits)
  next
    case (InputAddressed p)
    then show ?thesis
      using Cons i type_fold_plain [of "InputAddressedType False" os]
      by (auto simp: drv_type_def typed_outputs_def type_output_def res_simps split: option.splits)
  next
    case (Impure m a)
    then show ?thesis
      using Cons i type_fold_plain [of "ImpureType" os]
      by (auto simp: drv_type_def typed_outputs_def type_output_def res_simps split: option.splits)
  qed
qed (simp add: drv_type_def typed_outputs_def)

section \<open>Lemmas: the memo table is transparent\<close>

text \<open>The recursion without the table.\<close>

fun modulo_ref ::
    "nat \<Rightarrow> 'j StoreDirConfig \<Rightarrow> (StorePath \<Rightarrow> 'j Derivation res option) \<Rightarrow> 'j Derivation \<Rightarrow> bool
     \<Rightarrow> (DrvHashModulo, unit) st" where
  "modulo_ref 0 sd rd drv maskOutputs = (\<lambda>_. None)"
| "modulo_ref (Suc n) sd rd drv maskOutputs =
     modulo_body sd (\<lambda>p. bindS (liftRo (rd p)) (\<lambda>d. modulo_ref n sd rd d False)) drv maskOutputs"

definition path_ref ::
    "nat \<Rightarrow> 'j StoreDirConfig \<Rightarrow> (StorePath \<Rightarrow> 'j Derivation res option) \<Rightarrow> StorePath \<Rightarrow> (DrvHashModulo, unit) st" where
  "path_ref n sd rd p = bindS (liftRo (rd p)) (\<lambda>d. modulo_ref n sd rd d False)"

lemma modulo_ref_Suc: "modulo_ref (Suc n) sd rd drv m = modulo_body sd (path_ref n sd rd) drv m"
  by (simp add: path_ref_def [abs_def])

definition table_ok :: "'j StoreDirConfig \<Rightarrow> (StorePath \<Rightarrow> 'j Derivation res option) \<Rightarrow> DrvHashes \<Rightarrow> bool" where
  "table_ok sd rd t = (\<forall>p h. t p = Some h \<longrightarrow> (\<exists>N. \<forall>n\<ge>N. path_ref n sd rd p () = Some (Inr h, ())))"

text \<open>A computation with the table agrees with a family of computations without it, from some fuel on.\<close>

definition agrees :: "(DrvHashes \<Rightarrow> bool) \<Rightarrow> ('a, DrvHashes) st \<Rightarrow> (nat \<Rightarrow> ('a, unit) st) \<Rightarrow> bool" where
  "agrees ok m F = (\<forall>t r t'. ok t \<longrightarrow> m t = Some (r, t') \<longrightarrow> ok t' \<and> (\<exists>N. \<forall>n\<ge>N. F n () = Some (r, ())))"

named_theorems agrees_intros

lemma agrees_const [agrees_intros]:
  "agrees ok (retS x) (\<lambda>n. retS x)" "agrees ok (liftS y) (\<lambda>n. liftS y)" "agrees ok (throwS c e) (\<lambda>n. throwS c e)"
  "agrees ok (liftRo z) (\<lambda>n. liftRo z)"
  by (auto simp: agrees_def)

lemma agrees_bind [agrees_intros]:
  assumes "agrees ok m F" "\<And>x. agrees ok (f x) (G x)"
  shows "agrees ok (bindS m f) (\<lambda>n. bindS (F n) (\<lambda>x. G x n))"
  unfolding agrees_def
proof (intro allI impI)
  fix t r t' assume t: "ok t" and b: "bindS m f t = Some (r, t')"
  then consider (e) e where "m t = Some (Inl e, t')" "r = Inl e"
    | (x) x t1 where "m t = Some (Inr x, t1)" "f x t1 = Some (r, t')"
    by (auto simp: bindS_Some)
  then show "ok t' \<and> (\<exists>N. \<forall>n\<ge>N. bindS (F n) (\<lambda>x. G x n) () = Some (r, ()))"
  proof cases
    case e
    with assms(1) t have "ok t'" "\<exists>N. \<forall>n\<ge>N. F n () = Some (Inl e, ())" by (auto simp: agrees_def)
    with e show ?thesis by (auto simp: bindS_Some)
  next
    case x
    with assms(1) t obtain N where N: "ok t1" "\<forall>n\<ge>N. F n () = Some (Inr x, ())" unfolding agrees_def by blast
    with assms(2) [of x] x obtain M where M: "ok t'" "\<forall>n\<ge>M. G x n () = Some (r, ())" unfolding agrees_def by blast
    have "\<forall>n\<ge>max N M. bindS (F n) (\<lambda>x. G x n) () = Some (r, ())" using N M by (simp add: bindS_Some)
    with M show ?thesis by blast
  qed
qed

lemma agrees_suc: "agrees ok m F \<Longrightarrow> (\<And>n. G (Suc n) = F n) \<Longrightarrow> agrees ok m G"
  unfolding agrees_def by (metis Suc_le_D Suc_le_mono)

lemma agrees_hash_inputs:
  assumes "\<And>p. agrees ok (pm p) (\<lambda>n. F n p)"
  shows "agrees ok (hash_inputs pm is acc) (\<lambda>n. hash_inputs (F n) is acc)"
proof (induction "is" arbitrary: acc)
  case (Cons i rest)
  obtain p node where i: "i = (p, node)" by (cases i)
  show ?case
  proof (cases "childMap node = []")
    case True
    have "agrees ok (case r of DeferredDrv \<Rightarrow> retS None
        | DrvHash drvHash \<Rightarrow> bindS (liftS (hash_to_string drvHash Base16 False)) (\<lambda>k. hash_inputs pm rest (map_put k node acc))
        | CaOutputHashes m \<Rightarrow> bindS (liftS (fold_res (ca_input m) (node_value node) acc)) (hash_inputs pm rest))
      (\<lambda>n. case r of DeferredDrv \<Rightarrow> retS None
        | DrvHash drvHash \<Rightarrow> bindS (liftS (hash_to_string drvHash Base16 False)) (\<lambda>k. hash_inputs (F n) rest (map_put k node acc))
        | CaOutputHashes m \<Rightarrow> bindS (liftS (fold_res (ca_input m) (node_value node) acc)) (hash_inputs (F n) rest))" for r
      by (cases r) (auto intro!: agrees_intros Cons.IH)
    with True show ?thesis by (auto simp: i intro!: agrees_intros assms)
  qed (auto simp: i intro: agrees_intros)
qed (auto intro: agrees_intros)

lemma agrees_modulo_body:
  assumes "\<And>p. agrees ok (pm p) (\<lambda>n. F n p)"
  shows "agrees ok (modulo_body sd pm drv m) (\<lambda>n. modulo_body sd (F n) drv m)"
proof -
  have fin: "agrees ok (case r of None \<Rightarrow> retS DeferredDrv | Some i \<Rightarrow>
      bindS (liftS (unparse sd m (Some i) drv)) (\<lambda>t. bindS (liftS (hashString (sd_digest sd) (sd_xp sd) SHA256 t)) (\<lambda>h. retS (DrvHash h))))
    (\<lambda>n. case r of None \<Rightarrow> retS DeferredDrv | Some i \<Rightarrow>
      bindS (liftS (unparse sd m (Some i) drv)) (\<lambda>t. bindS (liftS (hashString (sd_digest sd) (sd_xp sd) SHA256 t)) (\<lambda>h. retS (DrvHash h))))" for r
    by (cases r) (auto intro!: agrees_intros)
  show ?thesis
    unfolding modulo_body_def
  proof (rule agrees_bind)
    fix ty
    show "agrees ok (if isFixed ty then bindS (liftS (fold_res (fixed_output_hash sd (drv_name drv)) (outputs drv) [])) (\<lambda>m. retS (CaOutputHashes m))
       else case ty of InputAddressedType d \<Rightarrow> bindS (hash_inputs pm (inputDrvs drv) []) (\<lambda>r.
         case r of None \<Rightarrow> retS DeferredDrv | Some i \<Rightarrow>
           bindS (liftS (unparse sd m (Some i) drv)) (\<lambda>t. bindS (liftS (hashString (sd_digest sd) (sd_xp sd) SHA256 t)) (\<lambda>h. retS (DrvHash h))))
       | _ \<Rightarrow> retS DeferredDrv)
      (\<lambda>n. if isFixed ty then bindS (liftS (fold_res (fixed_output_hash sd (drv_name drv)) (outputs drv) [])) (\<lambda>m. retS (CaOutputHashes m))
       else case ty of InputAddressedType d \<Rightarrow> bindS (hash_inputs (F n) (inputDrvs drv) []) (\<lambda>r.
         case r of None \<Rightarrow> retS DeferredDrv | Some i \<Rightarrow>
           bindS (liftS (unparse sd m (Some i) drv)) (\<lambda>t. bindS (liftS (hashString (sd_digest sd) (sd_xp sd) SHA256 t)) (\<lambda>h. retS (DrvHash h))))
       | _ \<Rightarrow> retS DeferredDrv)"
      using agrees_hash_inputs [OF assms] fin by (cases ty) (auto intro!: agrees_intros)
  qed (rule agrees_const)
qed

lemma agrees_path:
  assumes "\<And>d. agrees (table_ok sd rd) (hdm d) (\<lambda>n. modulo_ref n sd rd d False)"
  shows "agrees (table_ok sd rd) (pathDerivationModulo rd hdm p) (\<lambda>n. path_ref n sd rd p)"
proof -
  have a: "agrees (table_ok sd rd) (bindS (liftRo (rd p)) hdm) (\<lambda>n. path_ref n sd rd p)"
    unfolding path_ref_def by (intro agrees_intros assms)
  show ?thesis
    unfolding agrees_def
  proof (intro allI impI)
    fix t r t' assume t: "table_ok sd rd t" and c: "pathDerivationModulo rd hdm p t = Some (r, t')"
    show "table_ok sd rd t' \<and> (\<exists>N. \<forall>n\<ge>N. path_ref n sd rd p () = Some (r, ()))"
    proof (cases "t p")
      case (Some h)
      with t c show ?thesis by (auto simp: pathDerivationModulo_def table_ok_def)
    next
      case None
      with c consider (e) e where "bindS (liftRo (rd p)) hdm t = Some (Inl e, t')" "r = Inl e"
        | (h) h t1 where "bindS (liftRo (rd p)) hdm t = Some (Inr h, t1)" "r = Inr h" "t' = t1(p \<mapsto> h)"
        by (auto simp: pathDerivationModulo_def bindS_Some [of "bindS (liftRo (rd p)) hdm"])
      then show ?thesis
      proof cases
        case e
        with a t show ?thesis unfolding agrees_def by blast
      next
        case h
        with a t have "table_ok sd rd t1 \<and> (\<exists>N. \<forall>n\<ge>N. path_ref n sd rd p () = Some (Inr h, ()))"
          unfolding agrees_def by blast
        with h show ?thesis by (auto simp: table_ok_def)
      qed
    qed
  qed
qed

theorem hdm_agrees: "agrees (table_ok sd rd) (hashDerivationModulo k sd rd drv m) (\<lambda>n. modulo_ref n sd rd drv m)"
proof (induction k arbitrary: drv m)
  case 0
  show ?case by (simp add: agrees_def)
next
  case (Suc k)
  have "agrees (table_ok sd rd) (hashDerivationModulo (Suc k) sd rd drv m) (\<lambda>n. modulo_body sd (path_ref n sd rd) drv m)"
    unfolding hashDerivationModulo.simps by (intro agrees_modulo_body agrees_path Suc.IH)
  then show ?case by (rule agrees_suc) (rule modulo_ref_Suc)
qed

lemma table_ok_empty: "table_ok sd rd (\<lambda>_. None)"
  by (simp add: table_ok_def)

section \<open>Lemmas: the recursion returns\<close>

text \<open>No cycles: a rank that decreases from a derivation to its inputs; reading a derivation returns.\<close>

definition ranked :: "(StorePath \<Rightarrow> 'j Derivation res option) \<Rightarrow> (StorePath \<Rightarrow> nat) \<Rightarrow> bool" where
  "ranked rd rank = (\<forall>p. rd p \<noteq> None \<and> (\<forall>d. rd p = Some (Inr d) \<longrightarrow> (\<forall>q \<in> fst ` set (inputDrvs d). rank q < rank p)))"

definition inputs_below :: "(StorePath \<Rightarrow> nat) \<Rightarrow> nat \<Rightarrow> 'j Derivation \<Rightarrow> bool" where
  "inputs_below rank k drv = (\<forall>q \<in> fst ` set (inputDrvs drv). rank q < k)"

lemma total_hash_inputs:
  "(\<And>p. p \<in> fst ` set is \<Longrightarrow> total_st (pm p)) \<Longrightarrow> total_st (hash_inputs pm is acc)"
proof (induction "is" arbitrary: acc)
  case (Cons i rest)
  obtain p node where i: "i = (p, node)" by (cases i)
  have IH: "total_st (hash_inputs pm rest acc)" for acc using Cons by simp
  have "total_st (case r of DeferredDrv \<Rightarrow> retS None
      | DrvHash drvHash \<Rightarrow> bindS (liftS (hash_to_string drvHash Base16 False)) (\<lambda>k. hash_inputs pm rest (map_put k node acc))
      | CaOutputHashes m \<Rightarrow> bindS (liftS (fold_res (ca_input m) (node_value node) acc)) (hash_inputs pm rest))" for r
    by (cases r) (auto intro!: total_intros IH)
  with Cons.prems show ?case by (auto simp: i intro!: total_intros)
qed simp

lemma total_modulo_body:
  assumes "\<And>p. p \<in> fst ` set (inputDrvs drv) \<Longrightarrow> total_st (pm p)"
  shows "total_st (modulo_body sd pm drv m)"
proof -
  have fin: "total_st (case r of None \<Rightarrow> retS DeferredDrv | Some i \<Rightarrow>
      bindS (liftS (unparse sd m (Some i) drv)) (\<lambda>t. bindS (liftS (hashString (sd_digest sd) (sd_xp sd) SHA256 t)) (\<lambda>h. retS (DrvHash h))))" for r
    by (cases r) (auto intro!: total_intros)
  have "total_st (hash_inputs pm (inputDrvs drv) [])" by (rule total_hash_inputs) (rule assms)
  with fin show ?thesis
    unfolding modulo_body_def by (auto intro!: total_intros split: DerivationType.splits)
qed

lemma total_read:
  assumes "r \<noteq> None" "\<And>d. r = Some (Inr d) \<Longrightarrow> total_st (f d)"
  shows "total_st (bindS (liftRo r) f)"
proof -
  from assms(1) obtain x where "r = Some x" by blast
  with assms(2) show ?thesis by (cases x) (simp_all add: total_st_def bindS_def liftRo_def)
qed

lemma total_path:
  assumes "total_st (bindS (liftRo (rd p)) hdm)"
  shows "total_st (pathDerivationModulo rd hdm p)"
proof -
  have "total_st (bindS (bindS (liftRo (rd p)) hdm) (\<lambda>h t. Some (Inr h, t(p \<mapsto> h))))"
    by (rule total_bind [OF assms]) (simp add: total_st_def)
  then show ?thesis by (simp add: total_st_def pathDerivationModulo_def retS_def split: option.splits)
qed

lemma total_hdm:
  assumes "ranked rd rank"
  shows "inputs_below rank k drv \<Longrightarrow> total_st (hashDerivationModulo (Suc k) sd rd drv m)"
proof (induction k arbitrary: drv m)
  case 0
  then have "inputDrvs drv = []" by (simp add: inputs_below_def)
  then show ?case unfolding hashDerivationModulo.simps by (intro total_modulo_body) simp
next
  case (Suc k)
  have "total_st (pathDerivationModulo rd (\<lambda>d. hashDerivationModulo (Suc k) sd rd d False) p)"
    if p: "p \<in> fst ` set (inputDrvs drv)" for p
  proof -
    have "total_st (hashDerivationModulo (Suc k) sd rd d False)" if d: "rd p = Some (Inr d)" for d
    proof (rule Suc.IH)
      have "rank p < Suc k" using p Suc.prems unfolding inputs_below_def by blast
      then show "inputs_below rank k d"
        using assms d unfolding ranked_def inputs_below_def by (meson less_Suc_eq_le order_less_le_trans)
    qed
    moreover obtain r where "rd p = Some r" using assms unfolding ranked_def by blast
    ultimately show ?thesis by (intro total_path total_read) auto
  qed
  then show ?case by (subst hashDerivationModulo.simps) (rule total_modulo_body)
qed

lemma hdm_total:
  assumes "ranked rd rank" "inputs_below rank k drv" "table_ok sd rd t"
  shows "\<exists>r t'. hashDerivationModulo (Suc k) sd rd drv m t = Some (r, t') \<and> table_ok sd rd t' \<and>
    (\<exists>N. \<forall>n\<ge>N. modulo_ref n sd rd drv m () = Some (r, ()))"
proof -
  obtain r t' where h: "hashDerivationModulo (Suc k) sd rd drv m t = Some (r, t')"
    using total_hdm [OF assms(1,2), of sd m] unfolding total_st_def by (metis option.exhaust prod.collapse)
  with hdm_agrees assms(3) show ?thesis unfolding agrees_def by blast
qed

text \<open>Derivations with the same recursion without the table have the same hash, whatever the tables.\<close>

lemma hdm_eqI:
  assumes "table_ok sd rd t" "table_ok sd rd t2" "\<And>n. N \<le> n \<Longrightarrow> modulo_ref n sd rd drv m () = modulo_ref n sd rd drv2 m ()"
    and "hashDerivationModulo k sd rd drv m t = Some (r, t')" "hashDerivationModulo k2 sd rd drv2 m t2 = Some (r2, t2')"
  shows "r = r2"
proof -
  obtain M where M: "\<forall>n\<ge>M. modulo_ref n sd rd drv m () = Some (r, ())"
    using hdm_agrees [of sd rd k drv m] assms(1,4) unfolding agrees_def by blast
  obtain M2 where M2: "\<forall>n\<ge>M2. modulo_ref n sd rd drv2 m () = Some (r2, ())"
    using hdm_agrees [of sd rd k2 drv2 m] assms(2,5) unfolding agrees_def by blast
  let ?n = "max N (max M M2)"
  have "Some (r, ()) = Some (r2, ())" using M M2 assms(3) [of ?n] by (metis max.cobounded1 max.cobounded2 order_trans)
  then show ?thesis by simp
qed

section \<open>Lemmas: what the hash depends on\<close>

lemma hash_inputs_cong:
  "list_all2 (\<lambda>(p, a) (q, b). a = b \<and> pm p = pm2 q) is js \<Longrightarrow> hash_inputs pm is acc = hash_inputs pm2 js acc"
proof (induction "is" js arbitrary: acc rule: list_all2_induct)
  case (Cons i "is" j js)
  obtain p a where i: "i = (p, a)" by (cases i)
  obtain q b where j: "j = (q, b)" by (cases j)
  have e: "hash_inputs pm is = hash_inputs pm2 js" by (rule ext) (rule Cons.IH)
  show ?case using Cons.hyps by (simp add: i j e cong: DrvHashModulo.case_cong)
qed simp

lemma hasDynamic_cong:
  "list_all2 (\<lambda>(p, a) (q, b). a = b \<and> R p q) (inputDrvs drv) js \<Longrightarrow>
   hasDynamicDrvDep (drv\<lparr>inputDrvs := js\<rparr>) = hasDynamicDrvDep drv"
proof -
  have "list_ex (\<lambda>kv. childMap (snd kv) \<noteq> []) js = list_ex (\<lambda>kv. childMap (snd kv) \<noteq> []) is"
    if "list_all2 (\<lambda>(p, a) (q, b). a = b \<and> R p q) is js" for "is"
    using that by (induction "is" js rule: list_all2_induct) auto
  then show "list_all2 (\<lambda>(p, a) (q, b). a = b \<and> R p q) (inputDrvs drv) js \<Longrightarrow> ?thesis"
    by (simp add: hasDynamicDrvDep_def)
qed

lemma unparse_inputs_irrelevant:
  "hasDynamicDrvDep (drv\<lparr>inputDrvs := js\<rparr>) = hasDynamicDrvDep (drv\<lparr>inputDrvs := ks\<rparr>) \<Longrightarrow>
   unparse sd m (Some ai) (drv\<lparr>inputDrvs := js\<rparr>) = unparse sd m (Some ai) (drv\<lparr>inputDrvs := ks\<rparr>)"
  by (simp add: unparse_def Let_def cong: option.case_cong)

lemma drv_type_inputs [simp]: "drv_type (drv\<lparr>inputDrvs := js\<rparr>) = drv_type drv"
  by (simp add: drv_type_def)

lemma modulo_body_cong:
  assumes "list_all2 (\<lambda>(p, a) (q, b). a = b \<and> pm p = pm2 q) (inputDrvs drv) js"
  shows "modulo_body sd pm drv m = modulo_body sd pm2 (drv\<lparr>inputDrvs := js\<rparr>) m"
proof -
  have h: "hash_inputs pm2 js [] = hash_inputs pm (inputDrvs drv) []"
    by (rule ext) (rule fun_cong [OF hash_inputs_cong [OF assms, symmetric]])
  have u: "unparse sd m (Some ai) (drv\<lparr>inputDrvs := js\<rparr>) = unparse sd m (Some ai) drv" for ai
    using unparse_inputs_irrelevant [where drv = drv and js = js and ks = "inputDrvs drv"] hasDynamic_cong [OF assms] by simp
  have acc: "outputs (drv\<lparr>inputDrvs := js\<rparr>) = outputs drv" "drv_name (drv\<lparr>inputDrvs := js\<rparr>) = drv_name drv"
    "inputDrvs (drv\<lparr>inputDrvs := js\<rparr>) = js" by simp_all
  show ?thesis unfolding modulo_body_def drv_type_inputs acc h u ..
qed

text \<open>A fixed-output derivation is hashed from its name and outputs only.\<close>

lemma modulo_body_fixed:
  assumes "drv_type drv = Inr ty" "isFixed ty" "outputs drv2 = outputs drv" "drv_name drv2 = drv_name drv"
  shows "modulo_body sd pm drv m = modulo_body sd pm2 drv2 m2"
proof -
  have "drv_type drv2 = Inr ty" using assms by (simp add: drv_type_def)
  with assms show ?thesis by (simp add: modulo_body_def)
qed

definition same_fixed :: "(StorePath \<Rightarrow> 'j Derivation res option) \<Rightarrow> StorePath \<Rightarrow> StorePath \<Rightarrow> bool" where
  "same_fixed rd p q = (p = q \<or>
     (\<exists>d e ty. rd p = Some (Inr d) \<and> rd q = Some (Inr e) \<and> drv_type d = Inr ty \<and> isFixed ty \<and>
        outputs e = outputs d \<and> drv_name e = drv_name d))"

lemma liftRo_Inr [simp]: "bindS (liftRo (Some (Inr d))) f = f d"
  by (rule ext) (simp add: bindS_def liftRo_def)

lemma path_ref_same_fixed: "same_fixed rd p q \<Longrightarrow> path_ref (Suc n) sd rd p = path_ref (Suc n) sd rd q"
  unfolding same_fixed_def path_ref_def modulo_ref_Suc by (auto intro: modulo_body_fixed)

theorem modulo_same_fixed:
  assumes "list_all2 (\<lambda>(p, a) (q, b). a = b \<and> same_fixed rd p q) (inputDrvs drv) js"
    and "table_ok sd rd t" "table_ok sd rd t2"
    and "hashDerivationModulo k sd rd drv m t = Some (r, t')"
    and "hashDerivationModulo k2 sd rd (drv\<lparr>inputDrvs := js\<rparr>) m t2 = Some (r2, t2')"
  shows "r = r2"
proof (rule hdm_eqI [OF assms(2,3) _ assms(4,5)])
  fix n :: nat assume "2 \<le> n"
  then obtain l where n: "n = Suc (Suc l)" by (metis add_2_eq_Suc le_Suc_ex)
  have "list_all2 (\<lambda>(p, a) (q, b). a = b \<and> path_ref (Suc l) sd rd p = path_ref (Suc l) sd rd q) (inputDrvs drv) js"
    using assms(1) by (rule list_all2_mono) (auto intro: path_ref_same_fixed)
  then show "modulo_ref n sd rd drv m () = modulo_ref n sd rd (drv\<lparr>inputDrvs := js\<rparr>) m ()"
    unfolding n modulo_ref_Suc by (rule fun_cong [OF modulo_body_cong])
qed

text \<open>Two inputs with one hash: the second replaces the entry of the first, with its outputs.\<close>

lemma hash_inputs_overwrite:
  assumes "t p = Some (DrvHash h)" "t q = Some (DrvHash h)" "childMap a = []" "childMap a2 = []"
  shows "hash_inputs (pathDerivationModulo rd hdm) [(p, a), (q, b)] [] t =
    hash_inputs (pathDerivationModulo rd hdm) [(p, a2), (q, b)] [] t"
proof -
  have pm: "pathDerivationModulo rd hdm p t = Some (Inr (DrvHash h), t)"
    "pathDerivationModulo rd hdm q t = Some (Inr (DrvHash h), t)"
    using assms by (simp_all add: pathDerivationModulo_def retS_def)
  show ?thesis
    using assms pm by (cases "hash_to_string h Base16 False") (simp_all add: bindS_def liftS_def retS_def)
qed

theorem modulo_overwrite:
  assumes "t p = Some (DrvHash h)" "t q = Some (DrvHash h)" "childMap a = []" "childMap a2 = []"
  shows "hashDerivationModulo (Suc k) sd rd (drv\<lparr>inputDrvs := [(p, a), (q, b)]\<rparr>) m t =
    hashDerivationModulo (Suc k) sd rd (drv\<lparr>inputDrvs := [(p, a2), (q, b)]\<rparr>) m t"
proof -
  have u: "unparse sd m (Some ai) (drv\<lparr>inputDrvs := [(p, a), (q, b)]\<rparr>) =
      unparse sd m (Some ai) (drv\<lparr>inputDrvs := [(p, a2), (q, b)]\<rparr>)" for ai
    by (rule unparse_inputs_irrelevant) (use assms in \<open>simp add: hasDynamicDrvDep_def\<close>)
  have h: "bindS (hash_inputs (pathDerivationModulo rd hdm) [(p, a), (q, b)] []) F t =
      bindS (hash_inputs (pathDerivationModulo rd hdm) [(p, a2), (q, b)] []) F t" for F :: "_ \<Rightarrow> ('c, DrvHashes) st" and hdm
    by (simp only: bindS_def hash_inputs_overwrite [OF assms])
  have acc: "outputs (drv\<lparr>inputDrvs := js\<rparr>) = outputs drv" "drv_name (drv\<lparr>inputDrvs := js\<rparr>) = drv_name drv"
    "inputDrvs (drv\<lparr>inputDrvs := js\<rparr>) = js" for js by simp_all
  show ?thesis
  proof (cases "drv_type drv")
    case (Inr ty)
    show ?thesis
      unfolding hashDerivationModulo.simps modulo_body_def drv_type_inputs Inr bindS_liftS_Inr acc u
      by (cases ty) (simp_all only: isFixed.simps if_False DerivationType.case h split: if_split)
  qed (simp add: modulo_body_def)
qed

section \<open>Lemmas: filling in output paths\<close>

text \<open>Masking the values of output variables makes environments equal that differ only there.\<close>

lemma masked_env_eq:
  assumes "ordered A" "ordered B" "fst ` set A = fst ` set B" "\<And>k. k \<notin> S \<Longrightarrow> map_of A k = map_of B k"
  shows "map (\<lambda>i. (fst i, if fst i \<in> S then [] else snd i)) A = map (\<lambda>i. (fst i, if fst i \<in> S then [] else snd i)) B"
proof -
  have m: "map (\<lambda>i. (fst i, if fst i \<in> S then [] else snd i)) M =
      map (\<lambda>k. (k, if k \<in> S then [] else the (map_of M k))) (map fst M)" if "ordered M" for M :: "('a \<times> 'b list) list"
  proof -
    have "map_of M (fst i) = Some (snd i)" if "i \<in> set M" for i
      using that ordered_distinct [OF \<open>ordered M\<close>] by (metis map_of_eq_Some_iff prod.collapse)
    then show ?thesis by simp
  qed
  have "map fst A = map fst B"
    using assms(1-3) unfolding ordered_def by (intro strict_sorted_equal) auto
  with m [OF assms(1)] m [OF assms(2)] assms(4) show ?thesis by simp
qed

definition masked_out :: "DerivationOutput \<Rightarrow> bool" where
  "masked_out out = (out = Deferred \<or> (\<exists>p. out = InputAddressed p))"

lemma unparseOutput_masked:
  "masked_out (snd i) \<Longrightarrow> unparseOutput sd True drvName i =
     Inr (''('' @ printUnquotedString (fst i) @ '','' @ printUnquotedString [] @ '','' @ printUnquotedString [] @ '','' @
       printUnquotedString [] @ '')'')"
  by (auto simp: masked_out_def unparseOutput_def output_fields_def)

lemma map_unparseOutput_masked:
  "list_all (\<lambda>i. masked_out (snd i)) os \<Longrightarrow> map_res (unparseOutput sd True drvName) os =
    Inr (map (\<lambda>n. ''('' @ printUnquotedString n @ '','' @ printUnquotedString [] @ '','' @ printUnquotedString [] @ '','' @
       printUnquotedString [] @ '')'') (map fst os))"
  by (induction os) (simp_all add: unparseOutput_masked)

lemma unparse_masked:
  assumes outs: "map fst O2 = map fst (outputs drv)" "list_all (\<lambda>i. masked_out (snd i)) (outputs drv)"
    "list_all (\<lambda>i. masked_out (snd i)) O2"
    and env: "ordered (drv_env drv)" "ordered E2" "fst ` set E2 = fst ` set (drv_env drv)"
    "\<And>k. k \<notin> fst ` set (outputs drv) \<Longrightarrow> map_of E2 k = map_of (drv_env drv) k"
  shows "unparse sd True (Some ai) (drv\<lparr>outputs := O2, drv_env := E2\<rparr>) = unparse sd True (Some ai) drv"
proof -
  let ?S = "fst ` set (outputs drv)"
  let ?mask = "\<lambda>i. (fst i, if fst i \<in> ?S then [] else snd i) :: string \<times> string"
  let ?pr = "\<lambda>i. ''('' @ printString (fst i) @ '','' @ printString (snd i) @ '')''"
  have S: "fst ` set O2 = ?S" using outs(1) by (metis set_map)
  have dom: "map_of O2 k \<noteq> None \<longleftrightarrow> k \<in> ?S" "map_of (outputs drv) k \<noteq> None \<longleftrightarrow> k \<in> ?S" for k
    using S by (simp_all add: map_of_eq_None_iff)
  have masked: "map (\<lambda>i. ''('' @ printString (fst i) @ '','' @
       printString (if True \<and> map_of os (fst i) \<noteq> None then [] else snd i) @ '')'') e = map ?pr (map ?mask e)"
    if "fst ` set os = ?S" for os :: "(string \<times> DerivationOutput) list" and e
    using that by (auto simp: map_of_eq_None_iff)
  let ?e = "\<lambda>e. case structuredAttrs drv of Some j \<Rightarrow> fst (map_emplace (fst (sa_unparse sd j)) (snd (sa_unparse sd j)) e) | None \<Rightarrow> e"
  have "map ?mask (?e E2) = map ?mask (?e (drv_env drv))"
  proof (rule masked_env_eq)
    have n: "map_of E2 k = None \<longleftrightarrow> map_of (drv_env drv) k = None" for k using env(3) by (simp add: map_of_eq_None_iff)
    show "ordered (?e E2)" "ordered (?e (drv_env drv))" "fst ` set (?e E2) = fst ` set (?e (drv_env drv))"
      "\<And>k. k \<notin> ?S \<Longrightarrow> map_of (?e E2) k = map_of (?e (drv_env drv)) k"
      using env n by (auto simp: map_emplace_def fst_map_put split: option.splits)
  qed
  then have e: "map (\<lambda>i. ''('' @ printString (fst i) @ '','' @
       printString (if True \<and> map_of O2 (fst i) \<noteq> None then [] else snd i) @ '')'') (?e E2) =
     map (\<lambda>i. ''('' @ printString (fst i) @ '','' @
       printString (if True \<and> map_of (outputs drv) (fst i) \<noteq> None then [] else snd i) @ '')'') (?e (drv_env drv))"
    unfolding masked [OF S] masked [OF refl] by simp
  have c: "checkKeyNotInUse E2 = checkKeyNotInUse (drv_env drv)"
    using env(3) by (simp add: checkKeyNotInUse_def map_of_eq_None_iff)
  have acc: "outputs (drv\<lparr>outputs := O2, drv_env := E2\<rparr>) = O2" "drv_env (drv\<lparr>outputs := O2, drv_env := E2\<rparr>) = E2"
    "structuredAttrs (drv\<lparr>outputs := O2, drv_env := E2\<rparr>) = structuredAttrs drv"
    "inputSrcs (drv\<lparr>outputs := O2, drv_env := E2\<rparr>) = inputSrcs drv" "platform (drv\<lparr>outputs := O2, drv_env := E2\<rparr>) = platform drv"
    "builder (drv\<lparr>outputs := O2, drv_env := E2\<rparr>) = builder drv" "drv_args (drv\<lparr>outputs := O2, drv_env := E2\<rparr>) = drv_args drv"
    "drv_name (drv\<lparr>outputs := O2, drv_env := E2\<rparr>) = drv_name drv"
    "hasDynamicDrvDep (drv\<lparr>outputs := O2, drv_env := E2\<rparr>) = hasDynamicDrvDep drv"
    by (simp_all add: hasDynamicDrvDep_def)
  show ?thesis
    unfolding unparse_def acc map_unparseOutput_masked [OF outs(2)] map_unparseOutput_masked [OF outs(3)] outs(1) c Let_def e
    option.case ..
qed

lemma modulo_ref_masked:
  assumes "drv_type drv = Inr (InputAddressedType b)" "drv_type (drv\<lparr>outputs := O2, drv_env := E2\<rparr>) = Inr (InputAddressedType b2)"
    and "map fst O2 = map fst (outputs drv)"
    and "ordered (drv_env drv)" "ordered E2" "fst ` set E2 = fst ` set (drv_env drv)"
    "\<And>k. k \<notin> fst ` set (outputs drv) \<Longrightarrow> map_of E2 k = map_of (drv_env drv) k"
  shows "modulo_ref n sd rd (drv\<lparr>outputs := O2, drv_env := E2\<rparr>) True = modulo_ref n sd rd drv True"
proof (cases n)
  case (Suc k)
  have m: "list_all (\<lambda>i. masked_out (snd i)) os" if "typed_outputs (InputAddressedType b) os" for b os
  proof -
    have "kind_of x = InputAddressedType b \<Longrightarrow> masked_out x" for x by (cases x) (auto simp: masked_out_def)
    with that show ?thesis by (auto simp: typed_outputs_def list_all_iff)
  qed
  have t: "typed_outputs (InputAddressedType b) (outputs drv)" "typed_outputs (InputAddressedType b2) O2"
    using assms(1,2) unfolding drv_type_iff by simp_all
  have "unparse sd True (Some ai) (drv\<lparr>outputs := O2, drv_env := E2\<rparr>) = unparse sd True (Some ai) drv" for ai
    by (rule unparse_masked) (use assms m t in auto)
  then show ?thesis by (simp add: Suc modulo_body_def assms(1,2))
qed simp

lemma lazy_first:
  assumes "masked_out (snd i)"
  shows "process_output sd hdm fillIn nm i (d, None) t =
    bindS (hdm d) (\<lambda>h. process_output sd hdm fillIn nm i (d, Some h)) t"
proof (cases "snd i")
  case (InputAddressed p)
  show ?thesis
    unfolding process_output_def lazy_modulo_def InputAddressed DerivationOutput.case fst_conv snd_conv option.case bindS_retS ..
next
  case Deferred
  show ?thesis
    unfolding process_output_def lazy_modulo_def Deferred DerivationOutput.case fst_conv snd_conv option.case bindS_retS ..
qed (use assms in \<open>auto simp: masked_out_def\<close>)

lemma lazy_fold:
  assumes "os \<noteq> []" "list_all (\<lambda>i. masked_out (snd i)) os"
  shows "foldS (process_output sd hdm fillIn nm) os (d, None) t =
    bindS (hdm d) (\<lambda>h. foldS (process_output sd hdm fillIn nm) os (d, Some h)) t"
proof (cases os)
  case (Cons i os')
  have "process_output sd hdm fillIn nm i (d, None) = bindS (hdm d) (\<lambda>h. process_output sd hdm fillIn nm i (d, Some h))"
    by (rule ext) (use assms Cons in \<open>simp add: lazy_first\<close>)
  then show ?thesis by (simp add: Cons bindS_assoc)
qed (use assms in simp)

text \<open>The path of an output, and what checking needs of an output once it is filled in.\<close>

definition out_path :: "'j StoreDirConfig \<Rightarrow> string \<Rightarrow> Hash \<Rightarrow> string \<Rightarrow> StorePath res" where
  "out_path sd drvName h outputName =
     makeOutputPath (sd_digest sd) (sd_xp sd) (sd_dir sd) outputName h drvName"

definition filled :: "'j StoreDirConfig \<Rightarrow> Hash \<Rightarrow> 'j Derivation \<Rightarrow> string \<Rightarrow> bool" where
  "filled sd h drv n = (\<exists>p. out_path sd (drv_name drv) h n = Inr p \<and>
     map_of (outputs drv) n = Some (InputAddressed p) \<and> map_of (drv_env drv) n = Some (printStorePath (sd_dir sd) p))"

lemma check_filled:
  assumes "\<And>i. i \<in> set os \<Longrightarrow> filled sd h drv (fst i) \<and> map_of (outputs drv) (fst i) = Some (snd i)"
  shows "foldS (process_output sd hdm False (drv_name drv)) os (drv, Some (DrvHash h)) t =
    Some (Inr (drv, Some (DrvHash h)), t)"
  using assms
proof (induction os)
  case (Cons i os)
  from Cons.prems [of i] obtain p where p: "out_path sd (drv_name drv) h (fst i) = Inr p" "snd i = InputAddressed p"
    "map_of (drv_env drv) (fst i) = Some (printStorePath (sd_dir sd) p)" by (auto simp: filled_def)
  then have "process_output sd hdm False (drv_name drv) i (drv, Some (DrvHash h)) = retS (drv, Some (DrvHash h))"
    by (simp add: process_output_def lazy_modulo_def out_path_def envHasRightPath_def Let_def)
  with Cons show ?case by simp
qed (simp add: retS_def)

lemma fill_step:
  assumes "process_output sd hdm True nm (n, out) (d, Some (DrvHash h)) t = Some (Inr (d', hm), t')" "masked_out out"
    and "map_of (outputs d) n = Some out" "map_of (drv_env d) n \<noteq> None" "ordered (outputs d)" "ordered (drv_env d)"
  obtains p O2 E2 where "t' = t" "hm = Some (DrvHash h)" "out_path sd nm h n = Inr p" "d' = d\<lparr>outputs := O2, drv_env := E2\<rparr>"
    "ordered O2" "ordered E2" "fst ` set O2 = fst ` set (outputs d)" "fst ` set E2 = fst ` set (drv_env d)"
    "map_of O2 = (map_of (outputs d))(n \<mapsto> InputAddressed p)"
    "map_of E2 = (map_of (drv_env d))(n \<mapsto> printStorePath (sd_dir sd) p)"
proof -
  have k: "n \<in> fst ` set (outputs d)" "n \<in> fst ` set (drv_env d)"
    using assms(3,4) by (metis map_of_eq_None_iff option.distinct(1))+
  obtain O1 p where O1: "out_path sd nm h n = Inr p" "ordered O1" "fst ` set O1 = fst ` set (outputs d)"
    "map_of O1 = (map_of (outputs d))(n \<mapsto> InputAddressed p)"
    and e: "envHasRightPath sd True n p (d\<lparr>outputs := O1\<rparr>) = Inr d'" "t' = t" "hm = Some (DrvHash h)"
  proof (cases out)
    case Deferred
    from assms(1) obtain q where q: "out_path sd nm h n = Inr q" "t' = t" "hm = Some (DrvHash h)"
      "envHasRightPath sd True n q (d\<lparr>outputs := map_put n (InputAddressed q) (outputs d)\<rparr>) = Inr d'"
      unfolding Deferred by (auto simp: process_output_def lazy_modulo_def out_path_def bindS_Inr)
    show thesis
      by (rule that [of q "map_put n (InputAddressed q) (outputs d)"]) (use q assms(5) k(1) in \<open>auto simp: insert_absorb\<close>)
  next
    case (InputAddressed q)
    then show thesis
      using assms(1,3,5) k that [of q "outputs d"]
      by (auto simp: process_output_def lazy_modulo_def out_path_def bindS_Inr fun_upd_idem split: if_splits)
  qed (use assms(2) in \<open>auto simp: masked_out_def\<close>)
  obtain v where v: "map_of (drv_env d) n = Some v" using assms(4) by auto
  define E2 where "E2 = (if v = [] then map_put n (printStorePath (sd_dir sd) p) (drv_env d) else drv_env d)"
  have d': "d' = d\<lparr>outputs := O1, drv_env := E2\<rparr>" "map_of E2 n = Some (printStorePath (sd_dir sd) p)"
    using e(1) v by (auto simp: envHasRightPath_def Let_def E2_def res_simps split: if_splits option.splits)
  then have "map_of E2 = (map_of (drv_env d))(n \<mapsto> printStorePath (sd_dir sd) p)"
    using v by (auto simp: E2_def fun_upd_idem split: if_splits)
  moreover have "ordered E2" "fst ` set E2 = fst ` set (drv_env d)"
    using assms(6) k(2) by (auto simp: E2_def insert_absorb)
  ultimately show thesis using that O1 e d'(1) by blast
qed

lemma fill_fold:
  assumes "foldS (process_output sd hdm True nm) os (d, Some (DrvHash h)) t = Some (Inr (d', hm), t')"
    and "list_all (\<lambda>i. masked_out (snd i)) os" "distinct (map fst os)"
    and "\<And>i. i \<in> set os \<Longrightarrow> map_of (outputs d) (fst i) = Some (snd i) \<and> map_of (drv_env d) (fst i) \<noteq> None"
    and "ordered (outputs d)" "ordered (drv_env d)"
  shows "\<exists>O2 E2. t' = t \<and> hm = Some (DrvHash h) \<and> d' = d\<lparr>outputs := O2, drv_env := E2\<rparr> \<and>
    ordered O2 \<and> ordered E2 \<and> fst ` set O2 = fst ` set (outputs d) \<and> fst ` set E2 = fst ` set (drv_env d) \<and>
    (\<forall>k. k \<notin> fst ` set os \<longrightarrow> map_of O2 k = map_of (outputs d) k \<and> map_of E2 k = map_of (drv_env d) k) \<and>
    (\<forall>n \<in> fst ` set os. \<exists>p. out_path sd nm h n = Inr p \<and> map_of O2 n = Some (InputAddressed p) \<and>
       map_of E2 n = Some (printStorePath (sd_dir sd) p))"
  using assms
proof (induction os arbitrary: d t)
  case Nil
  then show ?case by (auto intro!: exI [of _ "outputs d"] exI [of _ "drv_env d"])
next
  case (Cons i os)
  obtain n out where i: "i = (n, out)" by (cases i)
  from Cons.prems(1) obtain d1 hm1 t1 where s: "process_output sd hdm True nm (n, out) (d, Some (DrvHash h)) t = Some (Inr (d1, hm1), t1)"
    "foldS (process_output sd hdm True nm) os (d1, hm1) t1 = Some (Inr (d', hm), t')"
    by (auto simp: i bindS_Inr)
  have pre: "masked_out out" "map_of (outputs d) n = Some out" "map_of (drv_env d) n \<noteq> None"
    using Cons.prems(2,4) i by fastforce+
  obtain p O1 E1 where
    1: "t1 = t" "hm1 = Some (DrvHash h)" "out_path sd nm h n = Inr p" "d1 = d\<lparr>outputs := O1, drv_env := E1\<rparr>"
      "ordered O1" "ordered E1" "fst ` set O1 = fst ` set (outputs d)" "fst ` set E1 = fst ` set (drv_env d)"
      "map_of O1 = (map_of (outputs d))(n \<mapsto> InputAddressed p)"
      "map_of E1 = (map_of (drv_env d))(n \<mapsto> printStorePath (sd_dir sd) p)"
    by (rule fill_step [OF s(1) pre Cons.prems(5,6)])
  have n: "n \<notin> fst ` set os" using Cons.prems(3) i by simp
  have "\<exists>O2 E2. t' = t1 \<and> hm = Some (DrvHash h) \<and> d' = d1\<lparr>outputs := O2, drv_env := E2\<rparr> \<and>
    ordered O2 \<and> ordered E2 \<and> fst ` set O2 = fst ` set (outputs d1) \<and> fst ` set E2 = fst ` set (drv_env d1) \<and>
    (\<forall>k. k \<notin> fst ` set os \<longrightarrow> map_of O2 k = map_of (outputs d1) k \<and> map_of E2 k = map_of (drv_env d1) k) \<and>
    (\<forall>n \<in> fst ` set os. \<exists>p. out_path sd nm h n = Inr p \<and> map_of O2 n = Some (InputAddressed p) \<and>
       map_of E2 n = Some (printStorePath (sd_dir sd) p))"
  proof (rule Cons.IH)
    show "foldS (process_output sd hdm True nm) os (d1, Some (DrvHash h)) t1 = Some (Inr (d', hm), t')" using s(2) 1(2) by simp
    show "map_of (outputs d1) (fst j) = Some (snd j) \<and> map_of (drv_env d1) (fst j) \<noteq> None" if "j \<in> set os" for j
    proof -
      have "fst j \<noteq> n" using n that by force
      with Cons.prems(4) [of j] that 1 show ?thesis by simp
    qed
  qed (use Cons.prems 1 in auto)
  then obtain O2 E2 where
    2: "t' = t1" "hm = Some (DrvHash h)" "d' = d1\<lparr>outputs := O2, drv_env := E2\<rparr>" "ordered O2" "ordered E2"
      "fst ` set O2 = fst ` set (outputs d1)" "fst ` set E2 = fst ` set (drv_env d1)"
      "\<forall>k. k \<notin> fst ` set os \<longrightarrow> map_of O2 k = map_of (outputs d1) k \<and> map_of E2 k = map_of (drv_env d1) k"
      "\<forall>n \<in> fst ` set os. \<exists>p. out_path sd nm h n = Inr p \<and> map_of O2 n = Some (InputAddressed p) \<and>
       map_of E2 n = Some (printStorePath (sd_dir sd) p)" by (elim exE conjE) (rule that)
  have "map_of O2 n = Some (InputAddressed p)" "map_of E2 n = Some (printStorePath (sd_dir sd) p)"
    using 2(8) n 1 by simp_all
  with 1(3) 2(9) have f: "\<forall>n \<in> fst ` set (i # os). \<exists>p. out_path sd nm h n = Inr p \<and> map_of O2 n = Some (InputAddressed p) \<and>
       map_of E2 n = Some (printStorePath (sd_dir sd) p)" by (auto simp: i)
  have k: "\<forall>k. k \<notin> fst ` set (i # os) \<longrightarrow> map_of O2 k = map_of (outputs d) k \<and> map_of E2 k = map_of (drv_env d) k"
    using 2(8) 1(4,9,10) by (simp add: i)
  show ?case
  proof (intro exI [of _ O2] exI [of _ E2] conjI)
    show "d' = d\<lparr>outputs := O2, drv_env := E2\<rparr>" using 2(3) 1(4) by simp
    show "fst ` set O2 = fst ` set (outputs d)" "fst ` set E2 = fst ` set (drv_env d)" using 2(6,7) 1(4,7,8) by simp_all
  qed (use 1(1) 2(1,2,4,5) f k in simp_all)
qed

text \<open>Whole fill-in, for an input-addressed derivation.\<close>

lemma typed_masked: "typed_outputs (InputAddressedType b) os \<Longrightarrow> os \<noteq> [] \<and> list_all (\<lambda>i. masked_out (snd i)) os"
proof -
  have "kind_of x = InputAddressedType b \<Longrightarrow> masked_out x" for x by (cases x) (auto simp: masked_out_def)
  then show "typed_outputs (InputAddressedType b) os \<Longrightarrow> os \<noteq> [] \<and> list_all (\<lambda>i. masked_out (snd i)) os"
    by (auto simp: typed_outputs_def list_all_iff)
qed

lemma deferred_fold:
  assumes "list_all (\<lambda>i. snd i = Deferred) os"
  shows "foldS (process_output sd hdm fillIn nm) os (d, Some DeferredDrv) = retS (d, Some DeferredDrv)"
  using assms by (induction os) (simp_all add: process_output_def lazy_modulo_def)

lemma not_deferred_fold:
  assumes "os \<noteq> []" "list_all (\<lambda>i. masked_out (snd i)) os"
    and "foldS (process_output sd hdm fillIn nm) os (d, Some h) t = Some (Inr r, t')"
  shows "(\<exists>dh. h = DrvHash dh) \<or> (h = DeferredDrv \<and> snd (hd os) = Deferred)"
proof (cases os)
  case (Cons i os')
  with assms show ?thesis
    by (cases h; cases "snd i") (auto simp: process_output_def lazy_modulo_def masked_out_def)
qed (use assms in simp)

theorem fill_then_check:
  assumes ty: "drv_type drv = Inr (InputAddressedType b)"
    and ord: "ordered (outputs drv)" "ordered (drv_env drv)"
    and env: "\<And>n. n \<in> fst ` set (outputs drv) \<Longrightarrow> map_of (drv_env drv) n \<noteq> None"
    and store: "ranked rd rank" "inputs_below rank k drv" "table_ok sd rd t"
    and fill: "fillInOutputPaths (Suc k) sd rd drv t = Some (Inr drv2, t2)"
  shows "\<exists>t3. checkInvariants (Suc k) sd rd drv2 t2 = Some (Inr (), t3)"
proof -
  let ?hdm = "\<lambda>d. hashDerivationModulo (Suc k) sd rd d True"
  let ?os = "outputs drv"
  note masked = typed_masked [OF ty [unfolded drv_type_iff]]
  from fill obtain hm where f: "foldS (process_output sd ?hdm True (drv_name drv)) ?os (drv, None) t = Some (Inr (drv2, hm), t2)"
    by (auto simp: fillInOutputPaths_def processDerivationOutputPaths_def bindS_Inr simp del: hashDerivationModulo.simps)
  from f masked obtain h t1 where h: "?hdm drv t = Some (Inr h, t1)"
    and f1: "foldS (process_output sd ?hdm True (drv_name drv)) ?os (drv, Some h) t1 = Some (Inr (drv2, hm), t2)"
    by (auto simp: lazy_fold bindS_Inr simp del: hashDerivationModulo.simps)
  have t1: "table_ok sd rd t1" using hdm_agrees [of sd rd "Suc k" drv True] store(3) h unfolding agrees_def by blast
  from not_deferred_fold [OF _ _ f1] masked
  consider (hash) dh where "h = DrvHash dh" | (deferred) "h = DeferredDrv" "snd (hd ?os) = Deferred" by blast
  then show ?thesis
  proof cases
    case hash
    have mo: "map_of ?os (fst i) = Some (snd i)" if "i \<in> set ?os" for i
      using that ordered_distinct [OF ord(1)] by (metis map_of_eq_Some_iff prod.collapse)
    have "\<exists>O2 E2. t2 = t1 \<and> hm = Some (DrvHash dh) \<and> drv2 = drv\<lparr>outputs := O2, drv_env := E2\<rparr> \<and>
      ordered O2 \<and> ordered E2 \<and> fst ` set O2 = fst ` set ?os \<and> fst ` set E2 = fst ` set (drv_env drv) \<and>
      (\<forall>k. k \<notin> fst ` set ?os \<longrightarrow> map_of O2 k = map_of ?os k \<and> map_of E2 k = map_of (drv_env drv) k) \<and>
      (\<forall>n \<in> fst ` set ?os. \<exists>p. out_path sd (drv_name drv) dh n = Inr p \<and> map_of O2 n = Some (InputAddressed p) \<and>
         map_of E2 n = Some (printStorePath (sd_dir sd) p))"
    proof (rule fill_fold [OF f1 [unfolded hash]])
      show "map_of ?os (fst i) = Some (snd i) \<and> map_of (drv_env drv) (fst i) \<noteq> None" if "i \<in> set ?os" for i
        using mo [OF that] env [of "fst i"] that by blast
    qed (use masked ord ordered_distinct [OF ord(1)] in blast)+
    then obtain O2 E2 where o: "t2 = t1" "drv2 = drv\<lparr>outputs := O2, drv_env := E2\<rparr>" "ordered O2" "ordered E2"
      "fst ` set O2 = fst ` set ?os" "fst ` set E2 = fst ` set (drv_env drv)"
      "\<forall>k. k \<notin> fst ` set ?os \<longrightarrow> map_of O2 k = map_of ?os k \<and> map_of E2 k = map_of (drv_env drv) k"
      "\<forall>n \<in> fst ` set ?os. \<exists>p. out_path sd (drv_name drv) dh n = Inr p \<and> map_of O2 n = Some (InputAddressed p) \<and>
         map_of E2 n = Some (printStorePath (sd_dir sd) p)" by (elim exE conjE) (rule that)
    have O2: "filled sd dh drv2 (fst i) \<and> map_of (outputs drv2) (fst i) = Some (snd i)" "kind_of (snd i) = InputAddressedType False"
      if i: "i \<in> set O2" for i
    proof -
      have "fst i \<in> fst ` set ?os" unfolding o(5) [symmetric] using i by (rule imageI)
      moreover have "map_of O2 (fst i) = Some (snd i)"
        using i ordered_distinct [OF o(3)] by (metis map_of_eq_Some_iff prod.collapse)
      moreover from calculation o(8) obtain p where p: "out_path sd (drv_name drv) dh (fst i) = Inr p"
        "map_of O2 (fst i) = Some (InputAddressed p)" "map_of E2 (fst i) = Some (printStorePath (sd_dir sd) p)" by blast
      ultimately have "snd i = InputAddressed p" "map_of O2 (fst i) = Some (snd i)" by simp_all
      with p show "filled sd dh drv2 (fst i) \<and> map_of (outputs drv2) (fst i) = Some (snd i)"
        "kind_of (snd i) = InputAddressedType False" by (simp_all add: filled_def o(2))
    qed
    have ne: "O2 \<noteq> []" using o(5) masked by auto
    have ty3: "drv_type drv2 = Inr (InputAddressedType False)"
      unfolding drv_type_iff typed_outputs_def using O2(2) ne o(2) by (simp add: list_all_iff)
    have fsts: "map fst O2 = map fst ?os" using o(3,5) ord(1) unfolding ordered_def by (intro strict_sorted_equal) auto
    have same: "modulo_ref n sd rd drv2 True () = modulo_ref n sd rd drv True ()" for n
      unfolding o(2) by (intro fun_cong [OF modulo_ref_masked [OF ty]]) (use ty3 o fsts ord in auto)
    have "inputs_below rank k drv2" using store(2) by (simp add: o(2) inputs_below_def)
    from hdm_total [OF store(1) this t1] obtain r t3 where r: "?hdm drv2 t1 = Some (r, t3)" by blast
    have "r = Inr h" by (rule hdm_eqI [OF t1 store(3) same r h])
    moreover have "foldS (process_output sd ?hdm False (drv_name drv2)) O2 (drv2, Some h) t3 = Some (Inr (drv2, Some h), t3)"
      unfolding hash by (rule check_filled) (use O2 in auto)
    moreover have "list_all (\<lambda>i. masked_out (snd i)) O2"
      using typed_masked [of False O2] ty3 o(2) unfolding drv_type_iff by simp
    ultimately have "foldS (process_output sd ?hdm False (drv_name drv2)) O2 (drv2, None) t2 = Some (Inr (drv2, Some h), t3)"
      using r ne o(1) by (simp add: lazy_fold bindS_Inr del: hashDerivationModulo.simps)
    with ty3 o(2) show ?thesis
      by (auto simp: checkInvariants_def processDerivationOutputPaths_def bindS_Inr simp del: hashDerivationModulo.simps)
  next
    case deferred
    have def: "list_all (\<lambda>i. snd i = Deferred) ?os"
    proof -
      have b: "b = True"
        using ty masked deferred(2) unfolding drv_type_iff typed_outputs_def by (cases ?os) auto
      have "kind_of x = InputAddressedType True \<Longrightarrow> x = Deferred" for x by (cases x) auto
      then show ?thesis using ty unfolding drv_type_iff typed_outputs_def b by (auto simp: list_all_iff)
    qed
    have d2: "drv2 = drv" "t2 = t1" using f1 deferred def by (simp_all add: deferred_fold)
    from hdm_total [OF store(1,2) t1] obtain r t3 where r: "?hdm drv t1 = Some (r, t3)" by blast
    have "r = Inr h" by (rule hdm_eqI [OF t1 store(3) refl r h])
    then have "foldS (process_output sd ?hdm False (drv_name drv)) ?os (drv, None) t1 = Some (Inr (drv, Some DeferredDrv), t3)"
      using r masked deferred def by (simp add: lazy_fold bindS_Inr deferred_fold del: hashDerivationModulo.simps)
    with ty d2 show ?thesis
      by (auto simp: checkInvariants_def processDerivationOutputPaths_def bindS_Inr simp del: hashDerivationModulo.simps)
  qed
qed

section \<open>Lemmas: a missing environment variable\<close>

text \<open>The output path that a text leads to.\<close>

definition text_path :: "'j StoreDirConfig \<Rightarrow> string \<Rightarrow> string \<Rightarrow> string \<Rightarrow> StorePath res" where
  "text_path sd drvName outputName s =
     bind_res (hashString (sd_digest sd) (sd_xp sd) SHA256 s) (\<lambda>h. out_path sd drvName h outputName)"

lemma length_commas: "length (commas xs) = sum_list (map length xs) + (length xs - 1)"
  by (cases xs) (simp_all add: length_concat comp_def sum_list_Suc)

lemma map_put_fresh: "map_of m k = None \<Longrightarrow> \<exists>a b. m = a @ b \<and> map_put k v m = a @ (k, v) # b"
proof (induction k v m rule: map_put.induct)
  case (2 k v k' v' m)
  show ?case
  proof (cases "k < k'")
    case True
    then show ?thesis by (intro exI [of _ "[]"] exI [of _ "(k', v') # m"]) simp
  next
    case False
    with 2 obtain a b where "m = a @ b" "map_put k v m = a @ (k, v) # b" by (auto split: if_splits)
    with False 2 show ?thesis by (intro exI [of _ "(k', v') # a"] exI [of _ b]) (auto split: if_splits)
  qed
qed simp

lemma unparse_longer:
  assumes "outputs drv = [(n, Deferred)]" "structuredAttrs drv = None" "map_of (drv_env drv) n = None"
    and "unparse sd True (Some ai) drv = Inr a"
    and "unparse sd True (Some ai) (drv\<lparr>outputs := [(n, InputAddressed p)], drv_env := map_put n v (drv_env drv)\<rparr>) = Inr b"
  shows "length a < length b"
proof -
  obtain x y where xy: "drv_env drv = x @ y" "map_put n v (drv_env drv) = x @ (n, v) # y"
    using map_put_fresh [OF assms(3)] by blast
  let ?pr = "\<lambda>i. ''('' @ printString (fst i) @ '','' @ printString (if fst i = n then [] else snd i) @ '')''"
  have "length (commas (map ?pr (x @ y))) < length (commas (map ?pr (x @ (n, v) # y)))"
    by (simp add: length_commas)
  moreover have "(\<exists>y. (if P then Some c else None) = Some y) = P" for P and c :: DerivationOutput by simp
  ultimately show ?thesis using assms xy
    by (auto simp: unparse_def hasDynamicDrvDep_def unparseOutput_def output_fields_def res_simps Let_def)
qed

lemma modulo_ref_DrvHash:
  "modulo_ref (Suc n) sd rd drv m () = Some (Inr (DrvHash h), ()) \<Longrightarrow>
   \<exists>ai a. hash_inputs (path_ref n sd rd) (inputDrvs drv) [] () = Some (Inr (Some ai), ()) \<and>
     unparse sd m (Some ai) drv = Inr a \<and> hashString (sd_digest sd) (sd_xp sd) SHA256 a = Inr h"
  unfolding modulo_ref_Suc modulo_body_def
  by (auto simp: bindS_Inr split: if_splits DerivationType.splits option.splits)

theorem fill_missing_env_collision:
  assumes drv: "outputs drv = [(n, Deferred)]" "structuredAttrs drv = None" "map_of (drv_env drv) n = None"
    and t: "table_ok sd rd t"
    and fill: "fillInOutputPaths k sd rd drv t = Some (Inr drv2, t2)" "outputs drv2 \<noteq> outputs drv"
    and check: "checkInvariants k sd rd drv2 t2 = Some (Inr (), t3)"
  shows "\<exists>a b p. a \<noteq> b \<and> text_path sd (drv_name drv) n a = Inr p \<and> text_path sd (drv_name drv) n b = Inr p"
proof -
  let ?hdm = "\<lambda>d. hashDerivationModulo k sd rd d True"
  from fill(1) drv(1) obtain hm where "process_output sd ?hdm True (drv_name drv) (n, Deferred) (drv, None) t = Some (Inr (drv2, hm), t2)"
    by (auto simp: fillInOutputPaths_def processDerivationOutputPaths_def bindS_Inr)
  then obtain h t1 where h: "?hdm drv t = Some (Inr h, t1)"
    and po: "process_output sd ?hdm True (drv_name drv) (n, Deferred) (drv, Some h) t1 = Some (Inr (drv2, hm), t2)"
    by (subst (asm) lazy_first) (auto simp: masked_out_def bindS_Inr)
  obtain dh p where dh: "h = DrvHash dh" "out_path sd (drv_name drv) dh n = Inr p" "t2 = t1"
    and d2: "drv2 = drv\<lparr>outputs := [(n, InputAddressed p)], drv_env := map_put n (printStorePath (sd_dir sd) p) (drv_env drv)\<rparr>"
    using po fill(2) drv
    by (cases h) (auto simp: process_output_def lazy_modulo_def bindS_Inr out_path_def envHasRightPath_def Let_def res_simps)
  have t1: "table_ok sd rd t1" and r1: "\<exists>N. \<forall>m\<ge>N. modulo_ref m sd rd drv True () = Some (Inr h, ())"
    using hdm_agrees [of sd rd k drv True] t h unfolding agrees_def by blast+
  have o2: "outputs drv2 = [(n, InputAddressed p)]" "drv_name drv2 = drv_name drv" by (simp_all add: d2)
  from check obtain x hm2 t4 where
    "process_output sd ?hdm False (drv_name drv) (n, InputAddressed p) (drv2, None) t1 = Some (Inr (x, hm2), t4)"
    unfolding checkInvariants_def processDerivationOutputPaths_def o2 by (auto simp: bindS_Inr dh(3))
  then obtain h2 t5 where h2: "?hdm drv2 t1 = Some (Inr h2, t5)"
    and po2: "process_output sd ?hdm False (drv_name drv) (n, InputAddressed p) (drv2, Some h2) t5 = Some (Inr (x, hm2), t4)"
    by (subst (asm) lazy_first) (auto simp: masked_out_def bindS_Inr)
  obtain dh2 where dh2: "h2 = DrvHash dh2" "out_path sd (drv_name drv) dh2 n = Inr p"
    using po2 by (cases h2) (auto simp: process_output_def lazy_modulo_def bindS_Inr out_path_def split: if_splits)
  have r2: "\<exists>N. \<forall>m\<ge>N. modulo_ref m sd rd drv2 True () = Some (Inr h2, ())"
    using hdm_agrees [of sd rd k drv2 True] t1 h2 unfolding agrees_def by blast
  from r1 r2 obtain N M where "\<forall>m\<ge>N. modulo_ref m sd rd drv True () = Some (Inr h, ())"
    "\<forall>m\<ge>M. modulo_ref m sd rd drv2 True () = Some (Inr h2, ())" by blast
  then have m: "modulo_ref (Suc (max N M)) sd rd drv True () = Some (Inr (DrvHash dh), ())"
    "modulo_ref (Suc (max N M)) sd rd drv2 True () = Some (Inr (DrvHash dh2), ())"
    by (simp_all add: dh(1) dh2(1) del: modulo_ref.simps)
  from modulo_ref_DrvHash [OF m(1)] obtain ai a where a:
    "hash_inputs (path_ref (max N M) sd rd) (inputDrvs drv) [] () = Some (Inr (Some ai), ())"
    "unparse sd True (Some ai) drv = Inr a" "hashString (sd_digest sd) (sd_xp sd) SHA256 a = Inr dh" by blast
  from modulo_ref_DrvHash [OF m(2)] a(1) d2 obtain b where b:
    "unparse sd True (Some ai) drv2 = Inr b" "hashString (sd_digest sd) (sd_xp sd) SHA256 b = Inr dh2" by auto
  have "length a < length b" using unparse_longer [OF drv a(2)] b(1) d2 by blast
  then have "a \<noteq> b" by auto
  moreover have "text_path sd (drv_name drv) n a = Inr p" "text_path sd (drv_name drv) n b = Inr p"
    using a(3) b(2) dh(2) dh2(2) by (simp_all add: text_path_def)
  ultimately show ?thesis by blast
qed

section \<open>Properties\<close>

text \<open>Examples: a store in which two paths hold fixed-output derivations that differ only in their builder.\<close>

definition example_src :: "string \<Rightarrow> nat Derivation" where
  "example_src b = example_drv\<lparr>outputs := [(''out'', CAFixed \<lparr>ca_method = Flat, ca_hash = \<lparr>hashSize = 32, hash = replicate 64 0, algo = SHA256\<rparr>\<rparr>)],
     builder := b, drv_name := ''src''\<rparr>"

definition path_a :: StorePath where "path_a = StorePath ''a.drv''"
definition path_b :: StorePath where "path_b = StorePath ''b.drv''"

definition example_store :: "StorePath \<Rightarrow> nat Derivation res option" where
  "example_store p = Some (
     if p = path_a then Inr (example_src ''curl'')
     else if p = path_b then Inr (example_src ''wget'')
     else Inl (NixError InvalidPath ''no such path''))"

lemma example_ranked: "ranked example_store (\<lambda>_. 0)"
  by (auto simp: ranked_def example_store_def example_src_def example_drv_def)

lemma example_hash:
  obtains h where "\<And>s. hashString (sd_digest example_config) (sd_xp example_config) SHA256 s = Inr h" "hashSize h \<noteq> 0"
proof -
  have "\<exists>h. (\<forall>s. hashString (sd_digest example_config) (sd_xp example_config) SHA256 s = Inr h) \<and> hashSize h \<noteq> 0"
    by (simp add: hashString_def new_Hash_def example_config_def regularHashSize_def maxHashSize_def Let_def)
  with that show thesis by blast
qed

lemma example_out_path:
  assumes "hashSize h \<noteq> 0"
  shows "\<exists>p. out_path example_config ''hello'' h ''out'' = Inr p"
proof -
  have "name_regex ''hello''" "length ''hello'' \<le> MaxPathLen"
    by (simp_all add: name_regex_def name_char_def less_eq_char_def MaxPathLen_def)
  from makeStorePath_wf [OF assms this] show ?thesis
    unfolding out_path_def makeOutputPath_def by (simp add: outputPathName_def) blast
qed


lemma example_fill:
  assumes "env = [] \<or> env = [(''out'', [])]"
  shows "\<exists>p t2. fillInOutputPaths (Suc 0) example_config example_store (example_drv\<lparr>drv_env := env\<rparr>) Map.empty =
     Some (Inr (example_drv\<lparr>outputs := [(''out'', InputAddressed p)],
       drv_env := [(''out'', printStorePath (sd_dir example_config) p)]\<rparr>), t2) \<and>
     checkInvariants (Suc 0) example_config example_store (example_drv\<lparr>outputs := [(''out'', InputAddressed p)],
       drv_env := [(''out'', printStorePath (sd_dir example_config) p)]\<rparr>) t2 = Some (Inr (), t2)"
proof -
  obtain h where h: "\<And>s. hashString (sd_digest example_config) (sd_xp example_config) SHA256 s = Inr h" "hashSize h \<noteq> 0"
    using example_hash by blast
  obtain p where p: "out_path example_config ''hello'' h ''out'' = Inr p" using example_out_path [OF h(2)] by blast
  have ex: "outputs example_drv = [(''out'', Deferred)]" "inputDrvs example_drv = []" "structuredAttrs example_drv = None"
    "drv_name example_drv = ''hello''" by (simp_all add: example_drv_def)
  have u: "\<exists>a. unparse example_config True (Some []) (example_drv\<lparr>outputs := [(''out'', x)], drv_env := e\<rparr>) = Inr a"
    if "masked_out x" "e \<in> {[], [(''out'', v)]}" for x e v
    using that by (auto simp: unparse_def ex unparseOutput_masked checkKeyNotInUse_def envVarName_def Let_def)
  have m: "hashDerivationModulo (Suc 0) example_config example_store (example_drv\<lparr>outputs := [(''out'', x)], drv_env := e\<rparr>) True t =
      Some (Inr (DrvHash h), t)" if "masked_out x" "e \<in> {[], [(''out'', v)]}" for x e v t
  proof -
    note xe = that
    obtain a where a: "unparse example_config True (Some []) (example_drv\<lparr>outputs := [(''out'', x)], drv_env := e\<rparr>) = Inr a"
      using u [OF xe] by blast
    have "kind_of x = InputAddressedType (x = Deferred)" using xe(1) by (auto simp: masked_out_def)
    then have "drv_type (example_drv\<lparr>outputs := [(''out'', x)], drv_env := e\<rparr>) = Inr (InputAddressedType (x = Deferred))"
      by (simp add: drv_type_iff typed_outputs_def)
    then show ?thesis
      by (simp add: modulo_body_def ex a h(1))
  qed
  let ?e = "[(''out'', printStorePath (sd_dir example_config) p)]"
  let ?hdm = "\<lambda>d. hashDerivationModulo (Suc 0) example_config example_store d True"
  let ?d2 = "example_drv\<lparr>outputs := [(''out'', InputAddressed p)], drv_env := ?e\<rparr>"
  let ?d1 = "example_drv\<lparr>outputs := [(''out'', Deferred)], drv_env := env\<rparr>"
  have d1: "example_drv\<lparr>drv_env := env\<rparr> = ?d1" by (simp add: example_drv_def)
  have m1: "?hdm ?d1 t = Some (Inr (DrvHash h), t)" for t by (rule m) (use assms in \<open>auto simp: masked_out_def\<close>)
  have m2: "?hdm ?d2 t = Some (Inr (DrvHash h), t)" for t by (rule m) (auto simp: masked_out_def)
  have po1: "process_output example_config ?hdm True ''hello'' (''out'', Deferred) (?d1, Some (DrvHash h)) = retS (?d2, Some (DrvHash h))"
    using p assms by (auto simp: process_output_def lazy_modulo_def out_path_def envHasRightPath_def Let_def)
  have po2: "process_output example_config ?hdm False ''hello'' (''out'', InputAddressed p) (?d2, Some (DrvHash h)) = retS (?d2, Some (DrvHash h))"
    using p by (simp add: process_output_def lazy_modulo_def out_path_def envHasRightPath_def Let_def)
  have ty: "drv_type ?d2 = Inr (InputAddressedType False)" by (simp add: drv_type_iff typed_outputs_def)
  have acc: "drv_name ?d1 = ''hello''" "drv_name ?d2 = ''hello''" "outputs ?d1 = [(''out'', Deferred)]"
    "outputs ?d2 = [(''out'', InputAddressed p)]" by (simp_all add: ex)
  have f1: "foldS (process_output example_config ?hdm True ''hello'') [(''out'', Deferred)] (?d1, None) t = Some (Inr (?d2, Some (DrvHash h)), t)" for t
    by (subst lazy_fold) (auto simp: masked_out_def bindS_Some m1 po1 simp del: hashDerivationModulo.simps)
  have f2: "foldS (process_output example_config ?hdm False ''hello'') [(''out'', InputAddressed p)] (?d2, None) t = Some (Inr (?d2, Some (DrvHash h)), t)" for t
    by (subst lazy_fold) (auto simp: masked_out_def bindS_Some m2 po2 simp del: hashDerivationModulo.simps)
  have "fillInOutputPaths (Suc 0) example_config example_store ?d1 Map.empty = Some (Inr ?d2, Map.empty)"
    unfolding fillInOutputPaths_def processDerivationOutputPaths_def acc
    by (simp add: bindS_def f1 ty liftS_def retS_def del: foldS.simps hashDerivationModulo.simps)
  moreover have "checkInvariants (Suc 0) example_config example_store ?d2 Map.empty = Some (Inr (), Map.empty)"
    unfolding checkInvariants_def processDerivationOutputPaths_def acc
    by (simp add: bindS_def f2 ty liftS_def retS_def del: foldS.simps hashDerivationModulo.simps)
  ultimately show ?thesis unfolding d1 by blast
qed


text \<open>C21: the type of a derivation is \<open>t\<close> exactly when it has at least one output, all its outputs are
  of the kind of \<open>t\<close>, a fixed output is the only one and is called \<open>out\<close>, and floating outputs agree
  on the hash algorithm.\<close>

theorem drv_type_typed: "(drv_type drv = Inr t) = typed_outputs t (outputs drv)"
  by (rule drv_type_iff)

text \<open>C4: on a store without cycles, \<open>hashDerivationModulo\<close> returns, its memo table only ever holds what
  the recursion without a table computes, and its result is that of the recursion without a table.\<close>

theorem hashDerivationModulo_memo:
  assumes "ranked rd rank" "inputs_below rank k drv" "table_ok sd rd t"
  shows "\<exists>r t'. hashDerivationModulo (Suc k) sd rd drv m t = Some (r, t') \<and> table_ok sd rd t' \<and>
    (\<exists>N. \<forall>n\<ge>N. modulo_ref n sd rd drv m () = Some (r, ()))"
  using assms by (rule hdm_total)

theorem hashDerivationModulo_memo_witness:
  "\<exists>r t'. hashDerivationModulo 2 example_config example_store (example_drv\<lparr>inputDrvs := [(path_a, ChildNode [''out''] [])]\<rparr>) False Map.empty =
     Some (r, t') \<and> table_ok example_config example_store t' \<and>
     (\<exists>N. \<forall>n\<ge>N. modulo_ref n example_config example_store (example_drv\<lparr>inputDrvs := [(path_a, ChildNode [''out''] [])]\<rparr>) False () = Some (r, ()))"
proof -
  have "inputs_below (\<lambda>_. 0) 1 (example_drv\<lparr>inputDrvs := [(path_a, ChildNode [''out''] [])]\<rparr>)" by (simp add: inputs_below_def)
  from hashDerivationModulo_memo [OF example_ranked this table_ok_empty] show ?thesis by (simp only: Suc_1)
qed



text \<open>C36: when two input derivations have the same hash modulo, only the output names wanted of the
  second count: any outputs wanted of the first give the same hash, and so the same output paths. (The
  manual specifies the union of the pairs of hash and output.)\<close>

theorem modulo_forgets_outputs:
  assumes "t p = Some (DrvHash h)" "t q = Some (DrvHash h)" "childMap a = []" "childMap a2 = []"
  shows "hashDerivationModulo (Suc k) sd rd (drv\<lparr>inputDrvs := [(p, a), (q, b)]\<rparr>) m t =
    hashDerivationModulo (Suc k) sd rd (drv\<lparr>inputDrvs := [(p, a2), (q, b)]\<rparr>) m t"
  using assms by (rule modulo_overwrite)

theorem modulo_forgets_outputs_witness:
  "\<exists>h. hashDerivationModulo 1 example_config example_store
      (example_drv\<lparr>inputDrvs := [(path_a, ChildNode [''dev''] []), (path_b, ChildNode [''out''] [])]\<rparr>) True [path_a \<mapsto> DrvHash h, path_b \<mapsto> DrvHash h] =
    hashDerivationModulo 1 example_config example_store
      (example_drv\<lparr>inputDrvs := [(path_a, ChildNode [''doc''] []), (path_b, ChildNode [''out''] [])]\<rparr>) True [path_a \<mapsto> DrvHash h, path_b \<mapsto> DrvHash h]"
proof (intro exI)
  fix h
  show "hashDerivationModulo 1 example_config example_store
      (example_drv\<lparr>inputDrvs := [(path_a, ChildNode [''dev''] []), (path_b, ChildNode [''out''] [])]\<rparr>) True [path_a \<mapsto> DrvHash h, path_b \<mapsto> DrvHash h] =
    hashDerivationModulo 1 example_config example_store
      (example_drv\<lparr>inputDrvs := [(path_a, ChildNode [''doc''] []), (path_b, ChildNode [''out''] [])]\<rparr>) True [path_a \<mapsto> DrvHash h, path_b \<mapsto> DrvHash h]"
    unfolding One_nat_def by (rule modulo_forgets_outputs) (auto simp: path_a_def path_b_def)
qed





end
