(* ===== verification/Derived_Path.thy ===== *)
theory Derived_Path
  imports Derivation_ATerm
begin

text \<open>
  Deriving paths and output specifications: \<open>outputs-spec.cc\<close>, \<open>derived-path.cc\<close>,
  \<open>path-with-outputs.cc\<close>, \<open>derived-path-map.cc\<close> and \<open>downstream-placeholder.cc\<close> of \<open>src/src/libstore\<close>.

  A \<open>DerivedPathMap\<close> (with \<open>V = StringSet\<close>) is the ordered association list of its root nodes. The
  reference that \<open>ensureSlot\<close> returns and the node that a callback of \<open>removeSlot\<close> gets are modified by
  the caller: \<open>modifySlot\<close> takes that modification as a function, and a callback returns the modified node.
\<close>

section \<open>Output specifications\<close>

datatype OutputsSpec = All | Names "string list"

definition mk_Names :: "string list \<Rightarrow> OutputsSpec res" where
  "mk_Names s = bind_res (assert_res (s \<noteq> [])) (\<lambda>_. Inr (Names s))"

definition spec_contains :: "OutputsSpec \<Rightarrow> string \<Rightarrow> bool" where
  "spec_contains spec outputName = (case spec of All \<Rightarrow> True | Names outputNames \<Rightarrow> outputName \<in> set outputNames)"

definition spec_parse :: "string \<Rightarrow> OutputsSpec res" where
  "spec_parse s =
     (if s = ''*'' then Inr All
      else
        let names = fold set_put (splitString s '','') [] in
        bind_res (fold_res (\<lambda>name _. checkName name) names ()) (\<lambda>_. mk_Names names))"

definition spec_parseOpt :: "string \<Rightarrow> OutputsSpec option res" where
  "spec_parseOpt s =
     (case spec_parse s of
        Inr x \<Rightarrow> Inr (Some x)
      | Inl (NixError c m) \<Rightarrow> if c = BadStorePathName then Inr None else Inl (NixError c m))"

definition spec_to_string :: "OutputsSpec \<Rightarrow> string" where
  "spec_to_string spec = (case spec of All \<Rightarrow> ''*'' | Names outputNames \<Rightarrow> concatStringsSep '','' outputNames)"

definition spec_union :: "OutputsSpec \<Rightarrow> OutputsSpec \<Rightarrow> OutputsSpec" where
  "spec_union this that =
     (case this of
        All \<Rightarrow> All
      | Names theseNames \<Rightarrow>
          (case that of All \<Rightarrow> All | Names thoseNames \<Rightarrow> Names (fold set_put thoseNames theseNames)))"

definition isSubsetOf :: "OutputsSpec \<Rightarrow> OutputsSpec \<Rightarrow> bool" where
  "isSubsetOf this that =
     (case that of
        All \<Rightarrow> True
      | Names thoseNames \<Rightarrow>
          (case this of
             All \<Rightarrow> False
           | Names theseNames \<Rightarrow> fold (\<lambda>n ret. if n \<notin> set thoseNames then False else ret) theseNames True))"

datatype ExtendedOutputsSpec = Default | Explicit OutputsSpec

text \<open>\<open>s.rfind(c)\<close>.\<close>

definition rfind :: "char \<Rightarrow> string \<Rightarrow> nat option" where
  "rfind c s = (if c \<in> set s then Some (length s - 1 - length (takeWhile (\<lambda>x. x \<noteq> c) (rev s))) else None)"

definition ext_parseOpt :: "string \<Rightarrow> (string \<times> ExtendedOutputsSpec) option res" where
  "ext_parseOpt s =
     (case rfind (CHR ''^'') s of
        None \<Rightarrow> Inr (Some (s, Default))
      | Some found \<Rightarrow>
          bind_res (spec_parseOpt (drop (found + 1) s)) (\<lambda>specOpt.
            case specOpt of
              None \<Rightarrow> Inr None
            | Some spec \<Rightarrow> Inr (Some (take found s, Explicit spec))))"

definition ext_parse :: "string \<Rightarrow> (string \<times> ExtendedOutputsSpec) res" where
  "ext_parse s =
     bind_res (ext_parseOpt s) (\<lambda>spec.
       case spec of
         None \<Rightarrow> Inl (NixError Error ''invalid extended outputs specifier %s'')
       | Some x \<Rightarrow> Inr x)"

definition ext_to_string :: "ExtendedOutputsSpec \<Rightarrow> string" where
  "ext_to_string e = (case e of Default \<Rightarrow> [] | Explicit outputSpec \<Rightarrow> ''^'' @ spec_to_string outputSpec)"

section \<open>Deriving paths\<close>

datatype SingleDerivedPath = SOpaque StorePath | SBuilt SingleDerivedPath string

datatype DerivedPath = Opaque StorePath | Built SingleDerivedPath OutputsSpec

fun sdp_to_string :: "'j StoreDirConfig \<Rightarrow> SingleDerivedPath \<Rightarrow> string" where
  "sdp_to_string sd (SOpaque path) = printStorePath (sd_dir sd) path"
| "sdp_to_string sd (SBuilt drvPath out) = sdp_to_string sd drvPath @ ''^'' @ out"

definition sdp_to_string_legacy :: "'j StoreDirConfig \<Rightarrow> SingleDerivedPath \<Rightarrow> string" where
  "sdp_to_string_legacy sd p =
     (case p of
        SOpaque path \<Rightarrow> sdp_to_string sd p
      | SBuilt drvPath out \<Rightarrow> sdp_to_string sd drvPath @ ''!'' @ out)"

definition dp_to_string :: "'j StoreDirConfig \<Rightarrow> DerivedPath \<Rightarrow> string" where
  "dp_to_string sd p =
     (case p of
        Opaque path \<Rightarrow> printStorePath (sd_dir sd) path
      | Built drvPath outs \<Rightarrow> sdp_to_string sd drvPath @ ''^'' @ spec_to_string outs)"

definition dp_to_string_legacy :: "'j StoreDirConfig \<Rightarrow> DerivedPath \<Rightarrow> string" where
  "dp_to_string_legacy sd p =
     (case p of
        Opaque path \<Rightarrow> printStorePath (sd_dir sd) path
      | Built drvPath outs \<Rightarrow> sdp_to_string_legacy sd drvPath @ ''!'' @ spec_to_string outs)"

definition drvRequireExperiment :: "'j StoreDirConfig \<Rightarrow> SingleDerivedPath \<Rightarrow> unit res" where
  "drvRequireExperiment sd drv =
     (case drv of SOpaque p \<Rightarrow> Inr () | SBuilt d out \<Rightarrow> require (sd_xp sd) DynamicDerivations)"

lemma rfind_less: "rfind c s = Some n \<Longrightarrow> n < length s"
  by (cases s) (auto simp: rfind_def split: if_splits)

function parseWithSingle :: "'j StoreDirConfig \<Rightarrow> char \<Rightarrow> string \<Rightarrow> SingleDerivedPath res option" where
  "parseWithSingle sd separator s =
     (case rfind separator s of
        None \<Rightarrow> bind_ro (parseStorePath (sd_dir sd) s) (\<lambda>p. Some (Inr (SOpaque p)))
      | Some n \<Rightarrow>
          bind_ro (parseWithSingle sd separator (take n s)) (\<lambda>drv.
          bind_ro (Some (drvRequireExperiment sd drv)) (\<lambda>_. Some (Inr (SBuilt drv (drop (n + 1) s))))))"
  by pat_completeness auto
termination by (relation "measure (\<lambda>(sd, c, s). length s)") (auto dest: rfind_less)

declare parseWithSingle.simps [simp del]

definition sdp_parse :: "'j StoreDirConfig \<Rightarrow> string \<Rightarrow> SingleDerivedPath res option" where
  "sdp_parse sd s = parseWithSingle sd (CHR ''^'') s"

definition sdp_parseLegacy :: "'j StoreDirConfig \<Rightarrow> string \<Rightarrow> SingleDerivedPath res option" where
  "sdp_parseLegacy sd s = parseWithSingle sd (CHR ''!'') s"

definition parseWith :: "'j StoreDirConfig \<Rightarrow> char \<Rightarrow> string \<Rightarrow> DerivedPath res option" where
  "parseWith sd separator s =
     (case rfind separator s of
        None \<Rightarrow> bind_ro (parseStorePath (sd_dir sd) s) (\<lambda>p. Some (Inr (Opaque p)))
      | Some n \<Rightarrow>
          bind_ro (parseWithSingle sd separator (take n s)) (\<lambda>drv.
          bind_ro (Some (drvRequireExperiment sd drv)) (\<lambda>_.
          bind_ro (Some (spec_parse (drop (n + 1) s))) (\<lambda>outs. Some (Inr (Built drv outs))))))"

definition dp_parse :: "'j StoreDirConfig \<Rightarrow> string \<Rightarrow> DerivedPath res option" where
  "dp_parse sd s = parseWith sd (CHR ''^'') s"

definition dp_parseLegacy :: "'j StoreDirConfig \<Rightarrow> string \<Rightarrow> DerivedPath res option" where
  "dp_parseLegacy sd s = parseWith sd (CHR ''!'') s"

definition fromSingle :: "SingleDerivedPath \<Rightarrow> DerivedPath" where
  "fromSingle req = (case req of SOpaque p \<Rightarrow> Opaque p | SBuilt drvPath out \<Rightarrow> Built drvPath (Names [out]))"

fun getBaseStorePath :: "SingleDerivedPath \<Rightarrow> StorePath" where
  "getBaseStorePath (SOpaque p) = p"
| "getBaseStorePath (SBuilt drvPath out) = getBaseStorePath drvPath"

definition dp_getBaseStorePath :: "DerivedPath \<Rightarrow> StorePath" where
  "dp_getBaseStorePath p = (case p of Opaque q \<Rightarrow> q | Built drvPath outs \<Rightarrow> getBaseStorePath drvPath)"

section \<open>Store paths with outputs\<close>

datatype StorePathWithOutputs = StorePathWithOutputs (swo_path: StorePath) (swo_outputs: "string list")

definition swo_to_string :: "'j StoreDirConfig \<Rightarrow> StorePathWithOutputs \<Rightarrow> string" where
  "swo_to_string sd s =
     (if swo_outputs s = [] then printStorePath (sd_dir sd) (swo_path s)
      else printStorePath (sd_dir sd) (swo_path s) @ ''!'' @ concatStringsSep '','' (swo_outputs s))"

definition toDerivedPath :: "StorePathWithOutputs \<Rightarrow> DerivedPath res" where
  "toDerivedPath s =
     (if swo_outputs s \<noteq> [] then
        bind_res (mk_Names (swo_outputs s)) (\<lambda>ns. Inr (Built (SOpaque (swo_path s)) ns))
      else
        bind_res (isDerivation (swo_path s)) (\<lambda>b.
          if b then bind_res (assert_res (swo_outputs s = [])) (\<lambda>_. Inr (Built (SOpaque (swo_path s)) All))
          else Inr (Opaque (swo_path s))))"

definition toDerivedPaths :: "StorePathWithOutputs list \<Rightarrow> DerivedPath list res" where
  "toDerivedPaths ss = map_res toDerivedPath ss"

datatype ParseResult = PathWithOutputs StorePathWithOutputs | DrvPath StorePath | NoResult

definition tryFromDerivedPath :: "DerivedPath \<Rightarrow> ParseResult res" where
  "tryFromDerivedPath p =
     (case p of
        Opaque path \<Rightarrow>
          bind_res (isDerivation path) (\<lambda>b.
            Inr (if b then DrvPath path else PathWithOutputs (StorePathWithOutputs path [])))
      | Built drvPath outs \<Rightarrow>
          (case drvPath of
             SOpaque path \<Rightarrow>
               Inr (PathWithOutputs (StorePathWithOutputs path (case outs of All \<Rightarrow> [] | Names ns \<Rightarrow> ns)))
           | SBuilt d n \<Rightarrow> Inr NoResult))"

definition split_path_outputs :: "string \<Rightarrow> string \<times> string list" where
  "split_path_outputs s =
     (let n = length (takeWhile (\<lambda>c. c \<noteq> CHR ''!'') s)
      in if n = length s then (s, [])
         else (take n s, fold set_put (tokenizeString (drop (n + 1) s) '','') []))"

definition parsePathWithOutputs :: "'j StoreDirConfig \<Rightarrow> string \<Rightarrow> StorePathWithOutputs res option" where
  "parsePathWithOutputs sd pathWithOutputs =
     (let (path, outs) = split_path_outputs pathWithOutputs
      in bind_ro (parseStorePath (sd_dir sd) path) (\<lambda>p. Some (Inr (StorePathWithOutputs p outs))))"

section \<open>Maps of deriving paths\<close>

type_synonym DerivedPathMap = "(StorePath \<times> ChildNode) list"

definition slot :: "ChildNode option \<Rightarrow> ChildNode" where
  "slot n = (case n of None \<Rightarrow> ChildNode [] [] | Some n \<Rightarrow> n)"

fun modifySlot :: "SingleDerivedPath \<Rightarrow> (ChildNode \<Rightarrow> ChildNode) \<Rightarrow> DerivedPathMap \<Rightarrow> DerivedPathMap" where
  "modifySlot (SOpaque p) f m = map_put p (f (slot (map_of m p))) m"
| "modifySlot (SBuilt drvPath out) f m =
     modifySlot drvPath (\<lambda>n. ChildNode (node_value n) (map_put out (f (slot (map_of (childMap n) out))) (childMap n))) m"

definition ensureSlot :: "SingleDerivedPath \<Rightarrow> DerivedPathMap \<Rightarrow> DerivedPathMap" where
  "ensureSlot k m = modifySlot k (\<lambda>n. n) m"

fun findSlot :: "SingleDerivedPath \<Rightarrow> DerivedPathMap \<Rightarrow> ChildNode option" where
  "findSlot (SOpaque p) m = map_of m p"
| "findSlot (SBuilt drvPath out) m =
     (case findSlot drvPath m of None \<Rightarrow> None | Some n \<Rightarrow> map_of (childMap n) out)"

definition node_in_use :: "ChildNode \<Rightarrow> bool" where
  "node_in_use n = (node_value n \<noteq> [] \<or> childMap n \<noteq> [])"

fun removeIter :: "SingleDerivedPath \<Rightarrow> (ChildNode \<Rightarrow> bool \<times> ChildNode) \<Rightarrow> DerivedPathMap \<Rightarrow> DerivedPathMap" where
  "removeIter (SOpaque p) onNode m =
     (case map_of m p of
        None \<Rightarrow> m
      | Some n \<Rightarrow> (case onNode n of (keep, n') \<Rightarrow> if keep then map_put p n' m else map_erase p m))"
| "removeIter (SBuilt drvPath out) onNode m =
     removeIter drvPath (\<lambda>parent.
       case map_of (childMap parent) out of
         None \<Rightarrow> (node_in_use parent, parent)
       | Some n \<Rightarrow>
           (case onNode n of (keep, n') \<Rightarrow>
             let parent' = ChildNode (node_value parent)
                   (if keep then map_put out n' (childMap parent) else map_erase out (childMap parent))
             in (node_in_use parent', parent'))) m"

definition removeSlot :: "SingleDerivedPath \<Rightarrow> (ChildNode \<Rightarrow> bool \<times> ChildNode) \<Rightarrow> DerivedPathMap \<Rightarrow> DerivedPathMap" where
  "removeSlot k callback m =
     removeIter k (\<lambda>node. case callback node of (b, node') \<Rightarrow> (b \<or> childMap node' \<noteq> [], node')) m"

section \<open>Placeholders\<close>

datatype DownstreamPlaceholder = DownstreamPlaceholder (placeholder_hash: Hash)

definition render :: "DownstreamPlaceholder \<Rightarrow> string res" where
  "render p = bind_res (hash_to_string (placeholder_hash p) Nix32 False) (\<lambda>s. Inr (''/'' @ s))"

definition hashPlaceholder :: "'j StoreDirConfig \<Rightarrow> string \<Rightarrow> string res" where
  "hashPlaceholder sd outputName =
     bind_res (hashString (sd_digest sd) (sd_xp sd) SHA256 (concatStrings [''nix-output:'', outputName])) (\<lambda>h.
     bind_res (hash_to_string h Nix32 False) (\<lambda>s. Inr (''/'' @ s)))"

definition unknownCaOutput :: "'j StoreDirConfig \<Rightarrow> StorePath \<Rightarrow> string \<Rightarrow> DownstreamPlaceholder res" where
  "unknownCaOutput sd drvPath outputName =
     bind_res (require (sd_xp sd) CaDerivations) (\<lambda>_.
     bind_res (path_name drvPath) (\<lambda>drvNameWithExtension.
       let drvName = (if length drvNameWithExtension < 4 then drvNameWithExtension
                      else take (length drvNameWithExtension - 4) drvNameWithExtension);
           clearText = ''nix-upstream-output:'' @ hashPart drvPath @ '':'' @ outputPathName drvName outputName
       in bind_res (hashString (sd_digest sd) (sd_xp sd) SHA256 clearText) (\<lambda>h. Inr (DownstreamPlaceholder h))))"

definition unknownDerivation ::
    "'j StoreDirConfig \<Rightarrow> DownstreamPlaceholder \<Rightarrow> string \<Rightarrow> DownstreamPlaceholder res" where
  "unknownDerivation sd placeholder outputName =
     bind_res (require (sd_xp sd) DynamicDerivations) (\<lambda>_.
     bind_res (compressHash (sd_xp sd) (placeholder_hash placeholder) 20) (\<lambda>compressed.
     bind_res (hash_to_string compressed Nix32 False) (\<lambda>cs.
       let clearText = ''nix-computed-output:'' @ cs @ '':'' @ outputName
       in bind_res (hashString (sd_digest sd) (sd_xp sd) SHA256 clearText) (\<lambda>h. Inr (DownstreamPlaceholder h)))))"

fun fromSingleDerivedPathBuilt :: "'j StoreDirConfig \<Rightarrow> SingleDerivedPath \<Rightarrow> string \<Rightarrow> DownstreamPlaceholder res" where
  "fromSingleDerivedPathBuilt sd (SOpaque p) output = unknownCaOutput sd p output"
| "fromSingleDerivedPathBuilt sd (SBuilt drvPath out) output =
     bind_res (fromSingleDerivedPathBuilt sd drvPath out) (\<lambda>b2. unknownDerivation sd b2 output)"

section \<open>Lemmas: output specifications\<close>

lemma set_fold_set_put [simp]: "set (fold set_put xs ys) = set xs \<union> set ys"
  by (induction xs arbitrary: ys) auto

lemma sorted_fold_set_put: "sorted_wrt (<) ys \<Longrightarrow> sorted_wrt (<) (fold set_put xs (ys :: 'a::linorder list))"
  by (induction xs arbitrary: ys) auto

lemma fold_all: "fold (\<lambda>n ret. if n \<notin> S then False else ret) xs b = (b \<and> set xs \<subseteq> S)"
  by (induction xs arbitrary: b) auto

definition spec_ok :: "OutputsSpec \<Rightarrow> bool" where
  "spec_ok spec = (case spec of All \<Rightarrow> True | Names ns \<Rightarrow>
     ns \<noteq> [] \<and> sorted_wrt (<) ns \<and> list_all (\<lambda>n. checkName n = Inr ()) ns)"

lemma check_names: "(fold_res (\<lambda>name _. checkName name) ns () = Inr u) = list_all (\<lambda>n. checkName n = Inr ()) ns"
  by (induction ns) (auto simp: res_simps)

lemma checkName_chars: "checkName n = Inr () \<Longrightarrow> list_all name_char n \<and> n \<noteq> []"
  by (auto simp: checkName_iff name_regex_def)

lemma not_name_char [simp]: "\<not> name_char (CHR '','')" "\<not> name_char (CHR ''*'')" "\<not> name_char (CHR ''^'')" "\<not> name_char (CHR ''!'')"
  "\<not> name_char (CHR ''/'')"
  by (simp_all add: name_char_def less_eq_char_def)

lemma spec_string_chars:
  assumes "spec_ok spec" "c = CHR ''^'' \<or> c = CHR ''!''"
  shows "c \<notin> set (spec_to_string spec)"
proof (cases spec)
  case (Names ns)
  have "c \<notin> set (concatStringsSep '','' ns)"
    if "list_all (\<lambda>n. checkName n = Inr ()) ns" for ns
    using that assms(2)
  proof (induction ns)
    case (Cons n ns)
    have "c \<notin> set n" using Cons.prems checkName_chars [of n] by (auto simp: list_all_iff)
    with Cons show ?case by (auto simp: concatStringsSep_Cons)
  qed simp
  with Names assms(1) show ?thesis by (simp add: spec_to_string_def spec_ok_def)
qed (use assms in \<open>auto simp: spec_to_string_def\<close>)

lemma spec_round:
  assumes "spec_ok spec"
  shows "spec_parse (spec_to_string spec) = Inr spec"
proof (cases spec)
  case (Names ns)
  have ok: "ns \<noteq> []" "sorted_wrt (<) ns" "list_all (\<lambda>n. checkName n = Inr ()) ns" using assms Names by (simp_all add: spec_ok_def)
  have comma: "CHR '','' \<notin> set n" "CHR ''*'' \<notin> set n" if "n \<in> set ns" for n
    using that ok(3) checkName_chars [of n] by (auto simp: list_all_iff)
  have "splitString (concatStringsSep '','' ns) '','' = ns"
    using ok(1) comma by (intro splitString_concat) auto
  moreover have "concatStringsSep '','' ns \<noteq> ''*''"
  proof (cases ns)
    case (Cons n rest)
    with ok(3) checkName_chars [of n] comma(2) [of n] show ?thesis
      by (cases n) (auto simp: concatStringsSep_Cons)
  qed (use ok in simp)
  moreover have "fold set_put ns [] = ns"
    using ok(2) by (metis append_Nil fold_set_put)
  ultimately show ?thesis
    using ok by (simp add: spec_parse_def spec_to_string_def Names Let_def mk_Names_def check_names [symmetric])
      (metis (mono_tags) bind_res.simps(2) check_names)
qed (simp add: spec_parse_def spec_to_string_def)

lemma spec_parse_ok: "spec_parse s = Inr spec \<Longrightarrow> spec_ok spec"
  using sorted_fold_set_put [of "[]" "splitString s '',''"]
  by (auto simp: spec_parse_def Let_def res_simps check_names mk_Names_def spec_ok_def split: if_splits)

section \<open>Lemmas: deriving paths\<close>

lemma rfind_last: "c \<notin> set t \<Longrightarrow> rfind c (s @ c # t) = Some (length s)"
proof -
  assume c: "c \<notin> set t"
  have "takeWhile (\<lambda>x. x \<noteq> c) (rev (s @ c # t)) = rev t" using c by (simp add: takeWhile_append)
  then show ?thesis by (simp add: rfind_def)
qed

lemma rfind_none: "c \<notin> set s \<Longrightarrow> rfind c s = None"
  by (simp add: rfind_def)

fun sdp_ok :: "'j StoreDirConfig \<Rightarrow> SingleDerivedPath \<Rightarrow> bool" where
  "sdp_ok sd (SOpaque p) = (dir_ok (sd_dir sd) \<and> path_wf p \<and> CHR ''^'' \<notin> set (sd_dir sd) \<and> CHR ''!'' \<notin> set (sd_dir sd))"
| "sdp_ok sd (SBuilt d out) =
     (sdp_ok sd d \<and> (\<forall>c. c = CHR ''^'' \<or> c = CHR ''!'' \<or> c = CHR ''/'' \<longrightarrow> c \<notin> set out) \<and>
      (case d of SOpaque p \<Rightarrow> True | SBuilt e n \<Rightarrow> isEnabled (sd_xp sd) DynamicDerivations))"

lemma path_chars:
  assumes "path_wf p" "c = CHR ''^'' \<or> c = CHR ''!'' \<or> c = CHR ''/''" shows "c \<notin> set (base p)"
proof -
  obtain h n where p: "base p = h @ ''-'' @ n" "\<not> list_ex bad_hash_char h" "name_regex n" using assms(1) by (auto simp: path_wf_def)
  have "bad_hash_char (CHR ''^'')" "bad_hash_char (CHR ''!'')" "bad_hash_char (CHR ''/'')"
    by (simp_all add: bad_hash_char_def less_eq_char_def)
  then have "c \<notin> set h" using p(2) assms(2) by (auto simp: list_ex_iff)
  moreover have "c \<notin> set n" using p(3) assms(2) by (auto simp: name_regex_def list_all_iff)
  ultimately show ?thesis using p(1) assms(2) by auto
qed

lemma slash_not_sep: "CHR ''/'' \<noteq> CHR ''^''" "CHR ''/'' \<noteq> CHR ''!''" by simp_all

lemma print_chars:
  assumes "sdp_ok sd (SOpaque p)" "c = CHR ''^'' \<or> c = CHR ''!''"
  shows "c \<notin> set (printStorePath (sd_dir sd) p)"
  using assms path_chars [of p c] by (auto simp: printStorePath_def)

lemma sdp_no_bang: "sdp_ok sd p \<Longrightarrow> CHR ''!'' \<notin> set (sdp_to_string sd p)"
proof (induction p)
  case (SOpaque p)
  then show ?case using print_chars [of sd p "CHR ''!''"] by (simp del: sdp_ok.simps)
qed auto

theorem sdp_round: "sdp_ok sd p \<Longrightarrow> sdp_parse sd (sdp_to_string sd p) = Some (Inr p)"
  unfolding sdp_parse_def
proof (induction p)
  case (SOpaque p)
  then show ?case
    using print_chars [of sd p "CHR ''^''"] parse_print_path [of "sd_dir sd" p]
    by (subst parseWithSingle.simps) (simp add: rfind_none)
next
  case (SBuilt d out)
  then have "drvRequireExperiment sd d = Inr ()"
    by (auto simp: drvRequireExperiment_def require_enabled split: SingleDerivedPath.splits)
  with SBuilt rfind_last [of "CHR ''^''" out "sdp_to_string sd d"] show ?case
    by (subst parseWithSingle.simps) simp
qed

fun dp_ok :: "'j StoreDirConfig \<Rightarrow> DerivedPath \<Rightarrow> bool" where
  "dp_ok sd (Opaque p) = sdp_ok sd (SOpaque p)"
| "dp_ok sd (Built d outs) = (sdp_ok sd d \<and> spec_ok outs \<and>
     (case d of SOpaque p \<Rightarrow> True | SBuilt e n \<Rightarrow> isEnabled (sd_xp sd) DynamicDerivations))"

theorem dp_round: "dp_ok sd p \<Longrightarrow> dp_parse sd (dp_to_string sd p) = Some (Inr p)"
proof (cases p)
  case (Opaque q)
  then show "dp_ok sd p \<Longrightarrow> ?thesis"
    using print_chars [of sd q "CHR ''^''"] parse_print_path [of "sd_dir sd" q]
    by (simp add: dp_parse_def parseWith_def dp_to_string_def rfind_none)
next
  case (Built d outs)
  assume ok: "dp_ok sd p"
  then have "drvRequireExperiment sd d = Inr ()"
    using Built by (auto simp: drvRequireExperiment_def require_enabled split: SingleDerivedPath.splits)
  with ok Built sdp_round [of sd d] spec_round [of outs] spec_string_chars [of outs "CHR ''^''"]
    rfind_last [of "CHR ''^''" "spec_to_string outs" "sdp_to_string sd d"] show ?thesis
    by (simp add: dp_parse_def parseWith_def dp_to_string_def sdp_parse_def)
qed

text \<open>The legacy syntax: at most one level reads back; a nested path does not parse.\<close>

lemma parse_bad_base:
  assumes "dir_ok (sd_dir sd)" "path_wf p" "CHR ''/'' \<notin> set out"
  shows "\<exists>e. parseStorePath (sd_dir sd) (printStorePath (sd_dir sd) p @ CHR ''^'' # out) = Some (Inl e)"
proof -
  let ?b = "base p @ CHR ''^'' # out"
  obtain ds where ds: "sd_dir sd = rend_root ds" "list_all comp_ok ds" using assms(1) by (auto simp: dir_ok_def)
  have abs: "is_absolute (rend_root ds @ CHR ''/'' # ?b)"
    by (cases ds) (simp_all add: is_absolute_def rend_root_def rend_def)
  have ok: "comp_ok ?b" using path_wf_comp [OF assms(2)] assms(3) by (auto simp: comp_ok_def append_eq_Cons_conv)
  have "mk_StorePath ?b \<noteq> Inr q" for q
  proof
    assume "mk_StorePath ?b = Inr q"
    then obtain h d n where m: "?b = h @ d # n" "length h = HashLen" "name_regex n" unfolding mk_StorePath_iff by auto
    obtain h2 n2 where p: "base p = h2 @ CHR ''-'' # n2" "length h2 = HashLen" using assms(2) by (auto simp: path_wf_def)
    with m(1,2) have "n = n2 @ CHR ''^'' # out" by auto
    with m(3) show False by (auto simp: name_regex_def)
  qed
  then obtain e where e: "mk_StorePath ?b = Inl e" by (cases "mk_StorePath ?b") auto
  have "printStorePath (sd_dir sd) p @ CHR ''^'' # out = rend_root ds @ CHR ''/'' # ?b"
    by (simp add: printStorePath_def ds(1))
  then show ?thesis
    using parseStorePath_eq [OF abs ds(2)] resolve_print [OF ds(2) ok] e by (simp add: ds(1))
qed

theorem legacy_nested:
  assumes "sdp_ok sd (SBuilt (SBuilt (SOpaque p) a) b)"
  shows "\<exists>e. sdp_parseLegacy sd (sdp_to_string_legacy sd (SBuilt (SBuilt (SOpaque p) a) b)) = Some (Inl e)"
proof -
  let ?d = "sdp_to_string sd (SBuilt (SOpaque p) a)"
  have ok: "sdp_ok sd (SBuilt (SOpaque p) a)" "CHR ''!'' \<notin> set b" "CHR ''/'' \<notin> set a" using assms by auto
  obtain e where e: "parseStorePath (sd_dir sd) ?d = Some (Inl e)"
    using parse_bad_base [of sd p a] ok by auto
  have "rfind (CHR ''!'') ?d = None" using sdp_no_bang [OF ok(1)] by (rule rfind_none)
  with e have d: "parseWithSingle sd (CHR ''!'') ?d = Some (Inl e)" by (subst parseWithSingle.simps) simp
  have l: "sdp_to_string_legacy sd (SBuilt (SBuilt (SOpaque p) a) b) = ?d @ CHR ''!'' # b"
    by (simp add: sdp_to_string_legacy_def)
  have "parseWithSingle sd (CHR ''!'') (?d @ CHR ''!'' # b) = Some (Inl e)"
    by (subst parseWithSingle.simps) (simp add: rfind_last [OF ok(2)] d del: sdp_to_string.simps)
  then show ?thesis unfolding sdp_parseLegacy_def l by blast
qed

section \<open>Lemmas: store paths with outputs\<close>

theorem swo_round:
  assumes "path_wf (swo_path s)"
  shows "\<exists>p. toDerivedPath s = Inr p \<and>
    tryFromDerivedPath p = Inr (PathWithOutputs s)"
proof -
  obtain b where "isDerivation (swo_path s) = Inr b"
    using assms by (auto simp: path_wf_def isDerivation_def path_name_def)
  then show ?thesis
    by (cases s; cases b) (auto simp: toDerivedPath_def tryFromDerivedPath_def mk_Names_def)
qed

section \<open>Lemmas: maps\<close>

text \<open>The abstract map: each deriving path has a set of outputs, empty when it has no node.\<close>

definition wanted :: "DerivedPathMap \<Rightarrow> SingleDerivedPath \<Rightarrow> string list" where
  "wanted m k = node_value (slot (findSlot k m))"

text \<open>\<open>setv f\<close> is a caller that only changes the value of the node.\<close>

definition setv :: "(string list \<Rightarrow> string list) \<Rightarrow> ChildNode \<Rightarrow> ChildNode" where
  "setv f n = ChildNode (f (node_value n)) (childMap n)"

text \<open>A deriving path as its base path and the outputs from the base outwards.\<close>

fun route :: "SingleDerivedPath \<Rightarrow> string list" where
  "route (SOpaque p) = []"
| "route (SBuilt d out) = route d @ [out]"

fun val :: "ChildNode \<Rightarrow> string list \<Rightarrow> string list" where
  "val n [] = node_value n"
| "val n (x # xs) = val (slot (map_of (childMap n) x)) xs"

fun upd :: "string list \<Rightarrow> (ChildNode \<Rightarrow> ChildNode) \<Rightarrow> ChildNode \<Rightarrow> ChildNode" where
  "upd [] f n = f n"
| "upd (x # xs) f n = ChildNode (node_value n) (map_put x (upd xs f (slot (map_of (childMap n) x))) (childMap n))"

fun remv :: "string list \<Rightarrow> (ChildNode \<Rightarrow> bool \<times> ChildNode) \<Rightarrow> ChildNode \<Rightarrow> bool \<times> ChildNode" where
  "remv [] onNode n = onNode n"
| "remv (x # xs) onNode n =
     (case map_of (childMap n) x of
        None \<Rightarrow> (node_in_use n, n)
      | Some c \<Rightarrow>
          (case remv xs onNode c of (keep, c') \<Rightarrow>
            let n' = ChildNode (node_value n) (if keep then map_put x c' (childMap n) else map_erase x (childMap n))
            in (node_in_use n', n')))"

lemma route_inj: "getBaseStorePath k = getBaseStorePath k' \<and> route k = route k' \<longleftrightarrow> k = k'"
proof (induction k arbitrary: k')
  case (SOpaque p)
  show ?case by (cases k') auto
next
  case (SBuilt d out)
  show ?case by (cases k') (use SBuilt in auto)
qed

lemma upd_snoc:
  "upd (xs @ [x]) f n =
   upd xs (\<lambda>n. ChildNode (node_value n) (map_put x (f (slot (map_of (childMap n) x))) (childMap n))) n"
  by (induction xs arbitrary: n) simp_all

lemma remv_snoc:
  "remv (xs @ [x]) f n = remv xs (remv [x] f) n"
  by (induction xs arbitrary: n) (auto split: option.splits)

lemma modifySlot_route:
  "modifySlot k f m =
   map_put (getBaseStorePath k) (upd (route k) f (slot (map_of m (getBaseStorePath k)))) m"
  by (induction k arbitrary: f) (simp_all add: upd_snoc)

lemma removeIter_route:
  "removeIter k f m =
   (case map_of m (getBaseStorePath k) of
      None \<Rightarrow> m
    | Some n \<Rightarrow> (case remv (route k) f n of (keep, n') \<Rightarrow>
        if keep then map_put (getBaseStorePath k) n' m else map_erase (getBaseStorePath k) m))"
proof (induction k arbitrary: f)
  case (SBuilt d out)
  have "remv [out] f = (\<lambda>parent. case map_of (childMap parent) out of None \<Rightarrow> (node_in_use parent, parent)
      | Some n \<Rightarrow> (case f n of (keep, n') \<Rightarrow>
         let parent' = ChildNode (node_value parent) (if keep then map_put out n' (childMap parent) else map_erase out (childMap parent))
         in (node_in_use parent', parent')))"
    by (rule ext) (simp split: option.splits)
  then show ?case by (simp only: removeIter.simps SBuilt.IH route.simps getBaseStorePath.simps remv_snoc)
qed (simp only: removeIter.simps route.simps remv.simps getBaseStorePath.simps)

lemma val_default [simp]: "val (ChildNode [] []) xs = []"
  by (induction xs) (simp_all add: slot_def)

lemma slot_simps [simp]: "slot None = ChildNode [] []" "slot (Some n) = n"
  by (simp_all add: slot_def)

fun desc :: "ChildNode \<Rightarrow> string list \<Rightarrow> ChildNode" where
  "desc n [] = n"
| "desc n (x # xs) = desc (slot (map_of (childMap n) x)) xs"

lemma desc_snoc: "desc n (xs @ [x]) = slot (map_of (childMap (desc n xs)) x)"
  by (induction xs arbitrary: n) simp_all

lemma desc_val: "node_value (desc n xs) = val n xs"
  by (induction xs arbitrary: n) simp_all

lemma wanted_route: "wanted m k = val (slot (map_of m (getBaseStorePath k))) (route k)"
proof -
  have "slot (findSlot k m) = desc (slot (map_of m (getBaseStorePath k))) (route k)"
  proof (induction k)
    case (SBuilt d out)
    then show ?case by (cases "findSlot d m") (simp_all add: desc_snoc SBuilt [symmetric])
  qed simp
  then show ?thesis by (simp add: wanted_def desc_val)
qed

lemma val_upd: "val (upd xs (setv f) n) ys = (if ys = xs then f (val n xs) else val n ys)"
proof (induction xs arbitrary: n ys)
  case Nil
  show ?case by (cases ys) (simp_all add: setv_def)
next
  case (Cons x xs)
  show ?case by (cases ys) (auto simp: Cons)
qed

definition clear :: "ChildNode \<Rightarrow> bool \<times> ChildNode" where
  "clear n = (False, setv (\<lambda>_. []) n)"

lemma val_remv:
  "remv xs (\<lambda>n. case clear n of (b, n') \<Rightarrow> (b \<or> childMap n' \<noteq> [], n')) n = (keep, n') \<Longrightarrow>
   (\<forall>ys. val n' ys = (if ys = xs then [] else val n ys)) \<and> (\<not> keep \<longrightarrow> n' = ChildNode [] [])"
proof (induction xs arbitrary: n keep n')
  case Nil
  then have n': "n' = setv (\<lambda>_. []) n" "keep = (childMap n' \<noteq> [])" by (auto simp: clear_def)
  have "val n' ys = (if ys = [] then [] else val n ys)" for ys by (cases ys) (simp_all add: n' setv_def)
  with n' show ?case by (simp add: setv_def)
next
  case (Cons x xs)
  show ?case
  proof (cases "map_of (childMap n) x")
    case None
    with Cons.prems have e: "n' = n" "keep = node_in_use n" by auto
    have "val n (x # xs) = []" using None by simp
    with e show ?thesis by (cases n) (auto simp: node_in_use_def)
  next
    case (Some c)
    obtain kc c' where c: "remv xs (\<lambda>n. case clear n of (b, n') \<Rightarrow> (b \<or> childMap n' \<noteq> [], n')) c = (kc, c')"
      by (cases "remv xs (\<lambda>n. case clear n of (b, n') \<Rightarrow> (b \<or> childMap n' \<noteq> [], n')) c")
    note IH = Cons.IH [OF c]
    have e: "n' = ChildNode (node_value n) (if kc then map_put x c' (childMap n) else map_erase x (childMap n))"
      "keep = node_in_use n'" using Cons.prems Some c by (auto simp: Let_def)
    have child: "slot (map_of (childMap n') y) = (if y = x then c' else slot (map_of (childMap n) y))" for y
      using e IH by (auto split: if_splits)
    have "val n' ys = (if ys = x # xs then [] else val n ys)" for ys
    proof (cases ys)
      case Nil
      then show ?thesis using e by simp
    next
      case (Cons y zs)
      then show ?thesis using IH Some by (simp add: child)
    qed
    moreover have "\<not> keep \<longrightarrow> n' = ChildNode [] []" using e(2) by (cases n') (auto simp: node_in_use_def)
    ultimately show ?thesis by blast
  qed
qed

section \<open>The interface of a map\<close>

text \<open>What a client of the map relies on: writing and removing change one path.\<close>

locale value_map =
  fixes get :: "'m \<Rightarrow> 'k \<Rightarrow> 'v" and put :: "'k \<Rightarrow> 'v \<Rightarrow> 'm \<Rightarrow> 'm" and del :: "'k \<Rightarrow> 'm \<Rightarrow> 'm" and none :: 'v
  assumes get_put: "get (put k v m) k' = (if k' = k then v else get m k')"
    and get_del: "get (del k m) k' = (if k' = k then none else get m k')"
begin

lemma put_commute: "k \<noteq> k' \<Longrightarrow> get (put k v (put k' w m)) = get (put k' w (put k v m))"
  by (rule ext) (simp add: get_put)

lemma del_put: "get (del k (put k v m)) = get (del k m)"
  by (rule ext) (simp add: get_put get_del)

lemma fold_put_in: "distinct ks \<Longrightarrow> k \<in> set ks \<Longrightarrow> get (fold (\<lambda>k. put k (f k)) ks m) k = f k"
proof (induction ks arbitrary: m)
  case (Cons j js)
  have "k \<notin> set js \<Longrightarrow> get (fold (\<lambda>k. put k (f k)) js m) k = get m k" for m
    by (induction js arbitrary: m) (simp_all add: get_put)
  with Cons show ?case by (cases "k = j") (simp_all add: get_put)
qed simp

end

definition put_wanted :: "SingleDerivedPath \<Rightarrow> string list \<Rightarrow> DerivedPathMap \<Rightarrow> DerivedPathMap" where
  "put_wanted k v m = modifySlot k (setv (\<lambda>_. v)) m"

interpretation dpm: value_map wanted put_wanted "\<lambda>k. removeSlot k clear" "[]"
proof
  fix k k' :: SingleDerivedPath and v m
  have r: "route k' = route k \<and> getBaseStorePath k' = getBaseStorePath k \<longleftrightarrow> k' = k" using route_inj by blast
  show "wanted (put_wanted k v m) k' = (if k' = k then v else wanted m k')"
    using r by (auto simp: put_wanted_def wanted_route modifySlot_route val_upd)
  show "wanted (removeSlot k clear m) k' = (if k' = k then [] else wanted m k')"
  proof (cases "map_of m (getBaseStorePath k)")
    case None
    then show ?thesis by (simp add: removeSlot_def removeIter_route wanted_route)
  next
    case (Some n)
    obtain keep n' where rm: "remv (route k) (\<lambda>n. case clear n of (b, n') \<Rightarrow> (b \<or> childMap n' \<noteq> [], n')) n = (keep, n')"
      by (cases "remv (route k) (\<lambda>n. case clear n of (b, n') \<Rightarrow> (b \<or> childMap n' \<noteq> [], n')) n")
    have m': "removeSlot k clear m = (if keep then map_put (getBaseStorePath k) n' m else map_erase (getBaseStorePath k) m)"
      unfolding removeSlot_def removeIter_route Some by (simp add: rm)
    have "slot (map_of (removeSlot k clear m) p) = (if p = getBaseStorePath k then n' else slot (map_of m p))" for p
      using val_remv [OF rm] by (auto simp: m')
    then show ?thesis using val_remv [OF rm] Some r by (auto simp: wanted_route)
  qed
qed

text \<open>Removing leaves no useless nodes behind.\<close>

fun trimmed :: "ChildNode \<Rightarrow> bool" where
  "trimmed (ChildNode v m) = ((v \<noteq> [] \<or> m \<noteq> []) \<and> (\<forall>e \<in> set m. trimmed (snd e)))"

lemma all_map_put: "\<forall>e \<in> set m. P (snd e) \<Longrightarrow> P v \<Longrightarrow> \<forall>e \<in> set (map_put k v m). P (snd e)"
  by (induction k v m rule: map_put.induct) (auto split: if_splits)

lemma all_map_erase: "\<forall>e \<in> set m. P (snd e) \<Longrightarrow> \<forall>e \<in> set (map_erase k m). P (snd e)"
  by (induction k m rule: map_erase.induct) auto

lemma trimmed_remv:
  assumes "remv xs (\<lambda>n. case clear n of (b, n') \<Rightarrow> (b \<or> childMap n' \<noteq> [], n')) n = (keep, n')" "trimmed n" "keep"
  shows "trimmed n'"
  using assms
proof (induction xs arbitrary: n keep n')
  case Nil
  then show ?case by (cases n) (auto simp: clear_def setv_def)
next
  case (Cons x xs)
  show ?case
  proof (cases "map_of (childMap n) x")
    case None
    with Cons.prems show ?thesis by simp
  next
    case (Some c)
    obtain kc c' where c: "remv xs (\<lambda>n. case clear n of (b, n') \<Rightarrow> (b \<or> childMap n' \<noteq> [], n')) c = (kc, c')"
      by (cases "remv xs (\<lambda>n. case clear n of (b, n') \<Rightarrow> (b \<or> childMap n' \<noteq> [], n')) c")
    have e: "n' = ChildNode (node_value n) (if kc then map_put x c' (childMap n) else map_erase x (childMap n))"
      "keep = node_in_use n'" using Cons.prems Some c by (auto simp: Let_def)
    obtain v cm where n: "n = ChildNode v cm" by (cases n)
    have "trimmed c" using Some Cons.prems(2) n by (auto dest!: map_of_SomeD)
    then have "kc \<Longrightarrow> trimmed c'" using Cons.IH [OF c] by blast
    then have "\<forall>e \<in> set (childMap n'). trimmed (snd e)"
      using Cons.prems(2) n e(1) all_map_put [of cm trimmed c' x] all_map_erase [of cm trimmed x] by (auto split: if_splits)
    with e(2) Cons.prems(3) show ?thesis by (cases n') (simp add: node_in_use_def)
  qed
qed

theorem trimmed_remove:
  assumes "\<forall>e \<in> set m. trimmed (snd e)"
  shows "\<forall>e \<in> set (removeSlot k clear m). trimmed (snd e)"
proof (cases "map_of m (getBaseStorePath k)")
  case None
  with assms show ?thesis by (simp add: removeSlot_def removeIter_route)
next
  case (Some n)
  obtain keep n' where rm: "remv (route k) (\<lambda>n. case clear n of (b, n') \<Rightarrow> (b \<or> childMap n' \<noteq> [], n')) n = (keep, n')"
    by (cases "remv (route k) (\<lambda>n. case clear n of (b, n') \<Rightarrow> (b \<or> childMap n' \<noteq> [], n')) n")
  have "trimmed n" using Some assms by (auto dest!: map_of_SomeD)
  then have "keep \<Longrightarrow> trimmed n'" using trimmed_remv [OF rm] by blast
  moreover have "removeSlot k clear m = (if keep then map_put (getBaseStorePath k) n' m else map_erase (getBaseStorePath k) m)"
    unfolding removeSlot_def removeIter_route Some by (simp add: rm)
  ultimately show ?thesis
    using assms all_map_put [of m trimmed n' "getBaseStorePath k"] all_map_erase [of m trimmed "getBaseStorePath k"] by (auto split: if_splits)
qed

lemma spec_union_set: "{n. spec_contains (spec_union a b) n} = {n. spec_contains a n} \<union> {n. spec_contains b n}"
  by (cases a; cases b) (auto simp: spec_contains_def spec_union_def)

lemma spec_subset_set: "isSubsetOf a b = ({n. spec_contains a n} \<subseteq> {n. spec_contains b n})"
proof (cases a; cases b)
  fix ns assume "a = All" "b = Names ns"
  moreover have "\<exists>n. n \<notin> set ns" using ex_new_if_finite [OF infinite_UNIV_listI, of "set ns"] by simp
  ultimately show ?thesis by (auto simp: isSubsetOf_def spec_contains_def)
qed (auto simp: isSubsetOf_def spec_contains_def fold_all)

section \<open>Properties\<close>

definition example_path :: StorePath where
  "example_path = StorePath (replicate 32 (CHR ''a'') @ ''-x.drv'')"

lemma example_path_wf: "path_wf example_path"
  unfolding path_wf_def example_path_def
  by (intro exI [of _ "replicate 32 (CHR ''a'')"] exI [of _ "''x.drv''"])
    (simp add: HashLen_def MaxPathLen_def bad_hash_char_def name_regex_def name_char_def less_eq_char_def list_ex_iff)

lemma example_sdp_ok: "sdp_ok (example_config\<lparr>sd_xp := [DynamicDerivations]\<rparr>) (SBuilt (SBuilt (SOpaque example_path) ''out'') ''dev'')"
proof -
  have "dir_ok (sd_dir example_config)" using example_ok by (simp add: derivation_ok_def)
  moreover have "CHR ''^'' \<notin> set (sd_dir example_config)" "CHR ''!'' \<notin> set (sd_dir example_config)"
    by (simp_all add: example_config_def rend_root_def rend_def)
  ultimately show ?thesis using example_path_wf by (simp add: isEnabled_def)
qed

text \<open>C38: union and inclusion of output specifications are union and inclusion of the sets of output
  names they contain, the specification of all outputs included.\<close>

theorem outputs_spec_sets:
  "{n. spec_contains (spec_union a b) n} = {n. spec_contains a n} \<union> {n. spec_contains b n} \<and>
   isSubsetOf a b = ({n. spec_contains a n} \<subseteq> {n. spec_contains b n})"
  using spec_union_set spec_subset_set by blast

text \<open>C30: deriving paths, nested ones and those with several outputs or all outputs included, print to
  texts that parse back to them.\<close>

theorem derived_path_roundtrip:
  assumes "sdp_ok sd k" "dp_ok sd p"
  shows "sdp_parse sd (sdp_to_string sd k) = Some (Inr k) \<and> dp_parse sd (dp_to_string sd p) = Some (Inr p)"
  using sdp_round [OF assms(1)] dp_round [OF assms(2)] by blast

theorem derived_path_roundtrip_witness:
  "let sd = example_config\<lparr>sd_xp := [DynamicDerivations]\<rparr>; k = SBuilt (SBuilt (SOpaque example_path) ''out'') ''dev''; p = Built k (Names [''a'', ''b''])
   in sdp_parse sd (sdp_to_string sd k) = Some (Inr k) \<and> dp_parse sd (dp_to_string sd p) = Some (Inr p)"
proof -
  have "spec_ok (Names [''a'', ''b''])"
    by (simp add: spec_ok_def checkName_iff name_regex_def name_char_def less_eq_char_def MaxPathLen_def less_char_def numeral_2_eq_2)
  then have "dp_ok (example_config\<lparr>sd_xp := [DynamicDerivations]\<rparr>) (Built (SBuilt (SBuilt (SOpaque example_path) ''out'') ''dev'') (Names [''a'', ''b'']))"
    using example_sdp_ok by (simp add: isEnabled_def)
  from derived_path_roundtrip [OF example_sdp_ok this] show ?thesis unfolding Let_def .
qed

text \<open>C39: the legacy syntax (\<open>!\<close>) of a nested path mixes both separators, because the printer of the
  inner path is not the legacy one, and never parses.\<close>

theorem legacy_nested_unparsable:
  assumes "sdp_ok sd (SBuilt (SBuilt (SOpaque p) a) b)"
  shows "\<exists>e. sdp_parseLegacy sd (sdp_to_string_legacy sd (SBuilt (SBuilt (SOpaque p) a) b)) = Some (Inl e)"
  using assms by (rule legacy_nested)

theorem legacy_nested_unparsable_witness:
  "\<exists>e. sdp_parseLegacy (example_config\<lparr>sd_xp := [DynamicDerivations]\<rparr>)
     (sdp_to_string_legacy (example_config\<lparr>sd_xp := [DynamicDerivations]\<rparr>) (SBuilt (SBuilt (SOpaque example_path) ''out'') ''dev'')) = Some (Inl e)"
  by (rule legacy_nested_unparsable [OF example_sdp_ok])

text \<open>C16: a map of deriving paths behaves as a function from deriving paths to sets of outputs: writing
  through \<open>ensureSlot\<close> and removing with \<open>removeSlot\<close> change the entry of that path and of no other, also
  when one path is a prefix of the other, and removing leaves no empty nodes.\<close>

theorem derived_path_map_entries:
  assumes "\<forall>e \<in> set m. trimmed (snd e)"
  shows "wanted (put_wanted k v m) k' = (if k' = k then v else wanted m k') \<and>
    wanted (removeSlot k clear m) k' = (if k' = k then [] else wanted m k') \<and>
    (\<forall>e \<in> set (removeSlot k clear m). trimmed (snd e))"
  using trimmed_remove [OF assms] dpm.get_put dpm.get_del by blast

theorem derived_path_map_entries_witness:
  "wanted (removeSlot (SBuilt (SOpaque example_path) ''out'') clear
     [(example_path, ChildNode [''a''] [(''out'', ChildNode [''b''] [])])]) (SOpaque example_path) = [''a'']"
proof -
  have "\<forall>e \<in> set [(example_path, ChildNode [''a''] [(''out'', ChildNode [''b''] [])])]. trimmed (snd e)" by simp
  from derived_path_map_entries [OF this, of "SOpaque example_path" "[]" "SOpaque example_path"]
    derived_path_map_entries [OF this, of "SBuilt (SOpaque example_path) ''out''" "[]" "SOpaque example_path"]
  show ?thesis by (simp add: wanted_def)
qed

end
