(* ===== verification/Wire.thy ===== *)
theory Wire
  imports Serialise Derivation_ATerm
begin

text \<open>
  The building blocks of the store protocols: \<open>src/src/libstore/common-protocol.cc\<close>,
  \<open>length-prefixed-protocol-helper.hh\<close> and the signatures of
  \<open>src/src/libutil/signature/local-keys.cc\<close>.

  A writer is a text or an exception (what was sent before the exception is not kept); a reader is a
  \<open>'a stream\<close>. \<open>sends w d x\<close> says that the writer \<open>w\<close> succeeds and that the reader \<open>d\<close> gets \<open>x\<close> from
  what was written and leaves what follows; its introduction rules are the collection
  \<open>sends_intros\<close>, which follow the structure of a serialiser and its parser.
\<close>

section \<open>Writers\<close>

fun seqW :: "string res list \<Rightarrow> string res" where
  "seqW [] = Inr []"
| "seqW (w # ws) = bind_res w (\<lambda>a. bind_res (seqW ws) (\<lambda>b. Inr (a @ b)))"

definition getP :: "'a parser \<Rightarrow> 'a stream" where "getP p s = Some (p s)"

text \<open>\<open>readNum<T>\<close> followed by a \<open>switch\<close> on the value.\<close>

definition getNum :: "u64 \<Rightarrow> u64 stream" where "getNum tmax = getP (readNum tmax)"

definition getStr :: "string stream" where "getStr = getP (readString no_max)"

definition putNum :: "u64 \<Rightarrow> string res" where "putNum n = Inr (writeNum n)"

definition putStr :: "string \<Rightarrow> string res" where "putStr s = Inr (writeString s)"

definition putBool :: "bool \<Rightarrow> string res" where "putBool b = putNum (if b then 1 else 0)"

definition getBool :: "bool stream" where "getBool = getP readBool"

definition throwP :: "err_class \<Rightarrow> string \<Rightarrow> 'a stream" where
  "throwP c m s = Some (Inl (NixError c m))"

section \<open>Length-prefixed containers\<close>

fun readN :: "'a stream \<Rightarrow> ('a \<Rightarrow> 'b \<Rightarrow> 'b) \<Rightarrow> nat \<Rightarrow> 'b \<Rightarrow> 'b stream" where
  "readN d add 0 acc = retP acc"
| "readN d add (Suc n) acc = bindP d (\<lambda>x. readN d add n (add x acc))"

definition read_vector :: "'a stream \<Rightarrow> 'a list stream" where
  "read_vector d = bindP (getNum size_max) (\<lambda>n. readN d (\<lambda>x xs. xs @ [x]) (unat n) [])"

definition write_vector :: "('a \<Rightarrow> string res) \<Rightarrow> 'a list \<Rightarrow> string res" where
  "write_vector e resSet = seqW (putNum (of_nat (length resSet)) # map e resSet)"

definition read_set :: "'a :: linorder stream \<Rightarrow> 'a list stream" where
  "read_set d = bindP (getNum size_max) (\<lambda>n. readN d set_put (unat n) [])"

definition write_set :: "('a \<Rightarrow> string res) \<Rightarrow> 'a list \<Rightarrow> string res" where
  "write_set e resSet = seqW (putNum (of_nat (length resSet)) # map e resSet)"

definition read_pair :: "'a stream \<Rightarrow> 'b stream \<Rightarrow> ('a \<times> 'b) stream" where
  "read_pair dk dv = bindP dk (\<lambda>k. bindP dv (\<lambda>v. retP (k, v)))"

definition write_pair :: "('a \<Rightarrow> string res) \<Rightarrow> ('b \<Rightarrow> string res) \<Rightarrow> 'a \<times> 'b \<Rightarrow> string res" where
  "write_pair ek ev i = seqW [ek (fst i), ev (snd i)]"

definition read_map :: "'k :: linorder stream \<Rightarrow> 'v stream \<Rightarrow> ('k \<times> 'v) list stream" where
  "read_map dk dv =
     bindP (getNum size_max) (\<lambda>n. readN (read_pair dk dv) (\<lambda>(k, v). map_put k v) (unat n) [])"

definition write_map :: "('k \<Rightarrow> string res) \<Rightarrow> ('v \<Rightarrow> string res) \<Rightarrow> ('k \<times> 'v) list \<Rightarrow> string res" where
  "write_map ek ev resMap = seqW (putNum (of_nat (length resMap)) # map (write_pair ek ev) resMap)"

section \<open>Signatures\<close>

datatype Signature = Signature (keyName: string) (sig_bytes: string)

instantiation Signature :: linorder
begin

definition less_eq_Signature :: "Signature \<Rightarrow> Signature \<Rightarrow> bool" where
  "less_eq_Signature a b = (keyName a < keyName b \<or> keyName a = keyName b \<and> sig_bytes a \<le> sig_bytes b)"

definition less_Signature :: "Signature \<Rightarrow> Signature \<Rightarrow> bool" where
  "less_Signature a b = (keyName a < keyName b \<or> keyName a = keyName b \<and> sig_bytes a < sig_bytes b)"

instance
  by standard (auto simp: less_eq_Signature_def less_Signature_def Signature.expand)

end

definition parseColonBase64 :: "string \<Rightarrow> (string \<times> string) res" where
  "parseColonBase64 s =
     (let colon = length (takeWhile (\<lambda>c. c \<noteq> CHR '':'') s)
      in if colon = length s \<or> colon = 0 then Inl (NixError FormatError ''%s is corrupt'')
         else
           bind_res (base64_decode (drop (colon + 1) s)) (\<lambda>d.
           bind_res (throw_if (take colon s = [] \<or> d = []) FormatError ''%s is corrupt'') (\<lambda>_.
             Inr (take colon s, d))))"

definition serializeColonBase64 :: "string \<Rightarrow> string \<Rightarrow> string" where
  "serializeColonBase64 name d = name @ '':'' @ base64_encode (bytes_of_string d)"

definition signature_parse :: "string \<Rightarrow> Signature res" where
  "signature_parse s = bind_res (parseColonBase64 s) (\<lambda>(n, d). Inr (Signature n d))"

definition signature_to_string :: "Signature \<Rightarrow> string" where
  "signature_to_string sig = serializeColonBase64 (keyName sig) (sig_bytes sig)"

definition signature_parseMany :: "string list \<Rightarrow> Signature list res" where
  "signature_parseMany sigStrs =
     bind_res (map_res signature_parse sigStrs) (\<lambda>parsed. Inr (fold set_put parsed []))"

definition signature_toStrings :: "Signature list \<Rightarrow> string list" where
  "signature_toStrings sigs = map signature_to_string sigs"

section \<open>The protocol-agnostic serialisers\<close>

definition write_string :: "string \<Rightarrow> string res" where "write_string str = putStr str"

definition read_StorePath :: "'j StoreDirConfig \<Rightarrow> StorePath stream" where
  "read_StorePath sd = bindP getStr (\<lambda>s. liftP (parseStorePath (sd_dir sd) s))"

definition write_StorePath :: "'j StoreDirConfig \<Rightarrow> StorePath \<Rightarrow> string res" where
  "write_StorePath sd storePath = putStr (printStorePath (sd_dir sd) storePath)"

definition read_ContentAddress :: "'j StoreDirConfig \<Rightarrow> ContentAddress stream" where
  "read_ContentAddress sd = bindP getStr (\<lambda>s. liftP (Some (ca_parse (sd_xp sd) s)))"

definition write_ContentAddress :: "'j StoreDirConfig \<Rightarrow> ContentAddress \<Rightarrow> string res" where
  "write_ContentAddress sd ca = bind_res (renderContentAddress (sd_xp sd) (Some ca)) putStr"

definition read_opt_StorePath :: "'j StoreDirConfig \<Rightarrow> StorePath option stream" where
  "read_opt_StorePath sd =
     bindP getStr (\<lambda>s. if s = [] then retP None
       else bindP (liftP (parseStorePath (sd_dir sd) s)) (\<lambda>p. retP (Some p)))"

definition write_opt_StorePath :: "'j StoreDirConfig \<Rightarrow> StorePath option \<Rightarrow> string res" where
  "write_opt_StorePath sd storePathOpt =
     putStr (case storePathOpt of Some p \<Rightarrow> printStorePath (sd_dir sd) p | None \<Rightarrow> [])"

definition read_opt_ContentAddress :: "'j StoreDirConfig \<Rightarrow> ContentAddress option stream" where
  "read_opt_ContentAddress sd = bindP getStr (\<lambda>s. liftP (Some (ca_parseOpt (sd_xp sd) s)))"

definition write_opt_ContentAddress :: "'j StoreDirConfig \<Rightarrow> ContentAddress option \<Rightarrow> string res" where
  "write_opt_ContentAddress sd caOpt =
     (case caOpt of
        Some ca \<Rightarrow> bind_res (renderContentAddress (sd_xp sd) (Some ca)) putStr
      | None \<Rightarrow> putStr [])"

definition read_Signature :: "Signature stream" where
  "read_Signature = bindP getStr (\<lambda>s. liftP (Some (signature_parse s)))"

definition write_Signature :: "Signature \<Rightarrow> string res" where
  "write_Signature sig = putStr (signature_to_string sig)"

datatype SuccessStatus = Built_ok | Substituted | AlreadyValid | ResolvesToAlreadyValid

datatype FailureStatus =
    PermanentFailure | InputRejected | OutputRejected | TransientFailure | CachedFailure | TimedOut
  | MiscFailure | DependencyFailed | LogLimitExceeded | NotDeterministic | NoSubstituters | HashMismatch

type_synonym BuildResultStatus = "SuccessStatus + FailureStatus"

definition buildResultStatusTable :: "BuildResultStatus list" where
  "buildResultStatusTable =
     [Inl Built_ok, Inl Substituted, Inl AlreadyValid, Inr PermanentFailure, Inr InputRejected, Inr OutputRejected,
      Inr TransientFailure, Inr CachedFailure, Inr TimedOut, Inr MiscFailure, Inr DependencyFailed,
      Inr LogLimitExceeded, Inr NotDeterministic, Inl ResolvesToAlreadyValid, Inr NoSubstituters]"

definition read_BuildResultStatus :: "BuildResultStatus stream" where
  "read_BuildResultStatus =
     bindP (getNum 255) (\<lambda>rawStatus.
       if unat rawStatus \<ge> length buildResultStatusTable
       then throwP Error ''Invalid BuildResult status %d from remote''
       else retP (buildResultStatusTable ! unat rawStatus))"

fun enumerate_find :: "'a \<Rightarrow> nat \<Rightarrow> 'a list \<Rightarrow> nat option" where
  "enumerate_find x n [] = None"
| "enumerate_find x n (y # ys) = (if y = x then Some n else enumerate_find x (Suc n) ys)"

definition write_BuildResultStatus :: "BuildResultStatus \<Rightarrow> string res" where
  "write_BuildResultStatus status =
     (let st = (if status = Inr HashMismatch then Inr OutputRejected else status)
      in case enumerate_find st 0 buildResultStatusTable of
           Some wire \<Rightarrow> putNum (of_nat wire)
         | None \<Rightarrow> Inl (NixError AssertionFailure ''unreachable''))"

section \<open>What is read is what was written\<close>

definition sends :: "string res \<Rightarrow> 'a stream \<Rightarrow> 'a \<Rightarrow> bool" where
  "sends w d x = (\<exists>b. w = Inr b \<and> (\<forall>s. d (b @ s) = Some (Inr (x, s))))"

definition pred_res :: "('a \<Rightarrow> bool) \<Rightarrow> 'a res \<Rightarrow> bool" where
  "pred_res P r = (case r of Inl e \<Rightarrow> True | Inr x \<Rightarrow> P x)"

named_theorems sends_intros \<open>a writer and its reader, by the structure of both\<close>

lemma sends_done [sends_intros]: "x = y \<Longrightarrow> sends (seqW []) (retP x) y"
  by (simp add: sends_def retP_def seqW.simps)

lemma sends_step [sends_intros]:
  "sends w d x \<Longrightarrow> sends (seqW ws) (f x) y \<Longrightarrow> sends (seqW (w # ws)) (bindP d f) y"
  by (fastforce simp: sends_def bindP_def seqW.simps)

declare seqW.simps [simp del]

lemma sends_nil: "sends (seqW []) (retP x) x"
  by (rule sends_done) (rule refl)

lemma sends_only: "sends w d x \<Longrightarrow> sends (seqW [w]) d x"
  by (auto simp: sends_def seqW.simps)

lemma sends_bind: "sends w d x \<Longrightarrow> f x = retP y \<Longrightarrow> sends w (bindP d f) y"
  by (fastforce simp: sends_def bindP_def retP_def)

lemma sends_lift: "sends w d x \<Longrightarrow> r x = Some (Inr y) \<Longrightarrow> sends w (bindP d (\<lambda>x. liftP (r x))) y"
  by (fastforce simp: sends_def bindP_def liftP_def)

lemma bindP_retP [simp]: "bindP (retP x) f = f x"
  by (rule ext) (simp add: bindP_def retP_def)

lemma bindP_liftP_Inr [simp]: "bindP (liftP (Some (Inr x))) f = f x"
  by (rule ext) (simp add: bindP_def liftP_def)

lemma sends_if:
  "(b \<Longrightarrow> sends w d x) \<Longrightarrow> (\<not> b \<Longrightarrow> sends w' d' x) \<Longrightarrow> sends (if b then w else w') (if b then d else d') x"
  by simp

text \<open>A field that only newer versions of a protocol carry; the reader keeps a default otherwise.\<close>

lemma sends_opt [sends_intros]:
  "(b \<Longrightarrow> sends w d x) \<Longrightarrow> sends (if b then w else seqW []) (if b then d else retP v) (if b then x else v)"
  by (simp add: sends_nil)

lemma sends_num: "n \<le> m \<Longrightarrow> sends (putNum n) (getNum m) n"
  by (simp add: sends_def putNum_def getNum_def getP_def num.dec_enc)

lemma sends_size [sends_intros]: "sends (putNum n) (getNum size_max) n"
  by (rule sends_num) simp

lemma sends_str [sends_intros]: "length s < 2 ^ 64 \<Longrightarrow> sends (putStr s) getStr s"
  by (simp add: sends_def putStr_def getStr_def getP_def str.dec_enc no_max_def)

lemma sends_bool [sends_intros]: "sends (putBool b) getBool b"
  by (simp add: sends_def putBool_def putNum_def getBool_def getP_def readBool_def num.dec_enc)

lemma sends_tag: "n \<le> m \<Longrightarrow> f n = retP x \<Longrightarrow> sends (putNum n) (bindP (getNum m) f) x"
  by (rule sends_bind [OF sends_num])

lemma sends_tagged: "n \<le> m \<Longrightarrow> sends (seqW ws) (f n) x \<Longrightarrow> sends (seqW (putNum n # ws)) (bindP (getNum m) f) x"
  by (rule sends_step [OF sends_num])

lemma bindP_assoc: "bindP m (\<lambda>x. bindP (f x) g) = bindP (bindP m f) g"
proof
  fix s
  show "bindP m (\<lambda>x. bindP (f x) g) s = bindP (bindP m f) g s"
  proof (cases "m s")
    case (Some r)
    then show ?thesis by (cases r) (auto simp: bindP_def)
  qed (simp add: bindP_def)
qed

lemma sends_step_assoc:
  "sends w (bindP d f) x \<Longrightarrow> sends (seqW ws) (g x) y \<Longrightarrow> sends (seqW (w # ws)) (bindP d (\<lambda>x. bindP (f x) g)) y"
  unfolding bindP_assoc by (rule sends_step)

lemma sends_readN:
  assumes "\<And>x. x \<in> set xs \<Longrightarrow> sends (e x) d x"
  shows "sends (seqW (map e xs)) (readN d add (length xs) acc) (fold add xs acc)"
  using assms
proof (induction xs arbitrary: acc)
  case (Cons x xs)
  then show ?case by (simp add: sends_step [of "e x" d x])
qed (simp add: sends_nil)

lemma sends_inj: "sends w d x \<Longrightarrow> sends w d y \<Longrightarrow> x = y"
  by (auto simp: sends_def)

section \<open>The contract of a serialiser\<close>

locale wire_codec =
  fixes enc :: "'a \<Rightarrow> string res" and dec :: "'a stream" and valid :: "'a \<Rightarrow> bool"
  assumes sends_enc: "valid x \<Longrightarrow> sends (enc x) dec x"
begin

lemma sends_vector:
  assumes "length xs < 2 ^ 64" "list_all valid xs"
  shows "sends (write_vector enc xs) (read_vector dec) xs"
proof -
  have "fold (\<lambda>x xs. xs @ [x]) xs acc = acc @ xs" for acc by (induction xs arbitrary: acc) auto
  then show ?thesis
    using sends_readN [of xs enc dec "\<lambda>x xs. xs @ [x]" "[]"] assms
    unfolding write_vector_def read_vector_def
    by (intro sends_step [OF sends_size]) (auto simp: unat_of_nat list_all_iff intro: sends_enc)
qed

text \<open>Different values are written differently, even with arbitrary data after them.\<close>

lemma enc_prefix_free:
  assumes "valid x" "valid y" "enc x = Inr a" "enc y = Inr b" "a @ s = b @ t"
  shows "x = y \<and> s = t"
proof -
  have "dec (a @ s) = Some (Inr (x, s)) \<and> dec (b @ t) = Some (Inr (y, t))"
    using sends_enc [OF assms(1)] sends_enc [OF assms(2)] unfolding sends_def assms(3,4) by blast
  with assms(5) show ?thesis by auto
qed

end

locale wire_set = wire_codec enc dec valid
  for enc :: "'a :: linorder \<Rightarrow> string res" and dec :: "'a stream" and valid :: "'a \<Rightarrow> bool"
begin

lemma sends_set:
  assumes "length xs < 2 ^ 64" "list_all valid xs" "sorted_wrt (<) xs"
  shows "sends (write_set enc xs) (read_set dec) xs"
proof -
  have "fold set_put xs [] = xs" using fold_set_put [of "[]" xs] assms(3) by simp
  then show ?thesis
    using sends_readN [of xs enc dec set_put "[]"] assms
    unfolding write_set_def read_set_def
    by (intro sends_step [OF sends_size]) (auto simp: unat_of_nat list_all_iff intro: sends_enc)
qed

end

locale wire_map = k: wire_codec enck deck validk + v: wire_codec encv decv validv
  for enck :: "'k :: linorder \<Rightarrow> string res" and deck validk and encv :: "'v \<Rightarrow> string res" and decv validv
begin

lemma sends_pair: "validk (fst i) \<Longrightarrow> validv (snd i) \<Longrightarrow> sends (write_pair enck encv i) (read_pair deck decv) i"
  unfolding write_pair_def read_pair_def
  by (intro sends_step [OF k.sends_enc] sends_step [OF v.sends_enc] sends_done) simp_all

lemma sends_map:
  assumes "length m < 2 ^ 64" "list_all (\<lambda>(k, v). validk k \<and> validv v) m" "ordered m"
  shows "sends (write_map enck encv m) (read_map deck decv) m"
proof -
  have "fold (\<lambda>(k, v). map_put k v) m [] = m"
    using fold_map_put [of "[]" m "\<lambda>v. v"] assms(3) by simp
  moreover have "sends (write_pair enck encv i) (read_pair deck decv) i" if "i \<in> set m" for i
    using that assms(2) by (auto simp: list_all_iff intro!: sends_pair)
  ultimately have "sends (seqW (map (write_pair enck encv) m))
      (readN (read_pair deck decv) (\<lambda>(k, v). map_put k v) (length m) []) m"
    using sends_readN [of m "write_pair enck encv" "read_pair deck decv" "\<lambda>(k, v). map_put k v" "[]"] by simp
  then show ?thesis
    unfolding write_map_def read_map_def using assms(1)
    by (intro sends_step [OF sends_size]) (simp add: unat_of_nat)
qed

end

section \<open>The serialisers keep the contract\<close>

text \<open>What can be sent: well-formed values whose texts fit the length prefix.\<close>

definition short :: "string \<Rightarrow> bool" where "short s = (length s < 2 ^ 64)"

definition path_sendable :: "'j StoreDirConfig \<Rightarrow> StorePath \<Rightarrow> bool" where
  "path_sendable sd p = (dir_ok (sd_dir sd) \<and> path_wf p \<and> short (printStorePath (sd_dir sd) p))"

definition paths_sendable :: "'j StoreDirConfig \<Rightarrow> StorePath list \<Rightarrow> bool" where
  "paths_sendable sd ps = (length ps < 2 ^ 64 \<and> list_all (path_sendable sd) ps \<and> sorted_wrt (<) ps)"

definition ca_sendable :: "'j StoreDirConfig \<Rightarrow> ContentAddress \<Rightarrow> bool" where
  "ca_sendable sd ca =
     (hash_wf (ca_hash ca) \<and> algo_enabled (sd_xp sd) (algo (ca_hash ca)) \<and> method_enabled (sd_xp sd) (ca_method ca) \<and>
      pred_res short (ca_render (sd_xp sd) ca))"

definition sig_sendable :: "Signature \<Rightarrow> bool" where
  "sig_sendable sig =
     (keyName sig \<noteq> [] \<and> CHR '':'' \<notin> set (keyName sig) \<and> sig_bytes sig \<noteq> [] \<and> short (signature_to_string sig))"

definition sigs_sendable :: "Signature list \<Rightarrow> bool" where
  "sigs_sendable sigs = (length sigs < 2 ^ 64 \<and> list_all sig_sendable sigs \<and> sorted_wrt (<) sigs)"

definition opt_all :: "('a \<Rightarrow> bool) \<Rightarrow> 'a option \<Rightarrow> bool" where
  "opt_all P x = (case x of None \<Rightarrow> True | Some y \<Rightarrow> P y)"

lemma opt_all_simps [simp]: "opt_all P None" "opt_all P (Some x) = P x"
  by (simp_all add: opt_all_def)

lemma sends_putStr: "short s \<Longrightarrow> sends (putStr s) getStr s"
  unfolding short_def by (rule sends_str)

lemma signature_round:
  assumes "sig_sendable sig"
  shows "signature_parse (signature_to_string sig) = Inr sig"
proof -
  let ?n = "keyName sig" and ?b = "base64_encode (bytes_of_string (sig_bytes sig))"
  have n: "?n \<noteq> []" "CHR '':'' \<notin> set ?n" using assms by (simp_all add: sig_sendable_def)
  have "takeWhile (\<lambda>c. c \<noteq> CHR '':'') (?n @ CHR '':'' # ?b) = ?n"
    using n(2) by (induction "?n") (auto simp: takeWhile_append)
  then show ?thesis
    using n assms
    by (simp add: signature_parse_def parseColonBase64_def signature_to_string_def serializeColonBase64_def Let_def
        base64_roundtrip sig_sendable_def)
qed

lemma signatures_round:
  assumes "sigs_sendable sigs"
  shows "signature_parseMany (signature_toStrings sigs) = Inr sigs"
proof -
  have "map_res signature_parse (map signature_to_string sigs) = Inr sigs"
    using assms unfolding sigs_sendable_def
    by (auto simp: map_res_Inr_iff list_all2_conv_all_nth list_all_length signature_round)
  moreover have "fold set_put sigs [] = sigs"
    using assms fold_set_put [of "[]" sigs] by (simp add: sigs_sendable_def)
  ultimately show ?thesis by (simp add: signature_parseMany_def signature_toStrings_def)
qed

interpretation str_wire: wire_set write_string getStr short
  by unfold_locales (simp add: write_string_def sends_putStr)

interpretation path_wire: wire_set "write_StorePath sd" "read_StorePath sd" "path_sendable sd" for sd
  by unfold_locales
    (auto simp: write_StorePath_def read_StorePath_def path_sendable_def intro!: sends_lift sends_putStr parse_print_path)

interpretation opt_path_wire: wire_codec "write_opt_StorePath sd" "read_opt_StorePath sd" "opt_all (path_sendable sd)" for sd
proof
  fix x :: "StorePath option" assume x: "opt_all (path_sendable sd) x"
  show "sends (write_opt_StorePath sd x) (read_opt_StorePath sd) x"
  proof (cases x)
    case None
    show ?thesis unfolding None write_opt_StorePath_def read_opt_StorePath_def option.case
      by (rule sends_bind [OF sends_putStr]) (simp_all add: short_def)
  next
    case (Some p)
    have p: "short (printStorePath (sd_dir sd) p)" "parseStorePath (sd_dir sd) (printStorePath (sd_dir sd) p) = Some (Inr p)"
      "printStorePath (sd_dir sd) p \<noteq> []"
      using x by (simp_all add: Some path_sendable_def parse_print_path) (simp add: printStorePath_def)
    show ?thesis unfolding Some write_opt_StorePath_def read_opt_StorePath_def option.case
      by (rule sends_bind [OF sends_putStr [OF p(1)]]) (simp add: p)
  qed
qed

lemma ca_text:
  assumes "ca_sendable sd ca"
  obtains s where "ca_render (sd_xp sd) ca = Inr s" "short s" "ca_parse (sd_xp sd) s = Inr ca" "s \<noteq> []"
proof -
  obtain s where s: "ca_render (sd_xp sd) ca = Inr s" "ca_parse (sd_xp sd) s = Inr ca"
    using ca_parse_render [of ca "sd_xp sd"] assms by (auto simp: ca_sendable_def)
  moreover have "short s" using assms s(1) by (simp add: ca_sendable_def pred_res_def)
  moreover have "s \<noteq> []"
    using s(2) by (auto simp: ca_parse_def parseContentAddressMethodPrefix_def splitPrefixTo.simps res_simps)
  ultimately show thesis using that by blast
qed

interpretation ca_wire: wire_codec "write_ContentAddress sd" "read_ContentAddress sd" "ca_sendable sd" for sd
proof
  fix ca assume "ca_sendable sd ca"
  then obtain s where s: "ca_render (sd_xp sd) ca = Inr s" "short s" "ca_parse (sd_xp sd) s = Inr ca" "s \<noteq> []"
    by (rule ca_text)
  then show "sends (write_ContentAddress sd ca) (read_ContentAddress sd) ca"
    by (auto simp: write_ContentAddress_def read_ContentAddress_def renderContentAddress_def intro!: sends_lift sends_putStr)
qed

interpretation opt_ca_wire: wire_codec "write_opt_ContentAddress sd" "read_opt_ContentAddress sd" "opt_all (ca_sendable sd)" for sd
proof
  fix x assume x: "opt_all (ca_sendable sd) x"
  show "sends (write_opt_ContentAddress sd x) (read_opt_ContentAddress sd) x"
  proof (cases x)
    case None
    show ?thesis unfolding None write_opt_ContentAddress_def read_opt_ContentAddress_def option.case
      by (rule sends_lift [OF sends_putStr]) (simp_all add: short_def ca_parseOpt_def)
  next
    case (Some ca)
    with x have "ca_sendable sd ca" by simp
    then obtain s where s: "ca_render (sd_xp sd) ca = Inr s" "short s" "ca_parse (sd_xp sd) s = Inr ca" "s \<noteq> []"
      by (rule ca_text)
    then show ?thesis unfolding Some
      by (auto simp: write_opt_ContentAddress_def read_opt_ContentAddress_def renderContentAddress_def ca_parseOpt_def
          intro!: sends_lift sends_putStr)
  qed
qed

interpretation sig_wire: wire_set write_Signature read_Signature sig_sendable
  by unfold_locales
    (auto simp: write_Signature_def read_Signature_def signature_round sig_sendable_def [THEN iffD1]
      intro!: sends_lift sends_putStr dest: sig_sendable_def [THEN iffD1])

lemma enumerate_find_mem:
  "x \<in> set ys \<Longrightarrow> \<exists>n. enumerate_find x k ys = Some (k + n) \<and> n < length ys \<and> ys ! n = x"
proof (induction ys arbitrary: k)
  case (Cons y ys)
  show ?case
  proof (cases "y = x")
    case True
    then show ?thesis by (intro exI [of _ 0]) simp
  next
    case False
    with Cons.prems have "x \<in> set ys" by simp
    from Cons.IH [OF this, of "Suc k"] obtain n where
      "enumerate_find x (Suc k) ys = Some (Suc k + n)" "n < length ys" "ys ! n = x" by blast
    with False show ?thesis by (intro exI [of _ "Suc n"]) simp
  qed
qed simp

lemma status_in_table: "st \<noteq> Inr HashMismatch \<Longrightarrow> st \<in> set buildResultStatusTable"
proof (cases st)
  case (Inl a)
  then show ?thesis by (cases a) (simp_all add: buildResultStatusTable_def)
next
  case (Inr b)
  moreover assume "st \<noteq> Inr HashMismatch"
  ultimately show ?thesis by (cases b) (simp_all add: buildResultStatusTable_def)
qed

text \<open>Every status but \<open>HashMismatch\<close>, which arrives as \<open>OutputRejected\<close>.\<close>

lemma sends_status:
  "sends (write_BuildResultStatus st) read_BuildResultStatus (if st = Inr HashMismatch then Inr OutputRejected else st)"
proof -
  define st' where "st' = (if st = Inr HashMismatch then Inr OutputRejected else st)"
  have "st' \<noteq> Inr HashMismatch" by (simp add: st'_def)
  then have "st' \<in> set buildResultStatusTable" by (rule status_in_table)
  from enumerate_find_mem [OF this, of 0] obtain n where
    n: "enumerate_find st' 0 buildResultStatusTable = Some n" "n < length buildResultStatusTable" "buildResultStatusTable ! n = st'"
    by auto
  have len: "length buildResultStatusTable = 15" by (simp add: buildResultStatusTable_def)
  have u: "unat (of_nat n :: u64) = n" using n(2) len by (simp add: unat_of_nat)
  have le: "(of_nat n :: u64) \<le> 255" using n(2) u len by (simp add: word_le_nat_alt)
  have w: "write_BuildResultStatus st = putNum (of_nat n)"
    using n(1) by (simp add: write_BuildResultStatus_def Let_def st'_def)
  have "sends (putNum (of_nat n)) read_BuildResultStatus st'"
    unfolding read_BuildResultStatus_def using n u by (intro sends_bind [OF sends_num [OF le]]) simp
  then show ?thesis unfolding w st'_def .
qed

interpretation status_wire: wire_codec write_BuildResultStatus read_BuildResultStatus "\<lambda>st. st \<noteq> Inr HashMismatch"
proof
  fix st :: BuildResultStatus assume "st \<noteq> Inr HashMismatch"
  with sends_status [of st] show "sends (write_BuildResultStatus st) read_BuildResultStatus st" by (simp only: if_False)
qed

end
