(* ===== verification/Derivation_Wire.thy ===== *)
theory Derivation_Wire
  imports Wire
begin

text \<open>
  Derivations on the wire: \<open>readDerivation\<close> and \<open>writeDerivation\<close> of \<open>src/src/libstore/derivations.cc\<close>.
\<close>

section \<open>The serialiser\<close>

definition write_output :: "'j StoreDirConfig \<Rightarrow> string \<Rightarrow> string \<times> DerivationOutput \<Rightarrow> string res" where
  "write_output sd drvName i =
     bind_res (output_fields sd False drvName (fst i) (snd i)) (\<lambda>(pathS, ma, h).
       seqW [putStr (fst i), putStr pathS, putStr ma, putStr h])"

definition writeEnv :: "(string \<times> string) list \<Rightarrow> string res" where
  "writeEnv atermEnv = seqW (putNum (of_nat (length atermEnv)) # map (write_pair putStr putStr) atermEnv)"

definition writeDerivation :: "'j StoreDirConfig \<Rightarrow> ('j, 'm) BasicDerivation_scheme \<Rightarrow> string res" where
  "writeDerivation sd drv =
     seqW
       [seqW (putNum (of_nat (length (outputs drv))) # map (write_output sd (drv_name drv)) (outputs drv)),
        write_set (write_StorePath sd) (inputSrcs drv),
        putStr (platform drv), putStr (builder drv), Inr (writeStrings (drv_args drv)),
        bind_res (checkKeyNotInUse (drv_env drv)) (\<lambda>_.
          case structuredAttrs drv of
            Some j \<Rightarrow> writeEnv (fst (map_emplace (fst (sa_unparse sd j)) (snd (sa_unparse sd j)) (drv_env drv)))
          | None \<Rightarrow> writeEnv (drv_env drv))]"

section \<open>The parser\<close>

definition readDerivationOutput :: "'j StoreDirConfig \<Rightarrow> DerivationOutput stream" where
  "readDerivationOutput sd =
     bindP getStr (\<lambda>pathS. bindP getStr (\<lambda>hashAlgo. bindP getStr (\<lambda>h.
       liftP (parseDerivationOutput_fields sd pathS hashAlgo h))))"

definition readDerivation :: "'j StoreDirConfig \<Rightarrow> string \<Rightarrow> 'j BasicDerivation stream" where
  "readDerivation sd name =
     bindP (bindP (getNum size_max) (\<lambda>nr.
       readN (read_pair getStr (readDerivationOutput sd)) (\<lambda>(n, out) m. fst (map_emplace n out m)) (unat nr) [])) (\<lambda>outs.
     bindP (read_set (read_StorePath sd)) (\<lambda>srcs.
     bindP getStr (\<lambda>plat. bindP getStr (\<lambda>bld. bindP (getP readStrings) (\<lambda>args.
     bindP (bindP (bindP (getNum size_max) (\<lambda>nr. readN (read_pair getStr getStr) (\<lambda>(k, v). map_put k v) (unat nr) []))
              (\<lambda>env. liftP (Some (tryExtract sd env)))) (\<lambda>(sa, env).
       retP \<lparr>outputs = outs, inputSrcs = srcs, platform = plat, builder = bld, drv_args = args,
             drv_env = env, structuredAttrs = sa, drv_name = name\<rparr>))))))"

section \<open>Round trip\<close>

definition fields_short :: "'j StoreDirConfig \<Rightarrow> string \<Rightarrow> string \<times> DerivationOutput \<Rightarrow> bool" where
  "fields_short sd drvName i =
     (short (fst i) \<and> pred_res (\<lambda>(p, m, h). short p \<and> short m \<and> short h) (output_fields sd False drvName (fst i) (snd i)))"

definition env_short :: "(string \<times> string) list \<Rightarrow> bool" where
  "env_short env = (length env < 2 ^ 64 \<and> list_all (\<lambda>(k, v). short k \<and> short v) env)"

definition basic_sendable :: "'j StoreDirConfig \<Rightarrow> ('j, 'm) BasicDerivation_scheme \<Rightarrow> bool" where
  "basic_sendable sd drv =
     (dir_ok (sd_dir sd) \<and> ordered (outputs drv) \<and> length (outputs drv) < 2 ^ 64 \<and>
      list_all (\<lambda>i. output_ok sd (drv_name drv) (fst i) (snd i) \<and> fields_short sd (drv_name drv) i) (outputs drv) \<and>
      paths_sendable sd (inputSrcs drv) \<and> short (platform drv) \<and> short (builder drv) \<and>
      length (drv_args drv) < 2 ^ 64 \<and> list_all short (drv_args drv) \<and>
      ordered (drv_env drv) \<and> env_short (drv_env drv) \<and> map_of (drv_env drv) envVarName = None \<and>
      opt_all (\<lambda>j. sa_parse sd (sd_json_dump sd j) = Inr j \<and> env_short (map_put envVarName (sd_json_dump sd j) (drv_env drv)))
        (structuredAttrs drv))"

lemma sends_output:
  assumes "dir_ok (sd_dir sd)" "output_ok sd n (fst i) (snd i)" "fields_short sd n i"
  shows "sends (write_output sd n i) (read_pair getStr (readDerivationOutput sd)) i"
proof -
  obtain pathS ma h where f: "output_fields sd False n (fst i) (snd i) = Inr (pathS, ma, h)"
    "parseDerivationOutput_fields sd pathS ma h = Some (Inr (snd i))"
    using output_fields_parse [OF assms(1,2)] by blast
  have s: "short (fst i)" "short pathS" "short ma" "short h" using assms(3) f(1) by (simp_all add: fields_short_def pred_res_def)
  have w: "write_output sd n i = seqW [putStr (fst i), putStr pathS, putStr ma, putStr h]"
    by (simp add: write_output_def f(1))
  have "sends (seqW [putStr pathS, putStr ma, putStr h]) (readDerivationOutput sd) (snd i)"
    unfolding readDerivationOutput_def using s
    by (intro sends_step [OF sends_putStr] sends_only sends_lift [OF sends_putStr] f(2))
  then show ?thesis
    using s(1) unfolding w read_pair_def sends_def
    by (auto simp: seqW.simps putStr_def getStr_def bindP_def getP_def str.dec_enc short_def no_max_def retP_def res_simps)
qed

lemma fold_emplace_pairs:
  "ordered (m @ es) \<Longrightarrow> fold (\<lambda>(k, v) m. fst (map_emplace k v m)) es m = m @ es"
proof (induction es arbitrary: m)
  case (Cons e es)
  obtain k v where e: "e = (k, v)" by (cases e)
  have lt: "\<forall>k' \<in> fst ` set m. k' < k" using Cons.prems by (auto simp: e ordered_def sorted_wrt_append)
  then have "map_of m k = None" by (auto simp: map_of_eq_None_iff)
  then have "fst (map_emplace k v m) = m @ [e]" using lt by (simp add: map_emplace_def map_put_last e)
  with Cons.IH [of "m @ [e]"] Cons.prems e show ?case by simp
qed simp

lemma sends_env:
  assumes "ordered env" "env_short env"
  shows "sends (writeEnv env) (bindP (getNum size_max) (\<lambda>nr. readN (read_pair getStr getStr) (\<lambda>(k, v). map_put k v) (unat nr) [])) env"
proof -
  have p: "sends (write_pair putStr putStr i) (read_pair getStr getStr) i" if "i \<in> set env" for i
    using that assms(2) unfolding write_pair_def read_pair_def
    by (intro sends_step [OF sends_putStr] sends_done) (auto simp: env_short_def list_all_iff)
  have "fold (\<lambda>(k, v). map_put k v) env [] = env"
    using fold_map_put [of "[]" env "\<lambda>v. v"] assms(1) by simp
  with sends_readN [of env "write_pair putStr putStr" "read_pair getStr getStr" "\<lambda>(k, v). map_put k v" "[]"] p
  have "sends (seqW (map (write_pair putStr putStr) env)) (readN (read_pair getStr getStr) (\<lambda>(k, v). map_put k v) (length env) []) env"
    by simp
  then show ?thesis unfolding writeEnv_def using assms(2)
    by (intro sends_step [OF sends_size]) (simp add: unat_of_nat env_short_def)
qed

lemma map_erase_put: "ordered m \<Longrightarrow> map_of m k = None \<Longrightarrow> map_erase k (map_put k v m) = m"
  by (rule ordered_unique) (auto simp: ordered_map_erase)

lemma sends_strings: "length ss < 2 ^ 64 \<Longrightarrow> list_all short ss \<Longrightarrow> sends (Inr (writeStrings ss)) (getP readStrings) ss"
  using strs.dec_enc [of ss] by (simp add: sends_def getP_def short_def [abs_def])

lemma sends_derivation:
  assumes ok: "basic_sendable sd drv"
  shows "sends (writeDerivation sd drv) (readDerivation sd (drv_name drv)) (BasicDerivation.truncate drv)"
proof -
  have d: "dir_ok (sd_dir sd)" and env: "ordered (drv_env drv)" "env_short (drv_env drv)" "map_of (drv_env drv) envVarName = None"
    using ok by (simp_all add: basic_sendable_def)
  have out: "sends (write_output sd (drv_name drv) i) (read_pair getStr (readDerivationOutput sd)) i" if "i \<in> set (outputs drv)" for i
    using that ok by (auto simp: basic_sendable_def list_all_iff intro!: sends_output)
  have "fold (\<lambda>(k, v) m. fst (map_emplace k v m)) (outputs drv) [] = outputs drv"
    using fold_emplace_pairs [of "[]" "outputs drv"] ok by (simp add: basic_sendable_def)
  with sends_readN [of "outputs drv" "write_output sd (drv_name drv)" "read_pair getStr (readDerivationOutput sd)"
      "\<lambda>(k, v) m. fst (map_emplace k v m)" "[]"] out
  have outs: "sends (seqW (putNum (of_nat (length (outputs drv))) # map (write_output sd (drv_name drv)) (outputs drv)))
      (bindP (getNum size_max) (\<lambda>nr. readN (read_pair getStr (readDerivationOutput sd)) (\<lambda>(n, out) m. fst (map_emplace n out m)) (unat nr) []))
      (outputs drv)"
    using ok by (intro sends_step [OF sends_size]) (simp add: unat_of_nat basic_sendable_def)
  let ?rd = "bindP (bindP (getNum size_max) (\<lambda>nr. readN (read_pair getStr getStr) (\<lambda>(k, v). map_put k v) (unat nr) []))
      (\<lambda>env. liftP (Some (tryExtract sd env)))"
  have e: "sends (case structuredAttrs drv of
            Some j \<Rightarrow> writeEnv (fst (map_emplace (fst (sa_unparse sd j)) (snd (sa_unparse sd j)) (drv_env drv)))
          | None \<Rightarrow> writeEnv (drv_env drv)) ?rd (structuredAttrs drv, drv_env drv)"
  proof (cases "structuredAttrs drv")
    case None
    then show ?thesis using env by (simp add: tryExtract_def sends_lift [OF sends_env])
  next
    case (Some j)
    then have j: "sa_parse sd (sd_json_dump sd j) = Inr j" "env_short (map_put envVarName (sd_json_dump sd j) (drv_env drv))"
      using ok by (simp_all add: basic_sendable_def)
    have "tryExtract sd (map_put envVarName (sd_json_dump sd j) (drv_env drv)) = Inr (Some j, drv_env drv)"
      using j(1) env by (simp add: tryExtract_def map_erase_put)
    then show ?thesis using Some env j(2)
      by (simp add: sa_unparse_def map_emplace_def sends_lift [OF sends_env])
  qed
  have c: "checkKeyNotInUse (drv_env drv) = Inr ()" using env by (simp add: checkKeyNotInUse_def)
  show ?thesis
    unfolding writeDerivation_def readDerivation_def c bind_res.simps using ok
    by (intro sends_step [OF outs] sends_step [OF path_wire.sends_set] sends_step [OF sends_putStr] sends_step [OF sends_strings] sends_step [OF e])
      (simp_all add: basic_sendable_def paths_sendable_def BasicDerivation.defs sends_nil)
qed

section \<open>Properties\<close>

lemma example_sendable: "basic_sendable example_config example_drv"
proof -
  have "dir_ok (sd_dir example_config)" using example_ok by (simp add: derivation_ok_def)
  then show ?thesis
    by (simp add: basic_sendable_def example_drv_def output_ok_def fields_short_def short_def pred_res_def output_fields_def
        paths_sendable_def env_short_def envVarName_def)
qed

text \<open>C8: a derivation that is sent over a store protocol arrives unchanged (the input derivations are
  not sent), and the reader leaves what follows it in the stream.\<close>

theorem derivation_wire_roundtrip:
  assumes "basic_sendable sd drv"
  shows "\<exists>w. writeDerivation sd drv = Inr w \<and>
    (\<forall>s. readDerivation sd (drv_name drv) (w @ s) = Some (Inr (BasicDerivation.truncate drv, s)))"
  using sends_derivation [OF assms] unfolding sends_def .

theorem derivation_wire_roundtrip_witness:
  "\<exists>w. writeDerivation example_config example_drv = Inr w \<and>
     readDerivation example_config ''hello'' (w @ ''rest'') = Some (Inr (BasicDerivation.truncate example_drv, ''rest''))"
proof -
  have "drv_name example_drv = ''hello''" by (simp add: example_drv_def)
  with derivation_wire_roundtrip [OF example_sendable] show ?thesis by auto
qed

end
