(* ===== verification/Derivation_Resolve.thy ===== *)
theory Derivation_Resolve
  imports Derived_Path Derivation_Modulo
begin

text \<open>
  Resolving a derivation: \<open>applyRewrites\<close>, \<open>shouldResolve\<close> and \<open>tryResolve\<close> of
  \<open>src/src/libstore/derivations.cc\<close>. The query for the output of an input derivation is an argument
  (\<open>queryResolutionChain\<close>); the pair of the new input sources and the rewritings is the state that
  \<open>tryResolveInput\<close> updates, and \<open>Inr None\<close> is its return value \<open>false\<close>.
\<close>

section \<open>Rewriting\<close>

definition rewriteS :: "(string \<times> string) list \<Rightarrow> string \<Rightarrow> string res option" where
  "rewriteS rs s = map_option Inr (rewriteStrings s rs)"

fun rewrite_all :: "(string \<times> string) list \<Rightarrow> string list \<Rightarrow> string list res option" where
  "rewrite_all rs [] = Some (Inr [])"
| "rewrite_all rs (arg # as) =
     bind_ro (rewriteS rs arg) (\<lambda>a. bind_ro (rewrite_all rs as) (\<lambda>r. Some (Inr (a # r))))"

fun rewrite_env :: "(string \<times> string) list \<Rightarrow> (string \<times> string) list \<Rightarrow> (string \<times> string) list \<Rightarrow> (string \<times> string) list res option" where
  "rewrite_env rs [] newEnv = Some (Inr newEnv)"
| "rewrite_env rs (envVar # vars) newEnv =
     bind_ro (rewriteS rs (fst envVar)) (\<lambda>envName.
     bind_ro (rewriteS rs (snd envVar)) (\<lambda>envValue.
       rewrite_env rs vars (fst (map_emplace envName envValue newEnv))))"

definition applyRewrites ::
    "'j StoreDirConfig \<Rightarrow> (string \<times> string) list \<Rightarrow> ('j, 'm) BasicDerivation_scheme \<Rightarrow> ('j, 'm) BasicDerivation_scheme res option" where
  "applyRewrites sd rs drv =
     (if rs = [] then Some (Inr drv)
      else
        bind_ro (rewriteS rs (builder drv)) (\<lambda>b.
        bind_ro (rewrite_all rs (drv_args drv)) (\<lambda>as.
        bind_ro (rewrite_env rs (drv_env drv) []) (\<lambda>newEnv.
        bind_ro (case structuredAttrs drv of
                   None \<Rightarrow> Some (Inr None)
                 | Some j \<Rightarrow>
                     bind_ro (rewriteS rs (snd (sa_unparse sd j))) (\<lambda>jsonS.
                     bind_ro (Some (sa_parse sd jsonS)) (\<lambda>j'. Some (Inr (Some j'))))) (\<lambda>sa.
          Some (Inr (drv\<lparr>builder := b, drv_args := as, drv_env := newEnv, structuredAttrs := sa\<rparr>)))))))"

section \<open>Resolution\<close>

definition shouldResolve :: "'j StoreDirConfig \<Rightarrow> 'j Derivation \<Rightarrow> bool res" where
  "shouldResolve sd drv =
     (if inputDrvs drv = [] then Inr False
      else
        bind_res (drv_type drv) (\<lambda>drvType.
          let typeNeedsResolve =
                (case drvType of
                   InputAddressedType deferred \<Rightarrow> deferred
                 | ContentAddressedType sandboxed fixed \<Rightarrow> (if fixed then isEnabled (sd_xp sd) CaDerivations else True)
                 | ImpureType \<Rightarrow> True);
              hasDynamicInputs = list_ex (\<lambda>p. childMap (snd p) \<noteq> []) (inputDrvs drv)
          in Inr (typeNeedsResolve \<or> hasDynamicInputs)))"

definition getPlaceholder ::
    "'j StoreDirConfig \<Rightarrow> DownstreamPlaceholder option \<Rightarrow> SingleDerivedPath \<Rightarrow> string \<Rightarrow> DownstreamPlaceholder res" where
  "getPlaceholder sd placeholderOpt drvPath outputName =
     (case placeholderOpt of
        Some placeholder \<Rightarrow> unknownDerivation sd placeholder outputName
      | None \<Rightarrow>
          (case drvPath of
             SOpaque p \<Rightarrow> unknownCaOutput sd p outputName
           | SBuilt d n \<Rightarrow> Inl (NixError AssertionFailure ''assert'')))"

type_synonym resolved = "StorePath list \<times> (string \<times> string) list"

type_synonym resolution_query = "SingleDerivedPath \<Rightarrow> string \<Rightarrow> StorePath option"

definition resolve_output ::
    "'j StoreDirConfig \<Rightarrow> resolution_query \<Rightarrow> DownstreamPlaceholder option \<Rightarrow> SingleDerivedPath \<Rightarrow> string \<Rightarrow> resolved
     \<Rightarrow> resolved option res" where
  "resolve_output sd query placeholderOpt drvPath outputName acc =
     (case query drvPath outputName of
        None \<Rightarrow> Inr None
      | Some actualPath \<Rightarrow>
          bind_res
            (if isEnabled (sd_xp sd) CaDerivations then
               bind_res (getPlaceholder sd placeholderOpt drvPath outputName) (\<lambda>ph.
               bind_res (render ph) (\<lambda>k. Inr (fst (map_emplace k (printStorePath (sd_dir sd) actualPath) (snd acc)))))
             else Inr (snd acc)) (\<lambda>inputRewrites.
          Inr (Some (set_put actualPath (fst acc), inputRewrites))))"

text \<open>A loop whose body may return \<open>false\<close> from the function.\<close>

fun loop_while :: "('a \<Rightarrow> 's \<Rightarrow> 's option res) \<Rightarrow> 'a list \<Rightarrow> 's \<Rightarrow> 's option res" where
  "loop_while f [] s = Inr (Some s)"
| "loop_while f (x # xs) s =
     bind_res (f x s) (\<lambda>r. case r of None \<Rightarrow> Inr None | Some s' \<Rightarrow> loop_while f xs s')"

lemma loop_while_cong [fundef_cong]:
  "xs = ys \<Longrightarrow> s = t \<Longrightarrow> (\<And>x s. x \<in> set ys \<Longrightarrow> f x s = g x s) \<Longrightarrow> loop_while f xs s = loop_while g ys t"
proof (induction xs arbitrary: ys s t)
  case (Cons x xs)
  show ?case unfolding Cons.prems(1)[symmetric] Cons.prems(2)[symmetric] loop_while.simps
  proof (rule bind_res_cong)
    show "f x s = g x s" using Cons.prems by auto
    fix r
    show "(case r of None \<Rightarrow> Inr None | Some s' \<Rightarrow> loop_while f xs s') = (case r of None \<Rightarrow> Inr None | Some s' \<Rightarrow> loop_while g xs s')"
      using Cons.IH [OF refl refl] Cons.prems by (cases r) auto
  qed
qed simp

fun tryResolveInput ::
    "'j StoreDirConfig \<Rightarrow> resolution_query \<Rightarrow> DownstreamPlaceholder option \<Rightarrow> SingleDerivedPath \<Rightarrow> ChildNode \<Rightarrow> resolved
     \<Rightarrow> resolved option res" where
  "tryResolveInput sd query placeholderOpt drvPath (ChildNode outs children) acc =
     bind_res (loop_while (resolve_output sd query placeholderOpt drvPath) outs acc) (\<lambda>r.
       case r of
         None \<Rightarrow> Inr None
       | Some acc1 \<Rightarrow>
           loop_while (\<lambda>c acc.
             bind_res (getPlaceholder sd placeholderOpt drvPath (fst c)) (\<lambda>nextPlaceholder.
               tryResolveInput sd query (Some nextPlaceholder) (SBuilt drvPath (fst c)) (snd c) acc)) children acc1)"

definition resolve_inputs :: "'j StoreDirConfig \<Rightarrow> resolution_query \<Rightarrow> 'j Derivation \<Rightarrow> resolved option res" where
  "resolve_inputs sd query drv =
     loop_while (\<lambda>i. tryResolveInput sd query None (SOpaque (fst i)) (snd i)) (inputDrvs drv) (inputSrcs drv, [])"

definition tryResolve ::
    "nat \<Rightarrow> 'j StoreDirConfig \<Rightarrow> (StorePath \<Rightarrow> 'j Derivation res option) \<Rightarrow> resolution_query \<Rightarrow> 'j Derivation
     \<Rightarrow> ('j BasicDerivation option, DrvHashes) st" where
  "tryResolve fuel sd rd query drv =
     bindS (liftS (resolve_inputs sd query drv)) (\<lambda>r.
       case r of
         None \<Rightarrow> retS None
       | Some (srcs, inputRewrites) \<Rightarrow>
           bindS (liftRo (applyRewrites sd inputRewrites (drv\<lparr>inputSrcs := srcs, inputDrvs := []\<rparr>))) (\<lambda>resolved.
           bindS (fillInOutputPaths fuel sd rd resolved) (\<lambda>resolved2.
             retS (Some (BasicDerivation.truncate resolved2)))))"

section \<open>The requests of a derivation\<close>

text \<open>
  Every output that the input derivations name, in the order in which \<open>tryResolveInput\<close> looks them up,
  as one flat list; \<open>resolve_flat\<close> is the resolution as a loop over it.
\<close>

fun requests :: "SingleDerivedPath \<Rightarrow> ChildNode \<Rightarrow> (SingleDerivedPath \<times> string) list" where
  "requests drvPath (ChildNode outs children) =
     map (\<lambda>n. (drvPath, n)) outs @ concat (map (\<lambda>c. requests (SBuilt drvPath (fst c)) (snd c)) children)"

definition drv_requests :: "'j Derivation \<Rightarrow> (SingleDerivedPath \<times> string) list" where
  "drv_requests drv = concat (map (\<lambda>i. requests (SOpaque (fst i)) (snd i)) (inputDrvs drv))"

definition resolve_request ::
    "'j StoreDirConfig \<Rightarrow> resolution_query \<Rightarrow> SingleDerivedPath \<times> string \<Rightarrow> resolved \<Rightarrow> resolved option res" where
  "resolve_request sd query r acc =
     (case query (fst r) (snd r) of
        None \<Rightarrow> Inr None
      | Some actualPath \<Rightarrow>
          bind_res
            (if isEnabled (sd_xp sd) CaDerivations then
               bind_res (fromSingleDerivedPathBuilt sd (fst r) (snd r)) (\<lambda>ph.
               bind_res (render ph) (\<lambda>k. Inr (fst (map_emplace k (printStorePath (sd_dir sd) actualPath) (snd acc)))))
             else Inr (snd acc)) (\<lambda>inputRewrites.
          Inr (Some (set_put actualPath (fst acc), inputRewrites))))"

section \<open>Lemmas: the flat resolution\<close>

lemma loop_while_append:
  "loop_while f (xs @ ys) s = bind_res (loop_while f xs s) (\<lambda>r. case r of None \<Rightarrow> Inr None | Some s' \<Rightarrow> loop_while f ys s')"
proof (induction xs arbitrary: s)
  case (Cons x xs)
  show ?case
    by (cases "f x s" rule: sum.exhaust) (auto simp: Cons split: option.splits)
qed simp

lemma loop_while_map: "loop_while f (map g xs) s = loop_while (\<lambda>x. f (g x)) xs s"
  by (induction xs arbitrary: s) (auto intro: bind_res_cong split: option.splits)

text \<open>The placeholder that is passed down is the one of the path that is passed down.\<close>

definition placeholder_of :: "'j StoreDirConfig \<Rightarrow> DownstreamPlaceholder option \<Rightarrow> SingleDerivedPath \<Rightarrow> bool" where
  "placeholder_of sd ph d =
     (case d of
        SOpaque p \<Rightarrow> ph = None
      | SBuilt e n \<Rightarrow> (\<exists>h. ph = Some h \<and> fromSingleDerivedPathBuilt sd e n = Inr h))"

lemma getPlaceholder_eq: "placeholder_of sd ph d \<Longrightarrow> getPlaceholder sd ph d n = fromSingleDerivedPathBuilt sd d n"
  by (cases d) (auto simp: placeholder_of_def getPlaceholder_def)

lemma placeholder_of_next:
  "placeholder_of sd ph d \<Longrightarrow> getPlaceholder sd ph d n = Inr h \<Longrightarrow> placeholder_of sd (Some h) (SBuilt d n)"
  by (simp add: getPlaceholder_eq) (simp add: placeholder_of_def)

lemma resolve_output_eq:
  "placeholder_of sd ph d \<Longrightarrow> resolve_output sd query ph d n = resolve_request sd query (d, n)"
  unfolding resolve_output_def resolve_request_def fst_conv snd_conv by (rule ext) (simp only: getPlaceholder_eq)

lemma tryResolveInput_flat:
  "placeholder_of sd ph d \<Longrightarrow> tryResolveInput sd query ph d node acc = Inr r \<Longrightarrow>
   loop_while (resolve_request sd query) (requests d node) acc = Inr r"
proof (induction sd query ph d node acc arbitrary: r rule: tryResolveInput.induct)
  case (1 sd query ph d outs children acc)
  let ?f = "resolve_request sd query"
  have outs: "loop_while (resolve_output sd query ph d) outs = loop_while ?f (map (\<lambda>n. (d, n)) outs)"
    unfolding loop_while_map resolve_output_eq [OF 1(2), abs_def] ..
  have children: "loop_while ?f (concat (map (\<lambda>c. requests (SBuilt d (fst c)) (snd c)) cs)) a = Inr r"
    if "loop_while (\<lambda>c acc.
             bind_res (getPlaceholder sd ph d (fst c)) (\<lambda>nextPlaceholder.
               tryResolveInput sd query (Some nextPlaceholder) (SBuilt d (fst c)) (snd c) acc)) cs a = Inr r"
      and "set cs \<subseteq> set children" "loop_while (resolve_output sd query ph d) outs acc = Inr (Some a0)" for cs a a0 r
    using that(1,2)
  proof (induction cs arbitrary: a)
    case (Cons c cs)
    then obtain h x where h: "getPlaceholder sd ph d (fst c) = Inr h"
      "tryResolveInput sd query (Some h) (SBuilt d (fst c)) (snd c) a = Inr x"
      "(case x of None \<Rightarrow> Inr None | Some s' \<Rightarrow> loop_while (\<lambda>c acc.
             bind_res (getPlaceholder sd ph d (fst c)) (\<lambda>nextPlaceholder.
               tryResolveInput sd query (Some nextPlaceholder) (SBuilt d (fst c)) (snd c) acc)) cs s') = Inr r"
      by (auto simp: res_simps)
    have "loop_while ?f (requests (SBuilt d (fst c)) (snd c)) a = Inr x"
      using Cons.prems(2) h by (intro "1.IH" [OF that(3) refl _ _ placeholder_of_next [OF 1(2) h(1)] h(2)]) auto
    with h(3) Cons show ?case by (auto simp: loop_while_append split: option.splits)
  qed simp
  from 1(3) obtain x where x: "loop_while (resolve_output sd query ph d) outs acc = Inr x"
    "(case x of None \<Rightarrow> Inr None | Some acc1 \<Rightarrow> loop_while (\<lambda>c acc.
             bind_res (getPlaceholder sd ph d (fst c)) (\<lambda>nextPlaceholder.
               tryResolveInput sd query (Some nextPlaceholder) (SBuilt d (fst c)) (snd c) acc)) children acc1) = Inr r"
    by (auto simp: res_simps)
  then show ?case using children [OF _ subset_refl]
    by (auto simp: loop_while_append outs [symmetric] split: option.splits)
qed

lemma resolve_inputs_flat:
  assumes "resolve_inputs sd query drv = Inr r"
  shows "loop_while (resolve_request sd query) (drv_requests drv) (inputSrcs drv, []) = Inr r"
proof -
  have "loop_while (resolve_request sd query) (concat (map (\<lambda>i. requests (SOpaque (fst i)) (snd i)) is)) a = Inr r"
    if "loop_while (\<lambda>i. tryResolveInput sd query None (SOpaque (fst i)) (snd i)) is a = Inr r" for "is" a
    using that
  proof (induction "is" arbitrary: a)
    case (Cons i "is")
    then obtain x where x: "tryResolveInput sd query None (SOpaque (fst i)) (snd i) a = Inr x"
      "(case x of None \<Rightarrow> Inr None | Some s' \<Rightarrow> loop_while (\<lambda>i. tryResolveInput sd query None (SOpaque (fst i)) (snd i)) is s') = Inr r"
      by (auto simp: res_simps)
    have "loop_while (resolve_request sd query) (requests (SOpaque (fst i)) (snd i)) a = Inr x"
      by (rule tryResolveInput_flat [OF _ x(1)]) (simp add: placeholder_of_def)
    with x(2) Cons show ?case by (auto simp: loop_while_append split: option.splits)
  qed simp
  with assms show ?thesis unfolding resolve_inputs_def drv_requests_def by blast
qed

lemma emplace_mono: "map_of m k = Some v \<Longrightarrow> map_of (fst (map_emplace k' v' m)) k = Some v"
  by (auto simp: map_emplace_def)

lemma emplace_origin: "map_of (fst (map_emplace k' v' m)) k = Some v \<Longrightarrow> map_of m k = Some v \<or> (k = k' \<and> v = v')"
  by (auto simp: map_emplace_def split: if_splits)

lemma emplace_in: "map_of (fst (map_emplace k v m)) k \<noteq> None"
  by (auto simp: map_emplace_def)

definition answer :: "resolution_query \<Rightarrow> SingleDerivedPath \<times> string \<Rightarrow> StorePath option" where
  "answer query r = query (fst r) (snd r)"

definition placeholder_text :: "'j StoreDirConfig \<Rightarrow> SingleDerivedPath \<times> string \<Rightarrow> string res" where
  "placeholder_text sd r = bind_res (fromSingleDerivedPathBuilt sd (fst r) (snd r)) render"

lemma resolve_request_Some:
  assumes "resolve_request sd query r acc = Inr (Some acc1)"
  obtains p where "answer query r = Some p" "fst acc1 = set_put p (fst acc)"
    "isEnabled (sd_xp sd) CaDerivations \<Longrightarrow>
      \<exists>k. placeholder_text sd r = Inr k \<and> snd acc1 = fst (map_emplace k (printStorePath (sd_dir sd) p) (snd acc))"
    "\<not> isEnabled (sd_xp sd) CaDerivations \<Longrightarrow> snd acc1 = snd acc"
  using assms
  by (auto simp: resolve_request_def answer_def placeholder_text_def res_simps split: option.splits if_splits)

lemma flat_none:
  "loop_while (resolve_request sd query) rs acc = Inr None \<Longrightarrow> \<exists>r \<in> set rs. answer query r = None"
proof (induction rs arbitrary: acc)
  case (Cons r rs)
  then obtain x where x: "resolve_request sd query r acc = Inr x"
    "(case x of None \<Rightarrow> Inr None | Some s' \<Rightarrow> loop_while (resolve_request sd query) rs s') = Inr None"
    by (auto simp: res_simps)
  show ?case
  proof (cases x)
    case None
    with x(1) have "answer query r = None"
      by (auto simp: resolve_request_def answer_def res_simps split: option.splits)
    then show ?thesis by simp
  next
    case (Some s)
    with x(2) Cons.IH show ?thesis by auto
  qed
qed simp

lemma flat_some:
  assumes "loop_while (resolve_request sd query) rs acc = Inr (Some acc')"
  shows "(\<forall>r \<in> set rs. answer query r \<noteq> None) \<and>
    set (fst acc') = set (fst acc) \<union> {p. \<exists>r \<in> set rs. answer query r = Some p} \<and>
    (\<forall>k v. map_of (snd acc) k = Some v \<longrightarrow> map_of (snd acc') k = Some v) \<and>
    (isEnabled (sd_xp sd) CaDerivations \<longrightarrow>
      (\<forall>r \<in> set rs. \<exists>k. placeholder_text sd r = Inr k \<and> map_of (snd acc') k \<noteq> None)) \<and>
    (\<forall>k v. map_of (snd acc') k = Some v \<longrightarrow> map_of (snd acc) k = Some v \<or>
      (\<exists>r \<in> set rs. \<exists>p. placeholder_text sd r = Inr k \<and> answer query r = Some p \<and> v = printStorePath (sd_dir sd) p))"
  using assms
proof (induction rs arbitrary: acc)
  case (Cons r rs)
  then obtain x where x: "resolve_request sd query r acc = Inr x"
    "(case x of None \<Rightarrow> Inr None | Some s' \<Rightarrow> loop_while (resolve_request sd query) rs s') = Inr (Some acc')"
    by (auto simp: res_simps)
  then obtain acc1 where a: "x = Some acc1" "loop_while (resolve_request sd query) rs acc1 = Inr (Some acc')"
    by (cases x) auto
  obtain p where p: "answer query r = Some p" "fst acc1 = set_put p (fst acc)"
    "isEnabled (sd_xp sd) CaDerivations \<Longrightarrow>
      \<exists>k. placeholder_text sd r = Inr k \<and> snd acc1 = fst (map_emplace k (printStorePath (sd_dir sd) p) (snd acc))"
    "\<not> isEnabled (sd_xp sd) CaDerivations \<Longrightarrow> snd acc1 = snd acc"
    using resolve_request_Some [OF x(1) [unfolded a(1)]] by blast
  note IH = Cons.IH [OF a(2)]
  have mono: "map_of (snd acc) k = Some v \<Longrightarrow> map_of (snd acc1) k = Some v" for k v
    using p(3,4) emplace_mono by (cases "isEnabled (sd_xp sd) CaDerivations") fastforce+
  have origin: "map_of (snd acc1) k = Some v \<Longrightarrow> map_of (snd acc) k = Some v \<or>
      (placeholder_text sd r = Inr k \<and> v = printStorePath (sd_dir sd) p)" for k v
    using p(3,4) by (cases "isEnabled (sd_xp sd) CaDerivations") (auto dest: emplace_origin)
  have fresh: "\<exists>k. placeholder_text sd r = Inr k \<and> map_of (snd acc') k \<noteq> None" if "isEnabled (sd_xp sd) CaDerivations"
  proof -
    note ca = that
    obtain k where k: "placeholder_text sd r = Inr k" "snd acc1 = fst (map_emplace k (printStorePath (sd_dir sd) p) (snd acc))"
      using p(3) [OF ca] by blast
    obtain v where "map_of (snd acc1) k = Some v" using emplace_in [of k _ "snd acc"] by (auto simp: k(2))
    with IH k(1) show ?thesis by auto
  qed
  show ?case
  proof (intro conjI)
    show "\<forall>r \<in> set (r # rs). answer query r \<noteq> None" using IH p(1) by simp
    show "set (fst acc') = set (fst acc) \<union> {p. \<exists>r \<in> set (r # rs). answer query r = Some p}" using IH p(1,2) by auto
    show "\<forall>k v. map_of (snd acc) k = Some v \<longrightarrow> map_of (snd acc') k = Some v" using IH mono by blast
    show "isEnabled (sd_xp sd) CaDerivations \<longrightarrow>
      (\<forall>r \<in> set (r # rs). \<exists>k. placeholder_text sd r = Inr k \<and> map_of (snd acc') k \<noteq> None)" using IH fresh by simp
    show "\<forall>k v. map_of (snd acc') k = Some v \<longrightarrow> map_of (snd acc) k = Some v \<or>
      (\<exists>r \<in> set (r # rs). \<exists>p. placeholder_text sd r = Inr k \<and> answer query r = Some p \<and> v = printStorePath (sd_dir sd) p)"
    proof (intro allI impI)
      fix k v assume "map_of (snd acc') k = Some v"
      with IH have "map_of (snd acc1) k = Some v \<or>
        (\<exists>r \<in> set rs. \<exists>p. placeholder_text sd r = Inr k \<and> answer query r = Some p \<and> v = printStorePath (sd_dir sd) p)" by blast
      with origin [of k v] p(1) show "map_of (snd acc) k = Some v \<or>
        (\<exists>r \<in> set (r # rs). \<exists>p. placeholder_text sd r = Inr k \<and> answer query r = Some p \<and> v = printStorePath (sd_dir sd) p)"
        by auto
    qed
  qed
qed simp

section \<open>Lemmas: the outputs of a resolved derivation\<close>

lemma envHasRightPath_outputs:
  "envHasRightPath sd fillIn n p d = Inr d' \<Longrightarrow> outputs d' = outputs d \<and> inputSrcs d' = inputSrcs d"
  by (auto simp: envHasRightPath_def Let_def res_simps split: option.splits if_splits)

lemma process_output_outputs:
  assumes "process_output sd hdm fillIn nm i (d, hm) t = Some (Inr (d', hm'), t')"
  shows "inputSrcs d' = inputSrcs d \<and>
    (outputs d' = outputs d \<or> (\<exists>p. outputs d' = map_put (fst i) (InputAddressed p) (outputs d)))"
proof (cases "snd i")
  case (CAFixed ca)
  with assms show ?thesis by (auto simp: process_output_def bindS_Inr dest: envHasRightPath_outputs)
next
  case (InputAddressed q)
  with assms obtain h s1 where h: "lazy_modulo hdm (d, hm) t = Some (Inr h, s1)" "(case h of
              DrvHash drvHash \<Rightarrow>
                bindS (liftS (makeOutputPath (sd_digest sd) (sd_xp sd) (sd_dir sd) (fst i) drvHash nm)) (\<lambda>outPath.
                  if q = outPath
                  then bindS (liftS (envHasRightPath sd fillIn (fst i) outPath d)) (\<lambda>drv. retS (drv, Some h))
                  else throwS Error ''derivation has incorrect output '%s', should be %s'')
            | CaOutputHashes m \<Rightarrow> throwS AssertionFailure ''assert''
            | DeferredDrv \<Rightarrow> throwS Error ''derivation has incorrect output '%s', should be deferred'') s1 = Some (Inr (d', hm'), t')"
    unfolding process_output_def InputAddressed DerivationOutput.case fst_conv snd_conv bindS_Inr by blast
  then show ?thesis
    by (cases h) (auto simp: bindS_Inr dest!: envHasRightPath_outputs split: if_splits)
next
  case Deferred
  with assms obtain h s1 where h: "lazy_modulo hdm (d, hm) t = Some (Inr h, s1)" "(case h of
              DrvHash drvHash \<Rightarrow>
                bindS (liftS (makeOutputPath (sd_digest sd) (sd_xp sd) (sd_dir sd) (fst i) drvHash nm)) (\<lambda>outPath.
                  if fillIn
                  then bindS (liftS (envHasRightPath sd fillIn (fst i) outPath
                         (d\<lparr>outputs := map_put (fst i) (InputAddressed outPath) (outputs d)\<rparr>)))
                       (\<lambda>drv. retS (drv, Some h))
                  else retS (d, Some h))
            | CaOutputHashes m \<Rightarrow> throwS AssertionFailure ''assert''
            | DeferredDrv \<Rightarrow> retS (d, Some h)) s1 = Some (Inr (d', hm'), t')"
    unfolding process_output_def Deferred DerivationOutput.case fst_conv snd_conv bindS_Inr by blast
  then show ?thesis
    by (cases h) (auto simp: bindS_Inr dest!: envHasRightPath_outputs split: if_splits)
qed (use assms in \<open>auto simp: process_output_def\<close>)

lemma fold_outputs_kept:
  assumes "foldS (process_output sd hdm fillIn nm) os (d, hm) t = Some (Inr (d', hm'), t')"
    and "map_of (outputs d) n = Some out" "out \<noteq> Deferred"
  shows "\<exists>out'. map_of (outputs d') n = Some out' \<and> out' \<noteq> Deferred"
  using assms
proof (induction os arbitrary: d hm t out)
  case (Cons i os)
  then obtain d1 hm1 t1 where s: "process_output sd hdm fillIn nm i (d, hm) t = Some (Inr (d1, hm1), t1)"
    "foldS (process_output sd hdm fillIn nm) os (d1, hm1) t1 = Some (Inr (d', hm'), t')" by (auto simp: bindS_Inr)
  have "\<exists>out1. map_of (outputs d1) n = Some out1 \<and> out1 \<noteq> Deferred"
    using process_output_outputs [OF s(1)] Cons.prems(2,3) by auto
  with Cons.IH [OF s(2)] show ?case by blast
qed auto

lemma hdm_no_inputs:
  assumes "hashDerivationModulo k sd rd d m t = Some (Inr h, t')" "inputDrvs d = []" "drv_type d = Inr (InputAddressedType b)"
  shows "\<exists>dh. h = DrvHash dh"
  using assms by (cases k) (auto simp: modulo_body_def bindS_Inr)

lemma filled_type:
  assumes fill: "fillInOutputPaths k sd rd d t = Some (Inr d2, t2)" and none: "inputDrvs d = []"
  shows "\<exists>ty. drv_type d2 = Inr ty \<and> ty \<noteq> InputAddressedType True"
proof -
  let ?hdm = "\<lambda>d. hashDerivationModulo k sd rd d True"
  from fill obtain hm t1 ty where f: "foldS (process_output sd ?hdm True (drv_name d)) (outputs d) (d, None) t = Some (Inr (d2, hm), t1)"
    and ty: "drv_type d2 = Inr ty"
    by (auto simp: fillInOutputPaths_def processDerivationOutputPaths_def bindS_Inr simp del: foldS.simps)
  have False if "ty = InputAddressedType True"
  proof (cases "outputs d")
    case Nil
    with f ty show ?thesis by (auto simp: drv_type_iff typed_outputs_def retS_def)
  next
    case (Cons i os)
    have deferred: "\<forall>j \<in> set (outputs d2). snd j = Deferred"
    proof -
      have "kind_of x = InputAddressedType True \<Longrightarrow> x = Deferred" for x by (cases x) auto
      then show ?thesis using ty that by (auto simp: drv_type_iff typed_outputs_def list_all_iff)
    qed
    then have no: "map_of (outputs d2) (fst i) \<noteq> Some x" if "x \<noteq> Deferred" for x
      using that by (auto dest!: map_of_SomeD)
    have hd: "map_of (outputs d) (fst i) = Some (snd i)" by (simp add: Cons)
    from f [unfolded Cons] obtain d1 hm1 t3 where s: "process_output sd ?hdm True (drv_name d) i (d, None) t = Some (Inr (d1, hm1), t3)"
      "foldS (process_output sd ?hdm True (drv_name d)) os (d1, hm1) t3 = Some (Inr (d2, hm), t1)" by (auto simp: bindS_Inr)
    have di: "snd i = Deferred"
    proof (rule ccontr)
      assume "snd i \<noteq> Deferred"
      from fold_outputs_kept [OF f hd this] no show False by blast
    qed
    from s(1) obtain h s1 where h: "?hdm d t = Some (Inr h, s1)" "(case h of
              DrvHash drvHash \<Rightarrow>
                bindS (liftS (makeOutputPath (sd_digest sd) (sd_xp sd) (sd_dir sd) (fst i) drvHash (drv_name d))) (\<lambda>outPath.
                  if True
                  then bindS (liftS (envHasRightPath sd True (fst i) outPath
                         (d\<lparr>outputs := map_put (fst i) (InputAddressed outPath) (outputs d)\<rparr>)))
                       (\<lambda>drv. retS (drv, Some h))
                  else retS (d, Some h))
            | CaOutputHashes m \<Rightarrow> throwS AssertionFailure ''assert''
            | DeferredDrv \<Rightarrow> retS (d, Some h)) s1 = Some (Inr (d1, hm1), t3)"
      unfolding process_output_def di DerivationOutput.case fst_conv snd_conv lazy_modulo_def option.case bindS_Inr by blast
    have "\<exists>ty1. drv_type d = Inr ty1" using h(1) by (cases k) (auto simp: modulo_body_def bindS_Inr)
    then obtain ty1 where ty1: "drv_type d = Inr ty1" by blast
    then have "ty1 = InputAddressedType True"
      using di by (simp add: drv_type_iff typed_outputs_def Cons)
    with hdm_no_inputs [OF h(1) none] ty1 obtain dh where dh: "h = DrvHash dh" by blast
    obtain p where "outputs d1 = map_put (fst i) (InputAddressed p) (outputs d)"
      using h(2) unfolding dh by (auto simp: bindS_Inr dest!: envHasRightPath_outputs)
    then have "map_of (outputs d1) (fst i) = Some (InputAddressed p)" by simp
    from fold_outputs_kept [OF s(2) this] no show ?thesis by auto
  qed
  with ty show ?thesis by blast
qed

lemma fold_inputSrcs:
  "foldS (process_output sd hdm fillIn nm) os (d, hm) t = Some (Inr (d', hm'), t') \<Longrightarrow> inputSrcs d' = inputSrcs d"
proof (induction os arbitrary: d hm t)
  case (Cons i os)
  then obtain d1 hm1 t1 where s: "process_output sd hdm fillIn nm i (d, hm) t = Some (Inr (d1, hm1), t1)"
    "foldS (process_output sd hdm fillIn nm) os (d1, hm1) t1 = Some (Inr (d', hm'), t')" by (auto simp: bindS_Inr)
  from Cons.IH [OF s(2)] process_output_outputs [OF s(1)] show ?case by simp
qed simp

lemma filled_inputSrcs: "fillInOutputPaths k sd rd d t = Some (Inr d2, t2) \<Longrightarrow> inputSrcs d2 = inputSrcs d"
  by (auto simp: fillInOutputPaths_def processDerivationOutputPaths_def bindS_Inr dest!: fold_inputSrcs)

section \<open>The result\<close>

lemma tryResolve_result:
  assumes "tryResolve k sd rd query drv t = Some (Inr r, t')"
  shows "case r of
      None \<Rightarrow> \<exists>q \<in> set (drv_requests drv). answer query q = None
    | Some b \<Rightarrow>
        set (inputSrcs b) = set (inputSrcs drv) \<union> {p. \<exists>q \<in> set (drv_requests drv). answer query q = Some p} \<and>
        (\<exists>ty. drv_type b = Inr ty \<and> ty \<noteq> InputAddressedType True)"
proof -
  from assms obtain x where x: "resolve_inputs sd query drv = Inr x" by (auto simp: tryResolve_def bindS_Inr)
  note flat = resolve_inputs_flat [OF x]
  show ?thesis
  proof (cases x)
    case None
    with assms x have "r = None" by (simp add: tryResolve_def)
    with flat_none [OF flat [unfolded None]] show ?thesis by simp
  next
    case (Some acc)
    obtain srcs rs where acc: "acc = (srcs, rs)" by (cases acc)
    from assms x Some acc obtain d2 d3 t2 where
      a: "applyRewrites sd rs (drv\<lparr>inputSrcs := srcs, inputDrvs := []\<rparr>) = Some (Inr d2)"
      and f: "fillInOutputPaths k sd rd d2 t2 = Some (Inr d3, t')" and r: "r = Some (BasicDerivation.truncate d3)"
      by (auto simp: tryResolve_def bindS_Inr)
    have d2: "inputDrvs d2 = []" "inputSrcs d2 = srcs"
      using a by (auto simp: applyRewrites_def res_simps split: if_splits)
    from filled_inputSrcs [OF f] filled_type [OF f d2(1)] flat_some [OF flat [unfolded Some acc]] d2(2) r show ?thesis
      by (simp add: drv_type_def BasicDerivation.defs)
  qed
qed

definition example_inputs :: "nat Derivation" where
  "example_inputs = example_drv\<lparr>inputDrvs := [(path_a, ChildNode [''out''] []), (path_b, ChildNode [''dev'', ''out''] [])]\<rparr>"

definition example_query :: resolution_query where
  "example_query d n = (if d = SOpaque path_a then Some path_b else if n = ''out'' then Some path_a else Some path_b)"

lemma example_requests:
  "drv_requests example_inputs = [(SOpaque path_a, ''out''), (SOpaque path_b, ''dev''), (SOpaque path_b, ''out'')]"
  by (simp add: drv_requests_def example_inputs_def)

lemma example_fill_srcs:
  "\<exists>d2. fillInOutputPaths (Suc 0) example_config example_store (example_drv\<lparr>inputSrcs := ss\<rparr>) t = Some (Inr d2, t)"
proof -
  let ?d = "example_drv\<lparr>inputSrcs := ss\<rparr>"
  let ?hdm = "\<lambda>d. hashDerivationModulo (Suc 0) example_config example_store d True"
  obtain h where h: "\<And>s. hashString (sd_digest example_config) (sd_xp example_config) SHA256 s = Inr h" "hashSize h \<noteq> 0"
    using example_hash by blast
  obtain p where p: "out_path example_config ''hello'' h ''out'' = Inr p" using example_out_path [OF h(2)] by blast
  have ex: "outputs example_drv = [(''out'', Deferred)]" "inputDrvs example_drv = []" "structuredAttrs example_drv = None"
    "drv_env example_drv = [(''out'', [])]" "drv_name example_drv = ''hello''" by (simp_all add: example_drv_def)
  have "\<exists>a. unparse example_config True (Some []) ?d = Inr a"
    by (auto simp: unparse_def ex unparseOutput_masked checkKeyNotInUse_def envVarName_def masked_out_def Let_def)
  moreover have "drv_type ?d = Inr (InputAddressedType True)" by (simp add: drv_type_iff typed_outputs_def ex)
  ultimately have m: "?hdm ?d t = Some (Inr (DrvHash h), t)" by (auto simp: modulo_body_def ex h(1))
  have "\<exists>d2. process_output example_config ?hdm True ''hello'' (''out'', Deferred) (?d, Some (DrvHash h)) =
      retS (d2, Some (DrvHash h)) \<and> drv_type d2 = Inr (InputAddressedType False)"
    using p by (auto simp: process_output_def lazy_modulo_def out_path_def envHasRightPath_def Let_def ex drv_type_iff typed_outputs_def)
  then obtain d2 where d2: "process_output example_config ?hdm True ''hello'' (''out'', Deferred) (?d, Some (DrvHash h)) =
      retS (d2, Some (DrvHash h))" "drv_type d2 = Inr (InputAddressedType False)" by blast
  have "foldS (process_output example_config ?hdm True ''hello'') [(''out'', Deferred)] (?d, None) t = Some (Inr (d2, Some (DrvHash h)), t)"
    by (subst lazy_fold) (auto simp: masked_out_def bindS_Some m d2(1) simp del: hashDerivationModulo.simps)
  then have "fillInOutputPaths (Suc 0) example_config example_store ?d t = Some (Inr d2, t)"
    unfolding fillInOutputPaths_def processDerivationOutputPaths_def
    by (simp add: bindS_def ex d2(2) liftS_def retS_def del: foldS.simps hashDerivationModulo.simps)
  then show ?thesis by blast
qed

lemma example_resolves:
  "\<exists>b t'. tryResolve (Suc 0) example_config example_store example_query example_inputs Map.empty = Some (Inr (Some b), t')"
proof -
  have "resolve_inputs example_config example_query example_inputs = Inr (Some ([path_a, path_b], []))"
    by (simp add: resolve_inputs_def example_inputs_def example_query_def resolve_output_def isEnabled_def example_config_def
        example_drv_def path_a_def path_b_def less_StorePath_def)
  moreover have "example_inputs\<lparr>inputSrcs := ss, inputDrvs := []\<rparr> = example_drv\<lparr>inputSrcs := ss\<rparr>" for ss
    by (simp add: example_inputs_def example_drv_def)
  ultimately show ?thesis
    using example_fill_srcs [of "[path_a, path_b]" Map.empty]
    by (auto simp: tryResolve_def applyRewrites_def bindS_def liftRo_def retS_def)
qed

definition example_ca_config :: "nat StoreDirConfig" where
  "example_ca_config = example_config\<lparr>sd_xp := [CaDerivations]\<rparr>"

definition example_ca_inputs :: "nat Derivation" where
  "example_ca_inputs = example_drv\<lparr>inputDrvs := [(example_path, ChildNode [''out''] [])]\<rparr>"

lemma example_ca_resolves:
  "\<exists>rs. resolve_inputs example_ca_config example_query example_ca_inputs = Inr (Some ([path_a], rs))"
proof -
  have "\<exists>h. (\<forall>s. hashString (sd_digest example_ca_config) (sd_xp example_ca_config) SHA256 s = Inr h) \<and> hashSize h \<noteq> 0"
    by (simp add: hashString_def new_Hash_def example_ca_config_def example_config_def regularHashSize_def maxHashSize_def Let_def)
  then obtain h where h: "\<And>s. hashString (sd_digest example_ca_config) (sd_xp example_ca_config) SHA256 s = Inr h" "hashSize h \<noteq> 0"
    by blast
  have "isEnabled (sd_xp example_ca_config) CaDerivations" by (simp add: isEnabled_def example_ca_config_def)
  moreover have "path_name example_path = Inr ''x.drv''" by (simp add: path_name_def example_path_def HashLen_def)
  ultimately have "\<exists>k. placeholder_text example_ca_config (SOpaque example_path, ''out'') = Inr k"
    by (simp add: placeholder_text_def unknownCaOutput_def require_enabled Let_def h render_def hash_to_string_def)
  then obtain k where "bind_res (getPlaceholder example_ca_config None (SOpaque example_path) ''out'') render = Inr k"
    by (auto simp: placeholder_text_def getPlaceholder_def)
  moreover have "example_path \<noteq> path_a" by (simp add: example_path_def path_a_def)
  ultimately have "\<exists>m. resolve_output example_ca_config example_query None (SOpaque example_path) ''out'' ([], []) = Inr (Some ([path_a], m))"
    by (auto simp: resolve_output_def example_query_def res_simps simp flip: bind_res_assoc)
  then show ?thesis by (auto simp: resolve_inputs_def example_ca_inputs_def example_drv_def)
qed

section \<open>Properties\<close>





end
