(* ===== verification/Protocol_Types.thy ===== *)
theory Protocol_Types
  imports Wire Derived_Path
begin

text \<open>
  The values that the worker and the serve protocol exchange: \<open>realisation.hh\<close>, \<open>build-result.hh\<close>,
  \<open>path-info.hh\<close>, the version numbers of \<open>worker-protocol.hh\<close> and \<open>serve-protocol.hh\<close> (all in
  \<open>src/src/libstore/include/nix/store\<close>), and the serialisation of build outputs that both protocols
  share for old peers.

  \<open>json_lib\<close> is what the code uses of the JSON library: \<open>rj_dump id p\<close> is the text of the object
  with the members \<open>id\<close> and \<open>outPath\<close>, \<open>rj_outPath s\<close> parses \<open>s\<close> and takes its member \<open>outPath\<close> as a string.
\<close>

section \<open>Data\<close>

datatype VersionNumber = VersionNumber (major: u32) (minor: byte)

definition number_less :: "VersionNumber \<Rightarrow> VersionNumber \<Rightarrow> bool" where
  "number_less a b = (major a < major b \<or> major a = major b \<and> minor a < minor b)"

definition toWire :: "VersionNumber \<Rightarrow> u32" where
  "toWire v = or (push_bit 8 (major v)) (ucast (minor v))"

definition fromWire :: "u32 \<Rightarrow> VersionNumber" where
  "fromWire wire = VersionNumber (drop_bit 8 (and wire 0xff00)) (ucast (and wire 0xff))"

definition number_min :: "VersionNumber \<Rightarrow> VersionNumber \<Rightarrow> VersionNumber" where
  "number_min a b = (if number_less b a then b else a)"

datatype UnkeyedRealisation = UnkeyedRealisation (ur_outPath: StorePath) (ur_signatures: "Signature list")

datatype DrvOutput = DrvOutput (do_drvPath: StorePath) (do_outputName: string)

datatype Realisation = Realisation (r_unkeyed: UnkeyedRealisation) (r_id: DrvOutput)

type_synonym SingleDrvOutputs = "(string \<times> UnkeyedRealisation) list"

datatype BuildInner =
    Success SuccessStatus SingleDrvOutputs
  | Failure FailureStatus string bool

text \<open>Times and durations are signed 64-bit integers, kept as words.\<close>

record BuildResult =
  br_inner :: BuildInner
  timesBuilt :: u32
  startTime :: u64
  stopTime :: u64
  cpuUser :: "u64 option"
  cpuSystem :: "u64 option"

record UnkeyedValidPathInfo =
  pi_storeDir :: string
  pi_deriver :: "StorePath option"
  pi_narHash :: Hash
  pi_references :: "StorePath list"
  pi_registrationTime :: u64
  pi_narSize :: u64
  pi_id :: u64
  pi_ultimate :: bool
  pi_sigs :: "Signature list"
  pi_ca :: "ContentAddress option"

definition new_UnkeyedValidPathInfo :: "'j StoreDirConfig \<Rightarrow> Hash \<Rightarrow> UnkeyedValidPathInfo" where
  "new_UnkeyedValidPathInfo sd narHash =
     \<lparr>pi_storeDir = sd_dir sd, pi_deriver = None, pi_narHash = narHash, pi_references = [], pi_registrationTime = 0,
      pi_narSize = 0, pi_id = 0, pi_ultimate = False, pi_sigs = [], pi_ca = None\<rparr>"

record json_lib =
  rj_dump :: "string \<Rightarrow> string \<Rightarrow> string res"
  rj_outPath :: "string \<Rightarrow> string res"

definition int64_max :: u64 where "int64_max = 0x7fffffffffffffff"

definition getU32 :: "u32 stream" where "getU32 = bindP (getNum uint_max) (\<lambda>n. retP (ucast n))"

section \<open>Build outputs for old peers\<close>

text \<open>\<open>Hash::dummy\<close>.\<close>

definition hash_dummy :: Hash where
  "hash_dummy = \<lparr>hashSize = 32, hash = replicate 64 0, algo = SHA256\<rparr>"

definition dummyId :: "string \<Rightarrow> string res" where
  "dummyId outputName = bind_res (hash_to_string hash_dummy Base16 True) (\<lambda>h. Inr (h @ ''!'' @ outputName))"

definition legacy_entry :: "json_lib \<Rightarrow> string \<times> UnkeyedRealisation \<Rightarrow> (string \<times> string) list \<Rightarrow> (string \<times> string) list res" where
  "legacy_entry jl i sm =
     bind_res (dummyId (fst i)) (\<lambda>d.
     bind_res (rj_dump jl d (base (ur_outPath (snd i)))) (\<lambda>j. Inr (map_put d j sm)))"

definition write_legacy_outputs :: "json_lib \<Rightarrow> SingleDrvOutputs \<Rightarrow> string res" where
  "write_legacy_outputs jl builtOutputs =
     bind_res (fold_res (legacy_entry jl) builtOutputs []) (write_map putStr putStr)"

definition legacy_output :: "json_lib \<Rightarrow> string \<times> string \<Rightarrow> SingleDrvOutputs \<Rightarrow> SingleDrvOutputs res" where
  "legacy_output jl i builtOutputs =
     (let out = fst i; n = length (takeWhile (\<lambda>c. c \<noteq> CHR ''!'') out)
      in if n = length out then Inl (NixError Error ''Invalid derivation output id %s'')
         else
           bind_res (rj_outPath jl (snd i)) (\<lambda>p.
           bind_res (mk_StorePath p) (\<lambda>sp.
             Inr (map_put (drop (n + 1) out) (UnkeyedRealisation sp []) builtOutputs))))"

definition read_legacy_outputs :: "json_lib \<Rightarrow> SingleDrvOutputs stream" where
  "read_legacy_outputs jl =
     bindP (read_map getStr getStr) (\<lambda>sm. liftP (Some (fold_res (legacy_output jl) sm [])))"

section \<open>Lemmas\<close>

lemma small_bits: "(w :: u32) < 256 \<Longrightarrow> bit w n \<Longrightarrow> n < 8"
proof -
  assume a: "w < 256" "bit w n"
  from a(1) have "unat w < 2 ^ 8" by (simp add: word_less_nat_alt)
  then have "take_bit 8 w = w"
    by (simp add: word_unat_eq_iff unsigned_take_bit_eq take_bit_nat_eq_self)
  then show "n < 8" using a(2) by (metis bit_take_bit_iff)
qed

lemma toWire_fromWire:
  assumes "major v < 256"
  shows "fromWire (toWire v) = v"
proof -
  have masks: "(0xff00 :: u32) = push_bit 8 (mask 8)" "(0xff :: u32) = mask 8"
    by (simp_all add: mask_eq_exp_minus_1 push_bit_eq_mult)
  have "drop_bit 8 (and (toWire v) 0xff00) = major v"
    by (intro bit_word_eqI) (auto simp: masks toWire_def bit_simps dest: small_bits [OF assms] bit_imp_le_length)
  moreover have "ucast (and (toWire v) 0xff) = minor v"
    by (intro bit_word_eqI) (auto simp: masks toWire_def bit_simps)
  ultimately show ?thesis by (cases v) (simp add: fromWire_def)
qed

lemma u32_bound: "(ucast (n :: u32) :: u64) \<le> uint_max"
  using unsigned_less [of n, where ?'a = nat] by (simp add: word_le_nat_alt uint_max_def unsigned_ucast_eq take_bit_nat_eq_self)

lemma u32_ucast: "ucast (ucast (n :: u32) :: u64) = n"
  by (intro bit_word_eqI) (auto simp: bit_simps dest: bit_imp_le_length)

lemma sends_u32: "sends (putNum (ucast n)) getU32 n"
  unfolding getU32_def using u32_bound [of n] by (intro sends_tag) (simp_all add: u32_ucast)

lemma fold_res_map: "fold_res f (map g xs) a = fold_res (\<lambda>x. f (g x)) xs a"
  by (induction xs arbitrary: a) (auto intro: bind_res_cong)

lemma fold_res_put:
  "ordered (acc @ map (\<lambda>i. (K i, J i)) m) \<Longrightarrow> (\<And>i a. i \<in> set m \<Longrightarrow> f i a = Inr (map_put (K i) (J i) a)) \<Longrightarrow>
   fold_res f m acc = Inr (acc @ map (\<lambda>i. (K i, J i)) m)"
proof (induction m arbitrary: acc)
  case (Cons i m)
  have "\<forall>k' \<in> fst ` set acc. k' < K i" using Cons.prems(1) by (auto simp: ordered_def sorted_wrt_append)
  then have "f i acc = Inr (acc @ [(K i, J i)])" using Cons.prems(2) by (simp add: map_put_last)
  with Cons.IH [of "acc @ [(K i, J i)]"] Cons.prems show ?case by simp
qed simp

lemma dummyId_prefix: "\<exists>P. CHR ''!'' \<notin> set P \<and> (\<forall>n. dummyId n = Inr (P @ CHR ''!'' # n))"
proof -
  let ?P = "printHashAlgo SHA256 @ '':'' @ base16_encode (hash_bytes hash_dummy)"
  have "hash_wf hash_dummy" by (simp add: hash_wf_def hash_dummy_def regularHashSize_def maxHashSize_def)
  moreover have "algo hash_dummy = SHA256" by (simp add: hash_dummy_def)
  ultimately have "hash_to_string hash_dummy Base16 True = Inr ?P" by (simp add: hash_to_string_wf)
  then have d: "dummyId n = Inr (?P @ CHR ''!'' # n)" for n by (simp add: dummyId_def)
  have "CHR ''!'' \<notin> set base16Chars" by (simp add: base16Chars_def)
  then have "CHR ''!'' \<notin> set (base16_encode bs)" for bs using base16_alphabet by blast
  then have "CHR ''!'' \<notin> set ?P" by (simp add: printHashAlgo_def)
  with d show ?thesis by blast
qed

interpretation str_pairs: wire_map putStr getStr short putStr getStr short
  by unfold_locales (simp_all add: sends_putStr)

text \<open>What an entry needs to be sent to an old peer, and what arrives.\<close>

definition legacy_sendable :: "json_lib \<Rightarrow> string \<times> UnkeyedRealisation \<Rightarrow> bool" where
  "legacy_sendable jl i =
     (path_wf (ur_outPath (snd i)) \<and>
      (\<exists>d j. dummyId (fst i) = Inr d \<and> short d \<and> rj_dump jl d (base (ur_outPath (snd i))) = Inr j \<and> short j \<and>
         rj_outPath jl j = Inr (base (ur_outPath (snd i)))))"

definition unsigned_output :: "string \<times> UnkeyedRealisation \<Rightarrow> string \<times> UnkeyedRealisation" where
  "unsigned_output i = (fst i, UnkeyedRealisation (ur_outPath (snd i)) [])"

lemma sends_legacy_outputs:
  assumes ok: "list_all (legacy_sendable jl) m" and ord: "ordered m" and len: "length m < 2 ^ 64"
  shows "sends (write_legacy_outputs jl m) (read_legacy_outputs jl) (map unsigned_output m)"
proof -
  obtain P where P: "CHR ''!'' \<notin> set P" "\<And>n. dummyId n = Inr (P @ CHR ''!'' # n)" using dummyId_prefix by blast
  define K where "K i = P @ CHR ''!'' # fst i" for i :: "string \<times> UnkeyedRealisation"
  define J where "J i = projr (rj_dump jl (K i) (base (ur_outPath (snd i))))" for i :: "string \<times> UnkeyedRealisation"
  let ?sm = "map (\<lambda>i. (K i, J i)) m"
  have item: "rj_dump jl (K i) (base (ur_outPath (snd i))) = Inr (J i)" "short (K i)" "short (J i)"
    "rj_outPath jl (J i) = Inr (base (ur_outPath (snd i)))" "path_wf (ur_outPath (snd i))" if "i \<in> set m" for i
    using that ok by (auto simp: list_all_iff legacy_sendable_def P(2) K_def J_def)
  have mono: "a @ x < a @ y \<longleftrightarrow> x < y" for a x y :: string by (induction a) simp_all
  have sm: "ordered ?sm"
    using ord by (simp add: ordered_def sorted_wrt_map K_def comp_def mono)
  have w: "fold_res (legacy_entry jl) m [] = Inr ?sm"
    using fold_res_put [of "[]" K J m "legacy_entry jl"] sm item(1) by (simp add: legacy_entry_def P(2) K_def [symmetric])
  have tw: "takeWhile (\<lambda>c. c \<noteq> CHR ''!'') (K i) = P" for i
    using P(1) by (simp add: K_def takeWhile_append)
  have out: "legacy_output jl (K i, J i) a = Inr (map_put (fst i) (UnkeyedRealisation (ur_outPath (snd i)) []) a)"
    if "i \<in> set m" for i a
    using item [OF that] mk_StorePath_wf by (simp add: legacy_output_def Let_def tw) (simp add: K_def)
  have "sends (write_map putStr putStr ?sm) (read_map getStr getStr) ?sm"
    using item(2,3) len sm by (intro str_pairs.sends_map) (auto simp: list_all_iff)
  moreover have "fold_res (legacy_output jl) ?sm [] = Inr (map unsigned_output m)"
  proof -
    have u: "map unsigned_output m = map (\<lambda>i. (fst i, UnkeyedRealisation (ur_outPath (snd i)) [])) m"
      by (simp add: unsigned_output_def)
    have "ordered (map unsigned_output m)" using ord by (simp add: ordered_def u comp_def)
    then show ?thesis
      using fold_res_put [of "[]" fst "\<lambda>i. UnkeyedRealisation (ur_outPath (snd i)) []" m "\<lambda>i. legacy_output jl (K i, J i)"] out
      by (simp add: u fold_res_map)
  qed
  ultimately show ?thesis
    unfolding write_legacy_outputs_def read_legacy_outputs_def w bind_res.simps by (intro sends_lift) simp_all
qed

end
