(* ===== verification/Worker_Protocol.thy ===== *)
theory Worker_Protocol
  imports Protocol_Types Derivation_Wire
begin

text \<open>
  The worker protocol: \<open>src/src/libstore/worker-protocol.cc\<close> and \<open>worker-protocol.hh\<close>, and the
  build-derivation request of \<open>worker-protocol-connection.cc\<close>. Every serialiser takes the negotiated
  version of the connection; \<open>sends_intros\<close> follows its structure.
\<close>

section \<open>Versions\<close>

record Version =
  number :: VersionNumber
  features :: "string list"

datatype ordering = Less | Equivalent | Greater | Unordered

text \<open>\<open>std::includes\<close> on sorted ranges: \<open>xs\<close> includes \<open>ys\<close>.\<close>

definition includes_all :: "string list \<Rightarrow> string list \<Rightarrow> bool" where
  "includes_all xs ys = list_all (\<lambda>y. y \<in> set xs) ys"

definition version_cmp :: "Version \<Rightarrow> Version \<Rightarrow> ordering" where
  "version_cmp v w =
     (let lt = number_less (number v) (number w); gt = number_less (number w) (number v);
          thisSubsetEq = includes_all (features w) (features v);
          otherSubsetEq = includes_all (features v) (features w)
      in if \<not> lt \<and> \<not> gt \<and> thisSubsetEq \<and> otherSubsetEq then Equivalent
         else if \<not> gt \<and> thisSubsetEq then Less
         else if \<not> lt \<and> otherSubsetEq then Greater
         else Unordered)"

definition at_least :: "Version \<Rightarrow> u32 \<Rightarrow> byte \<Rightarrow> bool" where
  "at_least v maj mn =
     (version_cmp v \<lparr>number = VersionNumber maj mn, features = []\<rparr> \<in> {Greater, Equivalent})"

definition featureRealisationWithPath :: string where
  "featureRealisationWithPath = ''realisation-with-path-not-hash''"

definition featureDeleteDeadSpecificReferrers :: string where
  "featureDeleteDeadSpecificReferrers = ''delete-dead-specific-referrers''"

definition latest :: Version where
  "latest = \<lparr>number = VersionNumber 1 38,
     features = [featureDeleteDeadSpecificReferrers, featureRealisationWithPath]\<rparr>"

definition minimum :: Version where "minimum = \<lparr>number = VersionNumber 1 18, features = []\<rparr>"

definition has_feature :: "string \<Rightarrow> Version \<Rightarrow> bool" where "has_feature f v = (f \<in> set (features v))"

section \<open>Enumerations and options\<close>

datatype BuildMode = bmNormal | bmRepair | bmCheck

definition read_BuildMode :: "BuildMode stream" where
  "read_BuildMode =
     bindP (getNum 255) (\<lambda>temp.
       if temp = 0 then retP bmNormal else if temp = 1 then retP bmRepair else if temp = 2 then retP bmCheck
       else throwP Error ''Invalid build mode'')"

definition write_BuildMode :: "BuildMode \<Rightarrow> string res" where
  "write_BuildMode buildMode = (case buildMode of bmNormal \<Rightarrow> putNum 0 | bmRepair \<Rightarrow> putNum 1 | bmCheck \<Rightarrow> putNum 2)"

datatype GCAction = gcReturnLive | gcReturnDead | gcDeleteDead | gcDeleteSpecific

definition read_GCAction :: "GCAction stream" where
  "read_GCAction =
     bindP (getNum uint_max) (\<lambda>temp.
       if temp = 0 then retP gcReturnLive else if temp = 1 then retP gcReturnDead
       else if temp = 2 then retP gcDeleteDead else if temp = 3 then retP gcDeleteSpecific
       else throwP Error ''Invalid GC action'')"

definition write_GCAction :: "GCAction \<Rightarrow> string res" where
  "write_GCAction action =
     (case action of gcReturnLive \<Rightarrow> putNum 0 | gcReturnDead \<Rightarrow> putNum 1 | gcDeleteDead \<Rightarrow> putNum 2
      | gcDeleteSpecific \<Rightarrow> putNum 3)"

datatype TrustedFlag = NotTrusted | Trusted

definition read_opt_TrustedFlag :: "TrustedFlag option stream" where
  "read_opt_TrustedFlag =
     bindP (getNum 255) (\<lambda>temp.
       if temp = 0 then retP None else if temp = 1 then retP (Some Trusted) else if temp = 2 then retP (Some NotTrusted)
       else throwP Error ''Invalid trusted status from remote'')"

definition write_opt_TrustedFlag :: "TrustedFlag option \<Rightarrow> string res" where
  "write_opt_TrustedFlag optTrusted =
     (case optTrusted of None \<Rightarrow> putNum 0 | Some f \<Rightarrow> (case f of Trusted \<Rightarrow> putNum 1 | NotTrusted \<Rightarrow> putNum 2))"

definition read_opt_micros :: "u64 option stream" where
  "read_opt_micros =
     bindP (getNum 255) (\<lambda>tag.
       if tag = 0 then retP None
       else if tag = 1 then bindP (getNum int64_max) (\<lambda>n. retP (Some n))
       else throwP Error ''Invalid optional tag from remote'')"

definition write_opt_micros :: "u64 option \<Rightarrow> string res" where
  "write_opt_micros optDuration =
     (case optDuration of None \<Rightarrow> putNum 0 | Some d \<Rightarrow> seqW [putNum 1, putNum d])"

section \<open>Deriving paths\<close>

definition read_DerivedPath :: "'j StoreDirConfig \<Rightarrow> Version \<Rightarrow> DerivedPath stream" where
  "read_DerivedPath sd v =
     bindP getStr (\<lambda>s.
       if at_least v 1 30 then liftP (dp_parseLegacy sd s)
       else bindP (liftP (parsePathWithOutputs sd s)) (\<lambda>p. liftP (Some (toDerivedPath p))))"

definition write_DerivedPath :: "'j StoreDirConfig \<Rightarrow> Version \<Rightarrow> DerivedPath \<Rightarrow> string res" where
  "write_DerivedPath sd v req =
     (if at_least v 1 30 then putStr (dp_to_string_legacy sd req)
      else
        bind_res (tryFromDerivedPath req) (\<lambda>sOrDrvPath.
          case sOrDrvPath of
            PathWithOutputs s \<Rightarrow> putStr (swo_to_string sd s)
          | DrvPath drvPath \<Rightarrow> Inl (NixError Error
              ''trying to request '%s', but daemon protocol %d.%d is too old (< 1.29) to request a derivation file'')
          | NoResult \<Rightarrow> Inl (NixError Error
              ''wanted to build a derivation that is itself a build product, but protocols do not support that.'')))"

section \<open>Realisations\<close>

definition need_realisations :: "string \<Rightarrow> Version \<Rightarrow> unit res" where
  "need_realisations what v = throw_if (\<not> has_feature featureRealisationWithPath v) Error
     (''the daemon is missing the '%s' protocol feature, needed to '' @ what)"

definition read_UnkeyedRealisation :: "'j StoreDirConfig \<Rightarrow> Version \<Rightarrow> UnkeyedRealisation stream" where
  "read_UnkeyedRealisation sd v =
     bindP (liftP (Some (need_realisations ''understand build trace'' v))) (\<lambda>_.
     bindP (read_StorePath sd) (\<lambda>outPath. bindP (read_set read_Signature) (\<lambda>signatures.
       retP (UnkeyedRealisation outPath signatures))))"

definition write_UnkeyedRealisation :: "'j StoreDirConfig \<Rightarrow> Version \<Rightarrow> UnkeyedRealisation \<Rightarrow> string res" where
  "write_UnkeyedRealisation sd v info =
     bind_res (need_realisations ''understand build trace'' v) (\<lambda>_.
       seqW [write_StorePath sd (ur_outPath info), write_set write_Signature (ur_signatures info)])"

definition read_opt_UnkeyedRealisation :: "'j StoreDirConfig \<Rightarrow> Version \<Rightarrow> UnkeyedRealisation option stream" where
  "read_opt_UnkeyedRealisation sd v =
     (if \<not> has_feature featureRealisationWithPath v then bindP getStr (\<lambda>_. retP None)
      else
        bindP (getNum 255) (\<lambda>temp.
          if temp = 0 then retP None
          else if temp = 1 then bindP (read_UnkeyedRealisation sd v) (\<lambda>r. retP (Some r))
          else throwP Error ''Invalid optional build trace from remote''))"

definition write_opt_UnkeyedRealisation :: "'j StoreDirConfig \<Rightarrow> Version \<Rightarrow> UnkeyedRealisation option \<Rightarrow> string res" where
  "write_opt_UnkeyedRealisation sd v info =
     (case info of None \<Rightarrow> putNum 0 | Some r \<Rightarrow> seqW [putNum 1, write_UnkeyedRealisation sd v r])"

definition read_DrvOutput :: "'j StoreDirConfig \<Rightarrow> Version \<Rightarrow> DrvOutput stream" where
  "read_DrvOutput sd v =
     bindP (liftP (Some (need_realisations ''support content-addressing derivations'' v))) (\<lambda>_.
     bindP (read_StorePath sd) (\<lambda>drvPath. bindP getStr (\<lambda>outputName. retP (DrvOutput drvPath outputName))))"

definition write_DrvOutput :: "'j StoreDirConfig \<Rightarrow> Version \<Rightarrow> DrvOutput \<Rightarrow> string res" where
  "write_DrvOutput sd v info =
     bind_res (need_realisations ''support content-addressing derivations'' v) (\<lambda>_. seqW [write_StorePath sd (do_drvPath info), write_string (do_outputName info)])"

definition read_Realisation :: "'j StoreDirConfig \<Rightarrow> Version \<Rightarrow> Realisation stream" where
  "read_Realisation sd v =
     bindP (read_DrvOutput sd v) (\<lambda>id. bindP (read_UnkeyedRealisation sd v) (\<lambda>unkeyed. retP (Realisation unkeyed id)))"

definition write_Realisation :: "'j StoreDirConfig \<Rightarrow> Version \<Rightarrow> Realisation \<Rightarrow> string res" where
  "write_Realisation sd v info = seqW [write_DrvOutput sd v (r_id info), write_UnkeyedRealisation sd v (r_unkeyed info)]"

section \<open>Build results\<close>

definition read_BuildResult :: "'j StoreDirConfig \<Rightarrow> json_lib \<Rightarrow> Version \<Rightarrow> BuildResult stream" where
  "read_BuildResult sd jl v =
     bindP read_BuildResultStatus (\<lambda>status.
     bindP getStr (\<lambda>errorMsg.
     bindP (if at_least v 1 29
            then bindP getU32 (\<lambda>t. bindP getBool (\<lambda>nd. bindP (getNum int64_max) (\<lambda>st. bindP (getNum int64_max) (\<lambda>sp.
                   retP (t, nd, st, sp)))))
            else retP (0, False, 0, 0)) (\<lambda>(t, isNonDeterministic, st, sp).
     bindP (if at_least v 1 37
            then bindP read_opt_micros (\<lambda>u. bindP read_opt_micros (\<lambda>s. retP (u, s)))
            else retP (None, None)) (\<lambda>(u, s).
     bindP (if has_feature featureRealisationWithPath v then read_map getStr (read_UnkeyedRealisation sd v)
            else if at_least v 1 28 then read_legacy_outputs jl
            else retP []) (\<lambda>builtOutputs.
       retP \<lparr>br_inner = (case status of
               Inl s \<Rightarrow> Success s builtOutputs
             | Inr s \<Rightarrow> Failure s errorMsg isNonDeterministic),
             timesBuilt = t, startTime = st, stopTime = sp, cpuUser = u, cpuSystem = s\<rparr>)))))"

definition write_BuildResult_common ::
    "'j StoreDirConfig \<Rightarrow> json_lib \<Rightarrow> Version \<Rightarrow> BuildResult \<Rightarrow> string \<Rightarrow> bool \<Rightarrow> SingleDrvOutputs \<Rightarrow> string res list" where
  "write_BuildResult_common sd jl v res errorMsg isNonDeterministic builtOutputs =
     [putStr errorMsg,
      if at_least v 1 29
      then seqW [putNum (ucast (timesBuilt res)), putBool isNonDeterministic, putNum (startTime res), putNum (stopTime res)]
      else seqW [],
      if at_least v 1 37 then seqW [write_opt_micros (cpuUser res), write_opt_micros (cpuSystem res)] else seqW [],
      if has_feature featureRealisationWithPath v then write_map putStr (write_UnkeyedRealisation sd v) builtOutputs
      else if at_least v 1 28 then write_legacy_outputs jl builtOutputs
      else seqW []]"

definition write_BuildResult :: "'j StoreDirConfig \<Rightarrow> json_lib \<Rightarrow> Version \<Rightarrow> BuildResult \<Rightarrow> string res" where
  "write_BuildResult sd jl v res =
     (case br_inner res of
        Failure st m nd \<Rightarrow> seqW (write_BuildResultStatus (Inr st) # write_BuildResult_common sd jl v res m nd [])
      | Success st outs \<Rightarrow> seqW (write_BuildResultStatus (Inl st) # write_BuildResult_common sd jl v res [] False outs))"

definition read_KeyedBuildResult :: "'j StoreDirConfig \<Rightarrow> json_lib \<Rightarrow> Version \<Rightarrow> (BuildResult \<times> DerivedPath) stream" where
  "read_KeyedBuildResult sd jl v =
     bindP (read_DerivedPath sd v) (\<lambda>path. bindP (read_BuildResult sd jl v) (\<lambda>br. retP (br, path)))"

definition write_KeyedBuildResult :: "'j StoreDirConfig \<Rightarrow> json_lib \<Rightarrow> Version \<Rightarrow> BuildResult \<times> DerivedPath \<Rightarrow> string res" where
  "write_KeyedBuildResult sd jl v res = seqW [write_DerivedPath sd v (snd res), write_BuildResult sd jl v (fst res)]"

section \<open>Path infos\<close>

definition read_UnkeyedValidPathInfo :: "'j StoreDirConfig \<Rightarrow> Version \<Rightarrow> UnkeyedValidPathInfo stream" where
  "read_UnkeyedValidPathInfo sd v =
     bindP (read_opt_StorePath sd) (\<lambda>deriver.
     bindP (bindP getStr (\<lambda>s. liftP (Some (parseAny (sd_xp sd) s (Some SHA256))))) (\<lambda>narHash.
     bindP (read_set (read_StorePath sd)) (\<lambda>refs.
     bindP (getNum int64_max) (\<lambda>time. bindP (getNum size_max) (\<lambda>size.
     bindP (if at_least v 1 16
            then bindP getBool (\<lambda>u. bindP (read_set read_Signature) (\<lambda>sigs. bindP (read_opt_ContentAddress sd) (\<lambda>ca.
                   retP (u, sigs, ca))))
            else retP (False, [], None)) (\<lambda>(u, sigs, ca).
       retP ((new_UnkeyedValidPathInfo sd narHash)\<lparr>pi_deriver := deriver, pi_references := refs, pi_registrationTime := time,
         pi_narSize := size, pi_ultimate := u, pi_sigs := sigs, pi_ca := ca\<rparr>)))))))"

definition write_UnkeyedValidPathInfo :: "'j StoreDirConfig \<Rightarrow> Version \<Rightarrow> UnkeyedValidPathInfo \<Rightarrow> string res" where
  "write_UnkeyedValidPathInfo sd v i =
     seqW
       [write_opt_StorePath sd (pi_deriver i),
        bind_res (hash_to_string (pi_narHash i) Base16 False) putStr,
        write_set (write_StorePath sd) (pi_references i),
        putNum (pi_registrationTime i), putNum (pi_narSize i),
        if at_least v 1 16
        then seqW [putBool (pi_ultimate i), write_set write_Signature (pi_sigs i), write_opt_ContentAddress sd (pi_ca i)]
        else seqW []]"

definition read_ValidPathInfo :: "'j StoreDirConfig \<Rightarrow> Version \<Rightarrow> (StorePath \<times> UnkeyedValidPathInfo) stream" where
  "read_ValidPathInfo sd v = bindP (read_StorePath sd) (\<lambda>path. bindP (read_UnkeyedValidPathInfo sd v) (\<lambda>i. retP (path, i)))"

definition write_ValidPathInfo :: "'j StoreDirConfig \<Rightarrow> Version \<Rightarrow> StorePath \<times> UnkeyedValidPathInfo \<Rightarrow> string res" where
  "write_ValidPathInfo sd v i = seqW [write_StorePath sd (fst i), write_UnkeyedValidPathInfo sd v (snd i)]"

section \<open>Handshake information and garbage collection requests\<close>

record ClientHandshakeInfo =
  daemonNixVersion :: "string option"
  remoteTrustsUs :: "TrustedFlag option"

definition read_ClientHandshakeInfo :: "Version \<Rightarrow> ClientHandshakeInfo stream" where
  "read_ClientHandshakeInfo v =
     bindP (if at_least v 1 33 then bindP getStr (\<lambda>s. retP (Some s)) else retP None) (\<lambda>n.
     bindP (if at_least v 1 35 then read_opt_TrustedFlag else retP None) (\<lambda>t.
       retP \<lparr>daemonNixVersion = n, remoteTrustsUs = t\<rparr>))"

definition write_ClientHandshakeInfo :: "Version \<Rightarrow> ClientHandshakeInfo \<Rightarrow> string res" where
  "write_ClientHandshakeInfo v i =
     seqW
       [if at_least v 1 33
        then (case daemonNixVersion i of
                Some s \<Rightarrow> putStr s
              | None \<Rightarrow> Inl (NixError AssertionFailure ''assert''))
        else seqW [],
        if at_least v 1 35 then write_opt_TrustedFlag (remoteTrustsUs i) else seqW []]"

datatype GCPaths = WholeStore | SpecificPaths (gc_paths: "StorePath list") (deleteReferrers: bool)

definition read_SpecificPaths :: "'j StoreDirConfig \<Rightarrow> GCPaths stream" where
  "read_SpecificPaths sd =
     bindP (read_set (read_StorePath sd)) (\<lambda>paths. bindP getBool (\<lambda>r. retP (SpecificPaths paths r)))"

definition write_SpecificPaths :: "'j StoreDirConfig \<Rightarrow> StorePath list \<Rightarrow> bool \<Rightarrow> string res" where
  "write_SpecificPaths sd paths r = seqW [write_set (write_StorePath sd) paths, putBool r]"

definition read_GCPaths :: "'j StoreDirConfig \<Rightarrow> GCPaths stream" where
  "read_GCPaths sd =
     bindP (getNum 255) (\<lambda>wholeStore.
       if wholeStore = 0 then read_SpecificPaths sd
       else if wholeStore = 1 then retP WholeStore
       else throwP Error ''Invalid whole store indicator from remote'')"

definition write_GCPaths :: "'j StoreDirConfig \<Rightarrow> GCPaths \<Rightarrow> string res" where
  "write_GCPaths sd gcPaths =
     (case gcPaths of
        SpecificPaths paths r \<Rightarrow> seqW [putNum 0, write_SpecificPaths sd paths r]
      | WholeStore \<Rightarrow> putNum 1)"

section \<open>Versions are ordered by number and features\<close>

lemma number_trichotomy: "number_less a b \<or> a = b \<or> number_less b a"
  by (cases a; cases b) (auto simp: number_less_def)

lemma number_less_irrefl: "\<not> number_less a a" by (simp add: number_less_def)

lemma number_less_trans: "number_less a b \<Longrightarrow> number_less b c \<Longrightarrow> number_less a c"
  by (auto simp: number_less_def)

lemma includes_all_iff [simp]: "includes_all xs ys = (set ys \<subseteq> set xs)"
  by (auto simp: includes_all_def list_all_iff)

text \<open>\<open>v <= w\<close> of the code.\<close>

definition version_le :: "Version \<Rightarrow> Version \<Rightarrow> bool" where
  "version_le v w = (version_cmp v w \<in> {Less, Equivalent})"

lemma version_le_iff: "version_le v w = (\<not> number_less (number w) (number v) \<and> set (features v) \<subseteq> set (features w))"
  by (auto simp: version_le_def version_cmp_def Let_def)

lemma version_ge_iff:
  "(version_cmp v w \<in> {Greater, Equivalent}) = (\<not> number_less (number v) (number w) \<and> set (features w) \<subseteq> set (features v))"
  by (auto simp: version_cmp_def Let_def dest: number_less_trans simp: number_less_irrefl)

lemma at_least_iff: "at_least v maj mn = (\<not> number_less (number v) (VersionNumber maj mn))"
  by (simp add: at_least_def version_ge_iff del: insert_iff)

section \<open>Round trips\<close>

lemma tag_bounds [simp]: "(0 :: u64) \<le> m" "1 \<le> (255 :: u64)" "2 \<le> (255 :: u64)" "1 \<le> uint_max" "2 \<le> uint_max" "3 \<le> uint_max"
  by (simp_all add: uint_max_def)

interpretation build_mode: wire_codec write_BuildMode read_BuildMode "\<lambda>_. True"
proof
  fix x show "sends (write_BuildMode x) read_BuildMode x"
    unfolding write_BuildMode_def read_BuildMode_def by (cases x) (auto intro: sends_tag)
qed

interpretation gc_action: wire_codec write_GCAction read_GCAction "\<lambda>_. True"
proof
  fix x show "sends (write_GCAction x) read_GCAction x"
    unfolding write_GCAction_def read_GCAction_def by (cases x) (auto intro: sends_tag)
qed

interpretation opt_trusted: wire_codec write_opt_TrustedFlag read_opt_TrustedFlag "\<lambda>_. True"
proof
  fix x show "sends (write_opt_TrustedFlag x) read_opt_TrustedFlag x"
    unfolding write_opt_TrustedFlag_def read_opt_TrustedFlag_def
    by (cases x; cases "the x") (auto intro: sends_tag)
qed

interpretation opt_micros: wire_codec write_opt_micros read_opt_micros "opt_all (\<lambda>d. d \<le> int64_max)"
proof
  fix x assume x: "opt_all (\<lambda>d. d \<le> int64_max) x"
  show "sends (write_opt_micros x) read_opt_micros x"
  proof (cases x)
    case (Some d)
    then have "sends (seqW [putNum d]) (bindP (getNum int64_max) (\<lambda>n. retP (Some n))) (Some d)"
      using x by (intro sends_tagged sends_done) simp_all
    then show ?thesis unfolding Some write_opt_micros_def read_opt_micros_def option.case
      by (intro sends_tagged) simp_all
  qed (auto simp: write_opt_micros_def read_opt_micros_def intro: sends_tag)
qed

definition realisation_sendable :: "'j StoreDirConfig \<Rightarrow> Version \<Rightarrow> UnkeyedRealisation \<Rightarrow> bool" where
  "realisation_sendable sd v r =
     (has_feature featureRealisationWithPath v \<and> path_sendable sd (ur_outPath r) \<and> sigs_sendable (ur_signatures r))"

interpretation realisation: wire_codec "write_UnkeyedRealisation sd v" "read_UnkeyedRealisation sd v" "realisation_sendable sd v"
    for sd v
proof
  fix r assume r: "realisation_sendable sd v r"
  then have n: "need_realisations m v = Inr ()" for m by (simp add: need_realisations_def realisation_sendable_def)
  show "sends (write_UnkeyedRealisation sd v r) (read_UnkeyedRealisation sd v) r"
    unfolding write_UnkeyedRealisation_def read_UnkeyedRealisation_def n bind_res.simps bindP_liftP_Inr using r
    by (intro sends_step [OF path_wire.sends_enc] sends_step [OF sig_wire.sends_set] sends_done)
      (simp_all add: realisation_sendable_def sigs_sendable_def)
qed

interpretation opt_realisation: wire_codec "write_opt_UnkeyedRealisation sd v" "read_opt_UnkeyedRealisation sd v"
    "opt_all (realisation_sendable sd v)" for sd v
proof
  fix x assume x: "opt_all (realisation_sendable sd v) x"
  show "sends (write_opt_UnkeyedRealisation sd v x) (read_opt_UnkeyedRealisation sd v) x"
  proof (cases x)
    case None
    show ?thesis
    proof (cases "has_feature featureRealisationWithPath v")
      case True
      then show ?thesis unfolding None write_opt_UnkeyedRealisation_def read_opt_UnkeyedRealisation_def option.case
        by (auto intro: sends_tag)
    next
      case False
      have "putNum 0 = putStr []" by (simp add: putNum_def putStr_def writeString_def writePadding_def)
      with False show ?thesis unfolding None write_opt_UnkeyedRealisation_def read_opt_UnkeyedRealisation_def option.case
        by (auto intro!: sends_bind [OF sends_str])
    qed
  next
    case (Some r)
    with x have r: "realisation_sendable sd v r" by simp
    then have f: "has_feature featureRealisationWithPath v" by (simp add: realisation_sendable_def)
    have "sends (seqW [write_UnkeyedRealisation sd v r]) (bindP (read_UnkeyedRealisation sd v) (\<lambda>r. retP (Some r))) (Some r)"
      by (intro sends_step [OF realisation.sends_enc [OF r]] sends_done) simp
    with f show ?thesis unfolding Some write_opt_UnkeyedRealisation_def read_opt_UnkeyedRealisation_def option.case
      by (auto intro!: sends_tagged)
  qed
qed

definition drv_output_sendable :: "'j StoreDirConfig \<Rightarrow> Version \<Rightarrow> DrvOutput \<Rightarrow> bool" where
  "drv_output_sendable sd v i =
     (has_feature featureRealisationWithPath v \<and> path_sendable sd (do_drvPath i) \<and> short (do_outputName i))"

interpretation drv_output: wire_codec "write_DrvOutput sd v" "read_DrvOutput sd v" "drv_output_sendable sd v" for sd v
proof
  fix i assume i: "drv_output_sendable sd v i"
  then have n: "need_realisations m v = Inr ()" for m by (simp add: need_realisations_def drv_output_sendable_def)
  show "sends (write_DrvOutput sd v i) (read_DrvOutput sd v) i"
    unfolding write_DrvOutput_def read_DrvOutput_def n bind_res.simps bindP_liftP_Inr using i
    by (intro sends_step [OF path_wire.sends_enc] sends_step [OF str_wire.sends_enc] sends_done)
      (simp_all add: drv_output_sendable_def)
qed

interpretation realisations: wire_codec "write_Realisation sd v" "read_Realisation sd v"
    "\<lambda>r. drv_output_sendable sd v (r_id r) \<and> realisation_sendable sd v (r_unkeyed r)" for sd v
proof
  fix r assume "drv_output_sendable sd v (r_id r) \<and> realisation_sendable sd v (r_unkeyed r)"
  then show "sends (write_Realisation sd v r) (read_Realisation sd v) r"
    unfolding write_Realisation_def read_Realisation_def
    by (intro sends_step [OF drv_output.sends_enc] sends_step [OF realisation.sends_enc] sends_done) simp_all
qed

text \<open>Deriving paths: what an old and a new connection can carry.\<close>

lemma tokenize_sep: "tokenizeString (c # s) [c] = tokenizeString s [c]"
  by (subst (1 2) tokenizeString.simps) simp

lemma tokenize_word:
  "x \<noteq> [] \<Longrightarrow> c \<notin> set x \<Longrightarrow> t = [] \<or> hd t = c \<Longrightarrow> tokenizeString (x @ t) [c] = x # tokenizeString t [c]"
proof -
  assume a: "x \<noteq> []" "c \<notin> set x" "t = [] \<or> hd t = c"
  then obtain d ds where x: "x = d # ds" "d \<noteq> c" by (cases x) auto
  have drop: "dropWhile (\<lambda>c'. c' \<in> set [c]) (x @ t) = d # ds @ t" using x by simp
  have "takeWhile (\<lambda>c'. c' \<notin> set [c]) (d # ds @ t) = x" "dropWhile (\<lambda>c'. c' \<notin> set [c]) (d # ds @ t) = t"
    using a x by (cases t; auto simp: takeWhile_append dropWhile_append)+
  then show ?thesis by (subst tokenizeString.simps) (simp only: drop list.case)
qed

lemma tokenize_concat:
  "(\<And>x. x \<in> set xs \<Longrightarrow> x \<noteq> [] \<and> c \<notin> set x) \<Longrightarrow> tokenizeString (concatStringsSep [c] xs) [c] = xs"
proof (induction xs)
  case Nil
  then show ?case by (subst tokenizeString.simps) simp
next
  case (Cons x xs)
  show ?case
  proof (cases xs)
    case Nil
    then show ?thesis using Cons.prems [of x] tokenize_word [of x c "[]"] by (simp add: tokenizeString.simps [of "[]"])
  next
    case (Cons y ys)
    have "tokenizeString (x @ c # concatStringsSep [c] xs) [c] = x # tokenizeString (c # concatStringsSep [c] xs) [c]"
      using Cons.prems [of x] by (intro tokenize_word) auto
    then show ?thesis using Cons.IH Cons.prems by (simp add: Cons tokenize_sep)
  qed
qed

definition derived_path_sendable :: "'j StoreDirConfig \<Rightarrow> Version \<Rightarrow> DerivedPath \<Rightarrow> bool" where
  "derived_path_sendable sd v p =
     (dp_ok sd p \<and>
      (if at_least v 1 30
       then short (dp_to_string_legacy sd p) \<and> (case p of Built (SBuilt (SBuilt d a) b) outs \<Rightarrow> False | _ \<Rightarrow> True)
       else (case p of
               Opaque q \<Rightarrow> isDerivation q = Inr False \<and> short (printStorePath (sd_dir sd) q)
             | Built (SOpaque q) All \<Rightarrow> isDerivation q = Inr True \<and> short (printStorePath (sd_dir sd) q)
             | Built (SOpaque q) (Names ns) \<Rightarrow> short (swo_to_string sd (StorePathWithOutputs q ns))
             | _ \<Rightarrow> False)))"

lemma print_no_bang: "sdp_ok sd (SOpaque q) \<Longrightarrow> CHR ''!'' \<notin> set (printStorePath (sd_dir sd) q)"
  using print_chars by blast

lemma legacy_opaque:
  assumes "sdp_ok sd (SOpaque q)"
  shows "parseWithSingle sd (CHR ''!'') (printStorePath (sd_dir sd) q) = Some (Inr (SOpaque q))"
  using assms print_no_bang [OF assms] parse_print_path [of "sd_dir sd" q]
  by (subst parseWithSingle.simps) (simp add: rfind_none)

lemma legacy_round:
  assumes "dp_ok sd p" "case p of Built (SBuilt (SBuilt d a) b) outs \<Rightarrow> False | _ \<Rightarrow> True"
  shows "dp_parseLegacy sd (dp_to_string_legacy sd p) = Some (Inr p)"
proof (cases p)
  case (Opaque q)
  then show ?thesis
    using assms(1) print_no_bang [of sd q] parse_print_path [of "sd_dir sd" q]
    by (simp add: dp_parseLegacy_def parseWith_def dp_to_string_legacy_def rfind_none)
next
  case (Built d outs)
  have o: "spec_parse (spec_to_string outs) = Inr outs" "CHR ''!'' \<notin> set (spec_to_string outs)"
    using assms(1) Built spec_round spec_string_chars [of outs "CHR ''!''"] by simp_all
  have x: "drvRequireExperiment sd d = Inr ()"
    using assms(1) Built by (auto simp: drvRequireExperiment_def require_enabled split: SingleDerivedPath.splits)
  have "parseWithSingle sd (CHR ''!'') (sdp_to_string_legacy sd d) = Some (Inr d)"
  proof (cases d)
    case (SOpaque q)
    then show ?thesis using assms(1) Built legacy_opaque [of sd q] by (simp add: sdp_to_string_legacy_def)
  next
    case (SBuilt e b)
    then obtain q where q: "e = SOpaque q" using assms(2) Built by (cases e) auto
    have ok: "sdp_ok sd (SOpaque q)" "CHR ''!'' \<notin> set b" using assms(1) Built SBuilt q by auto
    show ?thesis
      unfolding SBuilt q sdp_to_string_legacy_def SingleDerivedPath.case sdp_to_string.simps append_Cons append_Nil
      by (subst parseWithSingle.simps)
        (simp add: rfind_last [OF ok(2)] legacy_opaque [OF ok(1)] drvRequireExperiment_def del: sdp_ok.simps)
  qed
  then show ?thesis
    using o x by (simp add: Built dp_parseLegacy_def parseWith_def dp_to_string_legacy_def rfind_last)
qed

lemma old_round:
  assumes "sdp_ok sd (SOpaque q)" "ns = [] \<or> spec_ok (Names ns)"
  shows "parsePathWithOutputs sd (swo_to_string sd (StorePathWithOutputs q ns)) = Some (Inr (StorePathWithOutputs q ns))"
proof -
  have b: "CHR ''!'' \<notin> set (printStorePath (sd_dir sd) q)" using print_no_bang [OF assms(1)] .
  then have tw: "takeWhile (\<lambda>c. c \<noteq> CHR ''!'') (printStorePath (sd_dir sd) q @ CHR ''!'' # t) = printStorePath (sd_dir sd) q"
    "takeWhile (\<lambda>c. c \<noteq> CHR ''!'') (printStorePath (sd_dir sd) q) = printStorePath (sd_dir sd) q" for t
    by (auto simp: takeWhile_append takeWhile_eq_all_conv)
  have p: "parseStorePath (sd_dir sd) (printStorePath (sd_dir sd) q) = Some (Inr q)"
    using assms(1) by (simp add: parse_print_path)
  show ?thesis
  proof (cases "ns = []")
    case True
    then show ?thesis using p by (simp add: tw parsePathWithOutputs_def split_path_outputs_def swo_to_string_def Let_def)
  next
    case False
    with assms(2) have ns: "sorted_wrt (<) ns" "list_all (\<lambda>n. checkName n = Inr ()) ns" by (simp_all add: spec_ok_def)
    have "n \<noteq> [] \<and> CHR '','' \<notin> set n" if "n \<in> set ns" for n
      using that ns(2) checkName_chars [of n] by (auto simp: list_all_iff)
    then have "tokenizeString (concatStringsSep '','' ns) '','' = ns" using tokenize_concat [of ns "CHR '',''"] by simp
    moreover have "fold set_put ns [] = ns" using ns(1) by (metis append_Nil fold_set_put)
    ultimately show ?thesis using False tw p
      by (simp add: parsePathWithOutputs_def split_path_outputs_def swo_to_string_def Let_def)
  qed
qed

interpretation derived_path: wire_codec "write_DerivedPath sd v" "read_DerivedPath sd v" "derived_path_sendable sd v" for sd v
proof
  fix p assume p: "derived_path_sendable sd v p"
  show "sends (write_DerivedPath sd v p) (read_DerivedPath sd v) p"
  proof (cases "at_least v 1 30")
    case True
    then show ?thesis
      using p by (auto simp: write_DerivedPath_def read_DerivedPath_def derived_path_sendable_def
          intro!: sends_lift sends_putStr legacy_round)
  next
    case False
    then consider (opaque) q where "p = Opaque q" "isDerivation q = Inr False" "short (printStorePath (sd_dir sd) q)"
        "sdp_ok sd (SOpaque q)"
      | (all) q where "p = Built (SOpaque q) All" "isDerivation q = Inr True" "short (printStorePath (sd_dir sd) q)"
        "sdp_ok sd (SOpaque q)"
      | (names) q ns where "p = Built (SOpaque q) (Names ns)" "short (swo_to_string sd (StorePathWithOutputs q ns))"
        "sdp_ok sd (SOpaque q)" "spec_ok (Names ns)"
      using p by (auto simp: derived_path_sendable_def split: DerivedPath.splits SingleDerivedPath.splits OutputsSpec.splits)
    then obtain q ns where q: "sdp_ok sd (SOpaque q)" "ns = [] \<or> spec_ok (Names ns)"
      "tryFromDerivedPath p = Inr (PathWithOutputs (StorePathWithOutputs q ns))"
      "toDerivedPath (StorePathWithOutputs q ns) = Inr p" "short (swo_to_string sd (StorePathWithOutputs q ns))"
    proof cases
      case opaque
      then show thesis by (intro that [of q "[]"]) (simp_all add: tryFromDerivedPath_def toDerivedPath_def swo_to_string_def)
    next
      case all
      then show thesis by (intro that [of q "[]"]) (simp_all add: tryFromDerivedPath_def toDerivedPath_def swo_to_string_def)
    next
      case names
      then show thesis
        by (intro that [of q ns]) (auto simp: tryFromDerivedPath_def toDerivedPath_def mk_Names_def spec_ok_def)
    qed
    show ?thesis
      unfolding write_DerivedPath_def read_DerivedPath_def q(3) bind_res.simps ParseResult.case using False
      by (auto intro!: sends_bind [OF sends_putStr [OF q(5)]] simp: old_round [OF q(1,2)] q(4) liftP_def retP_def bindP_def)
  qed
qed

text \<open>What arrives of a build result: old connections drop fields, and \<open>HashMismatch\<close> is not sent.\<close>

definition received_outputs :: "Version \<Rightarrow> SingleDrvOutputs \<Rightarrow> SingleDrvOutputs" where
  "received_outputs v outs =
     (if has_feature featureRealisationWithPath v then outs
      else if at_least v 1 28 then map unsigned_output outs
      else [])"

definition received_result :: "Version \<Rightarrow> BuildResult \<Rightarrow> BuildResult" where
  "received_result v r =
     \<lparr>br_inner = (case br_inner r of
         Success st outs \<Rightarrow> Success st (received_outputs v outs)
       | Failure st m nd \<Rightarrow> Failure (if st = HashMismatch then OutputRejected else st) m (at_least v 1 29 \<and> nd)),
      timesBuilt = (if at_least v 1 29 then timesBuilt r else 0),
      startTime = (if at_least v 1 29 then startTime r else 0),
      stopTime = (if at_least v 1 29 then stopTime r else 0),
      cpuUser = (if at_least v 1 37 then cpuUser r else None),
      cpuSystem = (if at_least v 1 37 then cpuSystem r else None)\<rparr>"

definition outputs_sendable :: "'j StoreDirConfig \<Rightarrow> json_lib \<Rightarrow> Version \<Rightarrow> SingleDrvOutputs \<Rightarrow> bool" where
  "outputs_sendable sd jl v outs =
     (ordered outs \<and> length outs < 2 ^ 64 \<and>
      (if has_feature featureRealisationWithPath v then list_all (\<lambda>(n, r). short n \<and> realisation_sendable sd v r) outs
       else at_least v 1 28 \<longrightarrow> list_all (legacy_sendable jl) outs))"

definition result_sendable :: "'j StoreDirConfig \<Rightarrow> json_lib \<Rightarrow> Version \<Rightarrow> BuildResult \<Rightarrow> bool" where
  "result_sendable sd jl v r =
     ((case br_inner r of Success st outs \<Rightarrow> outputs_sendable sd jl v outs | Failure st m nd \<Rightarrow> short m) \<and>
      startTime r \<le> int64_max \<and> stopTime r \<le> int64_max \<and>
      opt_all (\<lambda>d. d \<le> int64_max) (cpuUser r) \<and> opt_all (\<lambda>d. d \<le> int64_max) (cpuSystem r))"

interpretation outputs: wire_map putStr getStr short "write_UnkeyedRealisation sd v" "read_UnkeyedRealisation sd v"
    "realisation_sendable sd v" for sd v
  by unfold_locales (simp_all add: sends_putStr realisation.sends_enc)

lemma sends_outputs:
  assumes "outputs_sendable sd jl v outs"
  shows "sends
     (if has_feature featureRealisationWithPath v then write_map putStr (write_UnkeyedRealisation sd v) outs
      else if at_least v 1 28 then write_legacy_outputs jl outs else seqW [])
     (if has_feature featureRealisationWithPath v then read_map getStr (read_UnkeyedRealisation sd v)
      else if at_least v 1 28 then read_legacy_outputs jl else retP [])
     (received_outputs v outs)"
  using assms
  by (auto simp: outputs_sendable_def received_outputs_def sends_nil intro!: outputs.sends_map sends_legacy_outputs)

lemma sends_common:
  assumes "result_sendable sd jl v r" "short m" "outputs_sendable sd jl v outs" "sends w read_BuildResultStatus st"
  shows "sends (seqW (w # write_BuildResult_common sd jl v r m nd outs)) (read_BuildResult sd jl v)
     ((received_result v r)\<lparr>br_inner := (case st of
        Inl s \<Rightarrow> Success s (received_outputs v outs)
      | Inr s \<Rightarrow> Failure s m (at_least v 1 29 \<and> nd))\<rparr>)"
proof -
  have a: "sends (if at_least v 1 29
        then seqW [putNum (ucast (timesBuilt r)), putBool nd, putNum (startTime r), putNum (stopTime r)] else seqW [])
      (if at_least v 1 29
        then bindP getU32 (\<lambda>t. bindP getBool (\<lambda>nd. bindP (getNum int64_max) (\<lambda>st. bindP (getNum int64_max) (\<lambda>sp.
                   retP (t, nd, st, sp)))))
        else retP (0, False, 0, 0))
      (if at_least v 1 29 then (timesBuilt r, nd, startTime r, stopTime r) else (0, False, 0, 0))"
    using assms(1) unfolding result_sendable_def
    by (intro sends_opt sends_step [OF sends_u32] sends_step [OF sends_bool] sends_step [OF sends_num] sends_done) simp_all
  have c: "sends (if at_least v 1 37 then seqW [write_opt_micros (cpuUser r), write_opt_micros (cpuSystem r)] else seqW [])
      (if at_least v 1 37 then bindP read_opt_micros (\<lambda>u. bindP read_opt_micros (\<lambda>s. retP (u, s))) else retP (None, None))
      (if at_least v 1 37 then (cpuUser r, cpuSystem r) else (None, None))"
    using assms(1) unfolding result_sendable_def
    by (intro sends_opt sends_step [OF opt_micros.sends_enc] sends_done) simp_all
  show ?thesis
    unfolding write_BuildResult_common_def read_BuildResult_def case_prod_unfold
    by (intro sends_step [OF assms(4)] sends_step [OF sends_putStr [OF assms(2)]] sends_step [OF a] sends_step [OF c]
        sends_step [OF sends_outputs [OF assms(3)]] sends_done)
      (simp add: received_result_def split: sum.splits)
qed

lemma sends_result:
  assumes r: "result_sendable sd jl v r"
  shows "sends (write_BuildResult sd jl v r) (read_BuildResult sd jl v) (received_result v r)"
proof (cases "br_inner r")
  case (Success st outs)
  then have "outputs_sendable sd jl v outs" "short []" using r by (simp_all add: result_sendable_def short_def)
  from sends_common [OF r this(2,1), of "write_BuildResultStatus (Inl st)" "Inl st" False] sends_status [of "Inl st"]
  show ?thesis by (simp add: Success write_BuildResult_def) (simp add: received_result_def Success)
next
  case (Failure st m nd)
  then have "outputs_sendable sd jl v []" "short m" using r by (simp_all add: result_sendable_def outputs_sendable_def)
  from sends_common [OF r this(2,1), of "write_BuildResultStatus (Inr st)" "if st = HashMismatch then Inr OutputRejected else Inr st" nd]
    sends_status [of "Inr st"]
  show ?thesis by (simp add: Failure write_BuildResult_def split: if_splits) (simp_all add: received_result_def Failure)
qed

interpretation keyed_result: wire_codec "write_KeyedBuildResult sd jl v"
    "read_KeyedBuildResult sd jl v" "\<lambda>(r, p). result_sendable sd jl v r \<and> received_result v r = r \<and> derived_path_sendable sd v p"
    for sd jl v
proof
  fix x assume x: "case x of (r, p) \<Rightarrow> result_sendable sd jl v r \<and> received_result v r = r \<and> derived_path_sendable sd v p"
  obtain r p where rp: "x = (r, p)" by (cases x)
  have r: "sends (write_BuildResult sd jl v r) (read_BuildResult sd jl v) r"
    using x sends_result [of sd jl v r] by (simp add: rp)
  show "sends (write_KeyedBuildResult sd jl v x) (read_KeyedBuildResult sd jl v) x"
    unfolding write_KeyedBuildResult_def read_KeyedBuildResult_def rp fst_conv snd_conv using x
    by (intro sends_step [OF derived_path.sends_enc] sends_step [OF r] sends_done) (simp_all add: rp)
qed

text \<open>Path infos.\<close>

lemma parseAny_base16:
  assumes "hash_wf h" "algo_enabled xp (algo h)"
  shows "parseAny xp (base16_encode (hash_bytes h)) (Some (algo h)) = Inr h"
proof -
  have "CHR ''-'' \<notin> set base16Chars" by (simp add: base16Chars_def)
  then have c: "CHR '':'' \<notin> set (base16_encode bs)" "CHR ''-'' \<notin> set (base16_encode bs)" for bs
    using base16_no_colon base16_alphabet by blast+
  show ?thesis
    using parseLowLevel_ok [OF assms] hash_bytes_len [OF assms(1)]
    by (simp add: parseAny_def parseAnyReturningFormat_def parseAnyHelper_def splitPrefixTo_None c
        baseFromSize_encode baseExplicit_def base16_roundtrip)
qed

definition info_sendable :: "'j StoreDirConfig \<Rightarrow> UnkeyedValidPathInfo \<Rightarrow> bool" where
  "info_sendable sd i =
     (pi_storeDir i = sd_dir sd \<and> pi_id i = 0 \<and> opt_all (path_sendable sd) (pi_deriver i) \<and>
      hash_wf (pi_narHash i) \<and> algo (pi_narHash i) = SHA256 \<and> paths_sendable sd (pi_references i) \<and>
      pi_registrationTime i \<le> int64_max \<and> sigs_sendable (pi_sigs i) \<and> opt_all (ca_sendable sd) (pi_ca i))"

definition received_info :: "Version \<Rightarrow> UnkeyedValidPathInfo \<Rightarrow> UnkeyedValidPathInfo" where
  "received_info v i = (if at_least v 1 16 then i else i\<lparr>pi_ultimate := False, pi_sigs := [], pi_ca := None\<rparr>)"

lemma sends_hash16:
  assumes "hash_wf h" "algo h = SHA256"
  shows "sends (bind_res (hash_to_string h Base16 False) putStr)
    (bindP getStr (\<lambda>s. liftP (Some (parseAny xp s (Some SHA256))))) h"
proof -
  have "length (hash_bytes h) = 32" using assms by (simp add: hash_bytes_len regularHashSize_def)
  then have "short (base16_encode (hash_bytes h))" by (simp add: short_def base16_encodedLength_def)
  moreover have "parseAny xp (base16_encode (hash_bytes h)) (Some SHA256) = Inr h"
    using parseAny_base16 [of h xp] assms by (simp add: algo_enabled_def)
  ultimately show ?thesis
    using assms by (simp add: hash_to_string_wf sends_lift [OF sends_putStr])
qed

lemma sends_info:
  assumes "info_sendable sd i"
  shows "sends (write_UnkeyedValidPathInfo sd v i) (read_UnkeyedValidPathInfo sd v) (received_info v i)"
proof -
  have a: "sends (if at_least v 1 16
        then seqW [putBool (pi_ultimate i), write_set write_Signature (pi_sigs i), write_opt_ContentAddress sd (pi_ca i)]
        else seqW [])
      (if at_least v 1 16
       then bindP getBool (\<lambda>u. bindP (read_set read_Signature) (\<lambda>sigs. bindP (read_opt_ContentAddress sd) (\<lambda>ca. retP (u, sigs, ca))))
       else retP (False, [], None))
      (if at_least v 1 16 then (pi_ultimate i, pi_sigs i, pi_ca i) else (False, [], None))"
    using assms unfolding info_sendable_def sigs_sendable_def
    by (intro sends_opt sends_step [OF sends_bool] sends_step [OF sig_wire.sends_set] sends_step [OF opt_ca_wire.sends_enc] sends_done)
      simp_all
  have h: "hash_wf (pi_narHash i)" "algo (pi_narHash i) = SHA256" using assms by (simp_all add: info_sendable_def)
  show ?thesis
    unfolding write_UnkeyedValidPathInfo_def read_UnkeyedValidPathInfo_def case_prod_unfold using assms
    by (intro sends_step [OF opt_path_wire.sends_enc] sends_step [OF sends_hash16 [OF h]] sends_step [OF path_wire.sends_set]
        sends_step [OF sends_num] sends_step [OF a] sends_done)
      (auto simp: info_sendable_def paths_sendable_def new_UnkeyedValidPathInfo_def received_info_def)
qed

interpretation valid_info: wire_codec "write_ValidPathInfo sd v" "read_ValidPathInfo sd v"
    "\<lambda>(p, i). path_sendable sd p \<and> info_sendable sd i \<and> received_info v i = i" for sd v
proof
  fix x assume x: "case x of (p, i) \<Rightarrow> path_sendable sd p \<and> info_sendable sd i \<and> received_info v i = i"
  obtain p i where pi: "x = (p, i)" by (cases x)
  have i: "sends (write_UnkeyedValidPathInfo sd v i) (read_UnkeyedValidPathInfo sd v) i"
    using x sends_info [of sd i v] by (simp add: pi)
  show "sends (write_ValidPathInfo sd v x) (read_ValidPathInfo sd v) x"
    unfolding write_ValidPathInfo_def read_ValidPathInfo_def pi fst_conv snd_conv using x
    by (intro sends_step [OF path_wire.sends_enc] sends_step [OF i] sends_done) (simp_all add: pi)
qed

text \<open>The rest of the handshake, and garbage collection requests.\<close>

definition received_handshake :: "Version \<Rightarrow> ClientHandshakeInfo \<Rightarrow> ClientHandshakeInfo" where
  "received_handshake v i =
     \<lparr>daemonNixVersion = (if at_least v 1 33 then daemonNixVersion i else None),
      remoteTrustsUs = (if at_least v 1 35 then remoteTrustsUs i else None)\<rparr>"

lemma sends_handshake_info:
  assumes "at_least v 1 33 \<Longrightarrow> \<exists>n. daemonNixVersion i = Some n \<and> short n"
  shows "sends (write_ClientHandshakeInfo v i) (read_ClientHandshakeInfo v) (received_handshake v i)"
proof -
  have a: "sends (if at_least v 1 33
        then (case daemonNixVersion i of Some s \<Rightarrow> putStr s | None \<Rightarrow> Inl (NixError AssertionFailure ''assert'')) else seqW [])
      (if at_least v 1 33 then bindP getStr (\<lambda>s. retP (Some s)) else retP None)
      (if at_least v 1 33 then daemonNixVersion i else None)"
    using assms by (intro sends_opt) (auto intro!: sends_bind [OF sends_putStr])
  have b: "sends (if at_least v 1 35 then write_opt_TrustedFlag (remoteTrustsUs i) else seqW [])
      (if at_least v 1 35 then read_opt_TrustedFlag else retP None)
      (if at_least v 1 35 then remoteTrustsUs i else None)"
    by (intro sends_opt opt_trusted.sends_enc) simp
  show ?thesis
    unfolding write_ClientHandshakeInfo_def read_ClientHandshakeInfo_def
    by (intro sends_step [OF a] sends_step [OF b] sends_done) (simp add: received_handshake_def)
qed

interpretation gc_request: wire_codec "write_GCPaths sd" "read_GCPaths sd"
    "\<lambda>g. case g of WholeStore \<Rightarrow> True | SpecificPaths ps r \<Rightarrow> paths_sendable sd ps" for sd
proof
  fix g assume g: "case g of WholeStore \<Rightarrow> True | SpecificPaths ps r \<Rightarrow> paths_sendable sd ps"
  show "sends (write_GCPaths sd g) (read_GCPaths sd) g"
  proof (cases g)
    case WholeStore
    then show ?thesis unfolding write_GCPaths_def read_GCPaths_def by (auto intro: sends_tag)
  next
    case (SpecificPaths ps r)
    have "sends (write_SpecificPaths sd ps r) (read_SpecificPaths sd) g"
      unfolding write_SpecificPaths_def read_SpecificPaths_def using g
      by (intro sends_step [OF path_wire.sends_set] sends_step [OF sends_bool] sends_done)
        (simp_all add: SpecificPaths paths_sendable_def)
    then show ?thesis unfolding write_GCPaths_def read_GCPaths_def SpecificPaths GCPaths.case
      by (intro sends_tagged) (simp_all add: sends_only)
  qed
qed

section \<open>Properties\<close>

definition example_json :: json_lib where
  "example_json = \<lparr>rj_dump = (\<lambda>d p. Inr p), rj_outPath = Inr\<rparr>"

definition example_result :: BuildResult where
  "example_result =
     \<lparr>br_inner = Success Substituted [(''dev'', UnkeyedRealisation example_path [Signature ''k'' ''s'']),
        (''out'', UnkeyedRealisation example_path [])],
      timesBuilt = 1, startTime = 5, stopTime = 7, cpuUser = Some 3, cpuSystem = None\<rparr>"

lemma example_path_sendable: "path_sendable example_config example_path"
proof -
  have "dir_ok (sd_dir example_config)" using example_ok by (simp add: derivation_ok_def)
  then show ?thesis using example_path_wf
    by (simp add: path_sendable_def short_def printStorePath_def example_path_def example_config_def rend_root_def rend_def)
qed

lemma example_sig_sendable: "sig_sendable (Signature ''k'' ''s'')"
  by (simp add: sig_sendable_def short_def signature_to_string_def serializeColonBase64_def length_base64_encode base64_encodedLength_def)

lemma example_result_sendable: "result_sendable example_config example_json latest example_result"
proof -
  have "has_feature featureRealisationWithPath latest" by (simp add: has_feature_def latest_def)
  then show ?thesis
    using example_path_sendable example_sig_sendable
    by (simp add: result_sendable_def example_result_def outputs_sendable_def realisation_sendable_def sigs_sendable_def
        short_def int64_max_def less_char_def)
qed

text \<open>C9: a build result that is sent over a worker connection of any version arrives as
  \<open>received_result\<close> says, and the reader leaves what follows: everything for new versions; for old
  versions without the times, the signatures or the build outputs; a hash mismatch as a rejected output.\<close>

theorem worker_build_result:
  assumes "result_sendable sd jl v r"
  shows "\<exists>w. write_BuildResult sd jl v r = Inr w \<and>
    (\<forall>s. read_BuildResult sd jl v (w @ s) = Some (Inr (received_result v r, s)))"
  using sends_result [OF assms] unfolding sends_def .

theorem worker_build_result_witness:
  "\<exists>w. write_BuildResult example_config example_json latest example_result = Inr w \<and>
     read_BuildResult example_config example_json latest (w @ ''next'') = Some (Inr (example_result, ''next''))"
proof -
  have "at_least latest 1 29" "at_least latest 1 37"
    by (simp_all add: at_least_iff latest_def number_less_def)
  then have "received_result latest example_result = example_result"
    by (simp add: received_result_def example_result_def received_outputs_def has_feature_def latest_def)
  with worker_build_result [OF example_result_sendable] show ?thesis by auto
qed

end
