(* ===== verification/Serve_Protocol.thy ===== *)
theory Serve_Protocol
  imports Protocol_Types
begin

text \<open>
  The serialisers of the serve protocol (\<open>src/src/libstore/serve-protocol.cc\<close>,
  \<open>serve-protocol.hh\<close>), which \<open>ssh://\<close> stores speak. A version is a \<open>VersionNumber\<close>; every
  field that depends on it depends on it here.
\<close>

section \<open>Versions and options\<close>

text \<open>\<open>conn.version >= ServeProto::Version{2, n}\<close>.\<close>

definition serve_ge :: "VersionNumber \<Rightarrow> byte \<Rightarrow> bool" where
  "serve_ge v n = (\<not> number_less v (VersionNumber 2 n))"

definition serve_latest :: VersionNumber where "serve_latest = VersionNumber 2 8"

record BuildOptions =
  maxSilentTime :: u64
  buildTimeout :: u64
  maxLogSize :: u64
  nrRepeats :: u64
  enforceDeterminism :: bool
  keepFailed :: bool

text \<open>Every member is initialised with \<open>-1\<close>.\<close>

definition default_options :: BuildOptions where
  "default_options =
     \<lparr>maxSilentTime = -1, buildTimeout = -1, maxLogSize = -1, nrRepeats = -1, enforceDeterminism = True, keepFailed = True\<rparr>"

definition serve_read_BuildOptions :: "VersionNumber \<Rightarrow> BuildOptions stream" where
  "serve_read_BuildOptions v =
     bindP (getNum uint_max) (\<lambda>silent. bindP (getNum uint_max) (\<lambda>timeout.
     bindP (if serve_ge v 2 then getNum size_max else retP (maxLogSize default_options)) (\<lambda>logSize.
     bindP (if serve_ge v 3
            then bindP (getNum uint_max) (\<lambda>n. bindP (getNum uint_max) (\<lambda>d. retP (n, d \<noteq> 0)))
            else retP (nrRepeats default_options, enforceDeterminism default_options)) (\<lambda>(repeats, det).
     bindP (if serve_ge v 7 then bindP (getNum uint_max) (\<lambda>k. retP (k \<noteq> 0)) else retP (keepFailed default_options)) (\<lambda>keep.
       retP \<lparr>maxSilentTime = silent, buildTimeout = timeout, maxLogSize = logSize, nrRepeats = repeats,
             enforceDeterminism = det, keepFailed = keep\<rparr>)))))"

definition serve_write_BuildOptions :: "VersionNumber \<Rightarrow> BuildOptions \<Rightarrow> string res" where
  "serve_write_BuildOptions v options =
     seqW
       [putNum (maxSilentTime options), putNum (buildTimeout options),
        if serve_ge v 2 then putNum (maxLogSize options) else seqW [],
        if serve_ge v 3 then seqW [putNum (nrRepeats options), putBool (enforceDeterminism options)] else seqW [],
        if serve_ge v 7 then putNum (if keepFailed options then 1 else 0) else seqW []]"

section \<open>Realisations\<close>

definition serve_need_realisations :: "VersionNumber \<Rightarrow> unit res" where
  "serve_need_realisations v = throw_if (number_less v (VersionNumber 2 8)) Error
     ''serve protocol %d.%d is too old (< 2.8) to support content-addressing derivations''"

definition serve_read_UnkeyedRealisation :: "'j StoreDirConfig \<Rightarrow> VersionNumber \<Rightarrow> UnkeyedRealisation stream" where
  "serve_read_UnkeyedRealisation sd v =
     bindP (liftP (Some (serve_need_realisations v))) (\<lambda>_.
     bindP (read_StorePath sd) (\<lambda>outPath. bindP (read_set read_Signature) (\<lambda>signatures.
       retP (UnkeyedRealisation outPath signatures))))"

definition serve_write_UnkeyedRealisation :: "'j StoreDirConfig \<Rightarrow> VersionNumber \<Rightarrow> UnkeyedRealisation \<Rightarrow> string res" where
  "serve_write_UnkeyedRealisation sd v info =
     bind_res (serve_need_realisations v) (\<lambda>_.
       seqW [write_StorePath sd (ur_outPath info), write_set write_Signature (ur_signatures info)])"

definition serve_read_DrvOutput :: "'j StoreDirConfig \<Rightarrow> VersionNumber \<Rightarrow> DrvOutput stream" where
  "serve_read_DrvOutput sd v =
     bindP (liftP (Some (serve_need_realisations v))) (\<lambda>_.
     bindP (read_StorePath sd) (\<lambda>drvPath. bindP getStr (\<lambda>outputName. retP (DrvOutput drvPath outputName))))"

definition serve_write_DrvOutput :: "'j StoreDirConfig \<Rightarrow> VersionNumber \<Rightarrow> DrvOutput \<Rightarrow> string res" where
  "serve_write_DrvOutput sd v info =
     bind_res (serve_need_realisations v) (\<lambda>_. seqW [write_StorePath sd (do_drvPath info), write_string (do_outputName info)])"

definition serve_read_Realisation :: "'j StoreDirConfig \<Rightarrow> VersionNumber \<Rightarrow> Realisation stream" where
  "serve_read_Realisation sd v =
     bindP (serve_read_DrvOutput sd v) (\<lambda>id.
     bindP (serve_read_UnkeyedRealisation sd v) (\<lambda>unkeyed. retP (Realisation unkeyed id)))"

definition serve_write_Realisation :: "'j StoreDirConfig \<Rightarrow> VersionNumber \<Rightarrow> Realisation \<Rightarrow> string res" where
  "serve_write_Realisation sd v info =
     seqW [serve_write_DrvOutput sd v (r_id info), serve_write_UnkeyedRealisation sd v (r_unkeyed info)]"

section \<open>Build results\<close>

definition serve_read_BuildResult :: "'j StoreDirConfig \<Rightarrow> json_lib \<Rightarrow> VersionNumber \<Rightarrow> BuildResult stream" where
  "serve_read_BuildResult sd jl v =
     bindP read_BuildResultStatus (\<lambda>status.
     bindP getStr (\<lambda>errorMsg.
     bindP (if serve_ge v 3
            then bindP getU32 (\<lambda>t. bindP getBool (\<lambda>nd. bindP (getNum int64_max) (\<lambda>st. bindP (getNum int64_max) (\<lambda>sp.
                   retP (t, nd, st, sp)))))
            else retP (0, False, 0, 0)) (\<lambda>(t, isNonDeterministic, st, sp).
     bindP (if serve_ge v 8 then read_map getStr (serve_read_UnkeyedRealisation sd v)
            else if serve_ge v 6 then read_legacy_outputs jl
            else retP []) (\<lambda>builtOutputs.
       retP \<lparr>br_inner = (case status of
               Inl s \<Rightarrow> Success s builtOutputs
             | Inr s \<Rightarrow> Failure s errorMsg isNonDeterministic),
             timesBuilt = t, startTime = st, stopTime = sp, cpuUser = None, cpuSystem = None\<rparr>))))"

definition serve_write_BuildResult_common ::
    "'j StoreDirConfig \<Rightarrow> json_lib \<Rightarrow> VersionNumber \<Rightarrow> BuildResult \<Rightarrow> string \<Rightarrow> bool \<Rightarrow> SingleDrvOutputs \<Rightarrow> string res list" where
  "serve_write_BuildResult_common sd jl v res errorMsg isNonDeterministic builtOutputs =
     [putStr errorMsg,
      if serve_ge v 3
      then seqW [putNum (ucast (timesBuilt res)), putBool isNonDeterministic, putNum (startTime res), putNum (stopTime res)]
      else seqW [],
      if serve_ge v 8 then write_map putStr (serve_write_UnkeyedRealisation sd v) builtOutputs
      else if serve_ge v 6 then write_legacy_outputs jl builtOutputs
      else seqW []]"

definition serve_write_BuildResult :: "'j StoreDirConfig \<Rightarrow> json_lib \<Rightarrow> VersionNumber \<Rightarrow> BuildResult \<Rightarrow> string res" where
  "serve_write_BuildResult sd jl v res =
     (case br_inner res of
        Failure st m nd \<Rightarrow> seqW (write_BuildResultStatus (Inr st) # serve_write_BuildResult_common sd jl v res m nd [])
      | Success st outs \<Rightarrow> seqW (write_BuildResultStatus (Inl st) # serve_write_BuildResult_common sd jl v res [] False outs))"

section \<open>Path infos\<close>

definition serve_read_UnkeyedValidPathInfo :: "'j StoreDirConfig \<Rightarrow> VersionNumber \<Rightarrow> UnkeyedValidPathInfo stream" where
  "serve_read_UnkeyedValidPathInfo sd v =
     (let info = new_UnkeyedValidPathInfo sd hash_dummy
      in bindP getStr (\<lambda>deriver.
         bindP (if deriver \<noteq> [] then bindP (liftP (parseStorePath (sd_dir sd) deriver)) (\<lambda>p. retP (Some p))
                else retP (pi_deriver info)) (\<lambda>d.
         bindP (read_set (read_StorePath sd)) (\<lambda>refs.
         bindP (getNum size_max) (\<lambda>downloadSize. bindP (getNum size_max) (\<lambda>size.
         bindP (if serve_ge v 4
                then bindP getStr (\<lambda>s.
                     bindP (if s \<noteq> [] then liftP (Some (parseAnyPrefixed (sd_xp sd) s)) else retP (pi_narHash info)) (\<lambda>h.
                     bindP (read_opt_ContentAddress sd) (\<lambda>ca. bindP (read_set read_Signature) (\<lambda>sigs. retP (h, ca, sigs)))))
                else retP (pi_narHash info, pi_ca info, pi_sigs info)) (\<lambda>(h, ca, sigs).
           retP (info\<lparr>pi_deriver := d, pi_references := refs, pi_narSize := size, pi_narHash := h, pi_ca := ca, pi_sigs := sigs\<rparr>))))))))"

definition serve_write_UnkeyedValidPathInfo :: "'j StoreDirConfig \<Rightarrow> VersionNumber \<Rightarrow> UnkeyedValidPathInfo \<Rightarrow> string res" where
  "serve_write_UnkeyedValidPathInfo sd v info =
     seqW
       [putStr (case pi_deriver info of Some p \<Rightarrow> printStorePath (sd_dir sd) p | None \<Rightarrow> []),
        write_set (write_StorePath sd) (pi_references info),
        putNum (pi_narSize info), putNum (pi_narSize info),
        if serve_ge v 4
        then seqW [bind_res (hash_to_string (pi_narHash info) Nix32 True) putStr,
                   write_opt_ContentAddress sd (pi_ca info),
                   write_set write_Signature (pi_sigs info)]
        else seqW []]"

section \<open>What is read is what was written\<close>

definition serve_realisation_sendable :: "'j StoreDirConfig \<Rightarrow> VersionNumber \<Rightarrow> UnkeyedRealisation \<Rightarrow> bool" where
  "serve_realisation_sendable sd v r =
     (serve_ge v 8 \<and> path_sendable sd (ur_outPath r) \<and> sigs_sendable (ur_signatures r))"

interpretation serve_realisation: wire_codec "serve_write_UnkeyedRealisation sd v" "serve_read_UnkeyedRealisation sd v"
    "serve_realisation_sendable sd v" for sd v
proof
  fix r assume r: "serve_realisation_sendable sd v r"
  then have n: "serve_need_realisations v = Inr ()"
    by (simp add: serve_need_realisations_def serve_realisation_sendable_def serve_ge_def)
  show "sends (serve_write_UnkeyedRealisation sd v r) (serve_read_UnkeyedRealisation sd v) r"
    unfolding serve_write_UnkeyedRealisation_def serve_read_UnkeyedRealisation_def n bind_res.simps bindP_liftP_Inr using r
    by (intro sends_step [OF path_wire.sends_enc] sends_step [OF sig_wire.sends_set] sends_done)
      (simp_all add: serve_realisation_sendable_def sigs_sendable_def)
qed

interpretation serve_drv_output: wire_codec "serve_write_DrvOutput sd v" "serve_read_DrvOutput sd v"
    "\<lambda>i. serve_ge v 8 \<and> path_sendable sd (do_drvPath i) \<and> short (do_outputName i)" for sd v
proof
  fix i assume i: "serve_ge v 8 \<and> path_sendable sd (do_drvPath i) \<and> short (do_outputName i)"
  then have n: "serve_need_realisations v = Inr ()" by (simp add: serve_need_realisations_def serve_ge_def)
  show "sends (serve_write_DrvOutput sd v i) (serve_read_DrvOutput sd v) i"
    unfolding serve_write_DrvOutput_def serve_read_DrvOutput_def n bind_res.simps bindP_liftP_Inr using i
    by (intro sends_step [OF path_wire.sends_enc] sends_step [OF str_wire.sends_enc] sends_done) simp_all
qed

interpretation serve_realisations: wire_codec "serve_write_Realisation sd v" "serve_read_Realisation sd v"
    "\<lambda>r. path_sendable sd (do_drvPath (r_id r)) \<and> short (do_outputName (r_id r)) \<and> serve_realisation_sendable sd v (r_unkeyed r)"
    for sd v
proof
  fix r assume "path_sendable sd (do_drvPath (r_id r)) \<and> short (do_outputName (r_id r)) \<and> serve_realisation_sendable sd v (r_unkeyed r)"
  then show "sends (serve_write_Realisation sd v r) (serve_read_Realisation sd v) r"
    unfolding serve_write_Realisation_def serve_read_Realisation_def
    by (intro sends_step [OF serve_drv_output.sends_enc] sends_step [OF serve_realisation.sends_enc] sends_done)
      (simp_all add: serve_realisation_sendable_def)
qed

interpretation serve_outputs: wire_map putStr getStr short "serve_write_UnkeyedRealisation sd v" "serve_read_UnkeyedRealisation sd v"
    "serve_realisation_sendable sd v" for sd v
  by unfold_locales (simp_all add: sends_putStr serve_realisation.sends_enc)

text \<open>What arrives of build results, path infos and options.\<close>

definition serve_received_outputs :: "VersionNumber \<Rightarrow> SingleDrvOutputs \<Rightarrow> SingleDrvOutputs" where
  "serve_received_outputs v outs =
     (if serve_ge v 8 then outs else if serve_ge v 6 then map unsigned_output outs else [])"

definition serve_received_result :: "VersionNumber \<Rightarrow> BuildResult \<Rightarrow> BuildResult" where
  "serve_received_result v r =
     \<lparr>br_inner = (case br_inner r of
         Success st outs \<Rightarrow> Success st (serve_received_outputs v outs)
       | Failure st m nd \<Rightarrow> Failure (if st = HashMismatch then OutputRejected else st) m (serve_ge v 3 \<and> nd)),
      timesBuilt = (if serve_ge v 3 then timesBuilt r else 0),
      startTime = (if serve_ge v 3 then startTime r else 0),
      stopTime = (if serve_ge v 3 then stopTime r else 0),
      cpuUser = None, cpuSystem = None\<rparr>"

definition serve_outputs_sendable :: "'j StoreDirConfig \<Rightarrow> json_lib \<Rightarrow> VersionNumber \<Rightarrow> SingleDrvOutputs \<Rightarrow> bool" where
  "serve_outputs_sendable sd jl v outs =
     (ordered outs \<and> length outs < 2 ^ 64 \<and>
      (if serve_ge v 8 then list_all (\<lambda>(n, r). short n \<and> serve_realisation_sendable sd v r) outs
       else serve_ge v 6 \<longrightarrow> list_all (legacy_sendable jl) outs))"

definition serve_result_sendable :: "'j StoreDirConfig \<Rightarrow> json_lib \<Rightarrow> VersionNumber \<Rightarrow> BuildResult \<Rightarrow> bool" where
  "serve_result_sendable sd jl v r =
     ((case br_inner r of Success st outs \<Rightarrow> serve_outputs_sendable sd jl v outs | Failure st m nd \<Rightarrow> short m) \<and>
      startTime r \<le> int64_max \<and> stopTime r \<le> int64_max)"

lemma sends_serve_outputs:
  assumes "serve_outputs_sendable sd jl v outs"
  shows "sends
     (if serve_ge v 8 then write_map putStr (serve_write_UnkeyedRealisation sd v) outs
      else if serve_ge v 6 then write_legacy_outputs jl outs else seqW [])
     (if serve_ge v 8 then read_map getStr (serve_read_UnkeyedRealisation sd v)
      else if serve_ge v 6 then read_legacy_outputs jl else retP [])
     (serve_received_outputs v outs)"
  using assms
  by (auto simp: serve_outputs_sendable_def serve_received_outputs_def sends_nil
      intro!: serve_outputs.sends_map sends_legacy_outputs)

lemma sends_serve_common:
  assumes "serve_result_sendable sd jl v r" "short m" "serve_outputs_sendable sd jl v outs" "sends w read_BuildResultStatus st"
  shows "sends (seqW (w # serve_write_BuildResult_common sd jl v r m nd outs)) (serve_read_BuildResult sd jl v)
     ((serve_received_result v r)\<lparr>br_inner := (case st of
        Inl s \<Rightarrow> Success s (serve_received_outputs v outs)
      | Inr s \<Rightarrow> Failure s m (serve_ge v 3 \<and> nd))\<rparr>)"
proof -
  have a: "sends (if serve_ge v 3
        then seqW [putNum (ucast (timesBuilt r)), putBool nd, putNum (startTime r), putNum (stopTime r)] else seqW [])
      (if serve_ge v 3
        then bindP getU32 (\<lambda>t. bindP getBool (\<lambda>nd. bindP (getNum int64_max) (\<lambda>st. bindP (getNum int64_max) (\<lambda>sp.
                   retP (t, nd, st, sp)))))
        else retP (0, False, 0, 0))
      (if serve_ge v 3 then (timesBuilt r, nd, startTime r, stopTime r) else (0, False, 0, 0))"
    using assms(1) unfolding serve_result_sendable_def
    by (intro sends_opt sends_step [OF sends_u32] sends_step [OF sends_bool] sends_step [OF sends_num] sends_done) simp_all
  show ?thesis
    unfolding serve_write_BuildResult_common_def serve_read_BuildResult_def case_prod_unfold
    by (intro sends_step [OF assms(4)] sends_step [OF sends_putStr [OF assms(2)]] sends_step [OF a]
        sends_step [OF sends_serve_outputs [OF assms(3)]] sends_done)
      (simp add: serve_received_result_def split: sum.splits)
qed

lemma sends_serve_result:
  assumes r: "serve_result_sendable sd jl v r"
  shows "sends (serve_write_BuildResult sd jl v r) (serve_read_BuildResult sd jl v) (serve_received_result v r)"
proof (cases "br_inner r")
  case (Success st outs)
  then have "serve_outputs_sendable sd jl v outs" "short []" using r by (simp_all add: serve_result_sendable_def short_def)
  from sends_serve_common [OF r this(2,1), of "write_BuildResultStatus (Inl st)" "Inl st" False] sends_status [of "Inl st"]
  show ?thesis by (simp add: Success serve_write_BuildResult_def) (simp add: serve_received_result_def Success)
next
  case (Failure st m nd)
  then have "serve_outputs_sendable sd jl v []" "short m"
    using r by (simp_all add: serve_result_sendable_def serve_outputs_sendable_def)
  from sends_serve_common [OF r this(2,1), of "write_BuildResultStatus (Inr st)"
      "if st = HashMismatch then Inr OutputRejected else Inr st" nd] sends_status [of "Inr st"]
  show ?thesis
    by (simp add: Failure serve_write_BuildResult_def split: if_splits) (simp_all add: serve_received_result_def Failure)
qed

definition serve_info_sendable :: "'j StoreDirConfig \<Rightarrow> UnkeyedValidPathInfo \<Rightarrow> bool" where
  "serve_info_sendable sd i =
     (pi_storeDir i = sd_dir sd \<and> opt_all (path_sendable sd) (pi_deriver i) \<and>
      hash_wf (pi_narHash i) \<and> algo_enabled (sd_xp sd) (algo (pi_narHash i)) \<and> paths_sendable sd (pi_references i) \<and>
      sigs_sendable (pi_sigs i) \<and> opt_all (ca_sendable sd) (pi_ca i))"

definition serve_received_info :: "VersionNumber \<Rightarrow> UnkeyedValidPathInfo \<Rightarrow> UnkeyedValidPathInfo" where
  "serve_received_info v i =
     (let j = i\<lparr>pi_registrationTime := 0, pi_id := 0, pi_ultimate := False\<rparr>
      in if serve_ge v 4 then j else j\<lparr>pi_narHash := hash_dummy, pi_sigs := [], pi_ca := None\<rparr>)"

lemma sends_narHash:
  assumes wf: "hash_wf h" and xp: "algo_enabled xp (algo h)"
  shows "sends (bind_res (hash_to_string h Nix32 True) putStr)
    (bindP getStr (\<lambda>s. if s \<noteq> [] then liftP (Some (parseAnyPrefixed xp s)) else retP h0)) h"
proof -
  obtain s where s: "hash_to_string h Nix32 True = Inr s" "s \<noteq> []" "length s < 2 ^ 64"
  proof
    show "hash_to_string h Nix32 True = Inr (printHashAlgo (algo h) @ '':'' @ nix32_encode (hash_bytes h))"
      using wf by (simp add: hash_to_string_wf)
    have "length (nix32_encode (hash_bytes h)) \<le> 104"
      using wf by (cases "algo h") (simp_all add: hash_bytes_len nix32_encode_def nix32_encodedLength_def regularHashSize_def)
    moreover have "length (printHashAlgo (algo h)) \<le> 10" by (cases "algo h") (simp_all add: printHashAlgo_def)
    ultimately show "length (printHashAlgo (algo h) @ '':'' @ nix32_encode (hash_bytes h)) < 2 ^ 64" by simp
  qed simp
  have "parseAnyPrefixed xp s = Inr h"
    using parse_render_any [OF wf xp s(1)] by (simp add: parseAnyPrefixed_def)
  with s show ?thesis
    by (auto simp: short_def intro!: sends_bind [OF sends_putStr] ext simp: liftP_def retP_def)
qed

lemma sends_serve_info:
  assumes "serve_info_sendable sd i"
  shows "sends (serve_write_UnkeyedValidPathInfo sd v i) (serve_read_UnkeyedValidPathInfo sd v) (serve_received_info v i)"
proof -
  let ?i = "new_UnkeyedValidPathInfo sd hash_dummy"
  have d: "sends (putStr (case pi_deriver i of Some p \<Rightarrow> printStorePath (sd_dir sd) p | None \<Rightarrow> []))
      (bindP getStr (\<lambda>s. if s \<noteq> [] then bindP (liftP (parseStorePath (sd_dir sd) s)) (\<lambda>p. retP (Some p)) else retP (pi_deriver ?i)))
      (pi_deriver i)"
  proof -
    have "opt_all (path_sendable sd) (pi_deriver i)" using assms by (simp add: serve_info_sendable_def)
    note enc = opt_path_wire.sends_enc [OF this]
    have i: "pi_deriver ?i = None" by (simp add: new_UnkeyedValidPathInfo_def)
    have n: "\<And>s a b. (if s \<noteq> [] then a else b) = (if s = [] then b else a)" by simp
    show ?thesis
      using enc unfolding n i write_opt_StorePath_def read_opt_StorePath_def .
  qed
  have h: "hash_wf (pi_narHash i)" "algo_enabled (sd_xp sd) (algo (pi_narHash i))"
    using assms by (simp_all add: serve_info_sendable_def)
  have a: "sends (if serve_ge v 4
        then seqW [bind_res (hash_to_string (pi_narHash i) Nix32 True) putStr,
                   write_opt_ContentAddress sd (pi_ca i), write_set write_Signature (pi_sigs i)] else seqW [])
      (if serve_ge v 4
       then bindP getStr (\<lambda>s.
              bindP (if s \<noteq> [] then liftP (Some (parseAnyPrefixed (sd_xp sd) s)) else retP (pi_narHash ?i)) (\<lambda>h.
              bindP (read_opt_ContentAddress sd) (\<lambda>ca. bindP (read_set read_Signature) (\<lambda>sigs. retP (h, ca, sigs)))))
       else retP (pi_narHash ?i, pi_ca ?i, pi_sigs ?i))
      (if serve_ge v 4 then (pi_narHash i, pi_ca i, pi_sigs i) else (pi_narHash ?i, pi_ca ?i, pi_sigs ?i))"
    using assms unfolding serve_info_sendable_def sigs_sendable_def
    by (intro sends_opt sends_step_assoc [OF sends_narHash [OF h]] sends_step [OF sig_wire.sends_set]
        sends_step [OF opt_ca_wire.sends_enc] sends_done)
      simp_all
  show ?thesis
    unfolding serve_write_UnkeyedValidPathInfo_def serve_read_UnkeyedValidPathInfo_def Let_def case_prod_unfold using assms
    by (intro sends_step_assoc [OF d] sends_step [OF path_wire.sends_set] sends_step [OF sends_size] sends_step [OF a] sends_done)
      (auto simp: serve_info_sendable_def paths_sendable_def new_UnkeyedValidPathInfo_def serve_received_info_def Let_def)
qed

definition options_sendable :: "VersionNumber \<Rightarrow> BuildOptions \<Rightarrow> bool" where
  "options_sendable v options =
     (maxSilentTime options \<le> uint_max \<and> buildTimeout options \<le> uint_max \<and> (serve_ge v 3 \<longrightarrow> nrRepeats options \<le> uint_max))"

definition received_options :: "VersionNumber \<Rightarrow> BuildOptions \<Rightarrow> BuildOptions" where
  "received_options v options =
     options\<lparr>maxLogSize := (if serve_ge v 2 then maxLogSize options else -1),
       nrRepeats := (if serve_ge v 3 then nrRepeats options else -1),
       enforceDeterminism := (serve_ge v 3 \<longrightarrow> enforceDeterminism options),
       keepFailed := (serve_ge v 7 \<longrightarrow> keepFailed options)\<rparr>"

lemma sends_flag: "sends (putNum (if b then 1 else 0)) (bindP (getNum uint_max) (\<lambda>k. retP (k \<noteq> 0))) b"
  by (rule sends_bind [OF sends_num]) (simp_all add: uint_max_def)

lemma sends_options:
  assumes "options_sendable v options"
  shows "sends (serve_write_BuildOptions v options) (serve_read_BuildOptions v) (received_options v options)"
proof -
  have a: "sends (if serve_ge v 3 then seqW [putNum (nrRepeats options), putBool (enforceDeterminism options)] else seqW [])
     (if serve_ge v 3 then bindP (getNum uint_max) (\<lambda>n. bindP (getNum uint_max) (\<lambda>d. retP (n, d \<noteq> 0)))
      else retP (nrRepeats default_options, enforceDeterminism default_options))
     (if serve_ge v 3 then (nrRepeats options, enforceDeterminism options)
      else (nrRepeats default_options, enforceDeterminism default_options))"
    using assms unfolding options_sendable_def putBool_def
    by (intro sends_opt sends_step [OF sends_num] sends_done) (auto simp: uint_max_def)
  show ?thesis
    unfolding serve_write_BuildOptions_def serve_read_BuildOptions_def case_prod_unfold using assms
    by (intro sends_step [OF sends_num] sends_step [OF sends_opt [OF sends_size]] sends_step [OF a]
        sends_step [OF sends_opt [OF sends_flag]] sends_done)
      (auto simp: options_sendable_def received_options_def default_options_def)
qed

section \<open>Properties\<close>

definition example_info :: UnkeyedValidPathInfo where
  "example_info =
     \<lparr>pi_storeDir = sd_dir example_config, pi_deriver = Some example_path, pi_narHash = example_hash, pi_references = [example_path],
      pi_registrationTime = 7, pi_narSize = 120, pi_id = 3, pi_ultimate = True, pi_sigs = [Signature ''k'' ''s''], pi_ca = None\<rparr>"

lemma example_info_sendable: "serve_info_sendable example_config example_info"
proof -
  have "dir_ok (sd_dir example_config)" using example_ok by (simp add: derivation_ok_def)
  then have "path_sendable example_config example_path" using example_path_wf
    by (simp add: path_sendable_def short_def printStorePath_def example_path_def example_config_def rend_root_def rend_def)
  moreover have "sig_sendable (Signature ''k'' ''s'')"
    by (simp add: sig_sendable_def short_def signature_to_string_def serializeColonBase64_def length_base64_encode base64_encodedLength_def)
  moreover have "algo example_hash = SHA1" by (simp add: example_hash_def)
  ultimately show ?thesis
    by (simp add: serve_info_sendable_def example_info_def paths_sendable_def sigs_sendable_def example_hash_wf)
qed

text \<open>C13: a path info that is sent over a serve connection of any version arrives as \<open>serve_received_info\<close>
  says: without the registration time and the trust flag, and before version 2.4 without the hash of the
  contents, the signatures and the content address.\<close>

theorem serve_path_info:
  assumes "serve_info_sendable sd i"
  shows "\<exists>w. serve_write_UnkeyedValidPathInfo sd v i = Inr w \<and>
    (\<forall>s. serve_read_UnkeyedValidPathInfo sd v (w @ s) = Some (Inr (serve_received_info v i, s)))"
  using sends_serve_info [OF assms] unfolding sends_def .

theorem serve_path_info_witness:
  "\<exists>w. serve_write_UnkeyedValidPathInfo example_config serve_latest example_info = Inr w \<and>
     serve_read_UnkeyedValidPathInfo example_config serve_latest (w @ ''next'') =
       Some (Inr (example_info\<lparr>pi_registrationTime := 0, pi_id := 0, pi_ultimate := False\<rparr>, ''next''))"
proof -
  have "serve_received_info serve_latest example_info = example_info\<lparr>pi_registrationTime := 0, pi_id := 0, pi_ultimate := False\<rparr>"
    by (simp add: serve_received_info_def serve_ge_def serve_latest_def number_less_def)
  with serve_path_info [OF example_info_sendable, of serve_latest] show ?thesis by auto
qed

text \<open>C40: default build options are written but cannot be read: the silence timeout goes out as
  \<open>2 ^ 64 - 1\<close> and the reader accepts 32 bits only.\<close>

theorem serve_default_options_rejected:
  "\<exists>w. serve_write_BuildOptions v default_options = Inr w \<and>
    (\<forall>s. serve_read_BuildOptions v (w @ s) =
       Some (Inl (NixError SerialisationError ''serialised integer %d is too large for type '%s'.'')))"
proof -
  obtain r where r: "serve_write_BuildOptions v default_options = Inr (writeNum (-1) @ r)"
    by (cases "serve_ge v 2"; cases "serve_ge v 3"; cases "serve_ge v 7")
      (auto simp: serve_write_BuildOptions_def seqW.simps putNum_def putBool_def default_options_def)
  have "getNum uint_max (writeNum (-1) @ s) =
      Some (Inl (NixError SerialisationError ''serialised integer %d is too large for type '%s'.''))" for s
    using num.dec_enc [of "-1" "size_max" s]
    by (auto simp: getNum_def getP_def readNum_def Let_def res_simps uint_max_def size_max_def split: prod.splits if_splits)
  with r show ?thesis by (auto simp: serve_read_BuildOptions_def bindP_def)
qed

end
