(* ===== verification/Readers.thy ===== *)
theory Readers
  imports Wire
begin

text \<open>
  What every reader of the protocols keeps: it returns, it consumes a prefix of its input and its result
  depends on that prefix only, and an error other than the end of the input does not depend on what
  follows. A reader that hits the end of what has arrived so far is a reader that waits.
\<close>

fun is_eof :: "nix_error \<Rightarrow> bool" where
  "is_eof (NixError c m) = (c = EndOfFile)"

definition parses :: "'a parser \<Rightarrow> bool" where
  "parses p =
     (\<forall>s. case p s of
        Inr (x, r) \<Rightarrow> (\<exists>c. s = c @ r \<and> (\<forall>t. p (c @ t) = Inr (x, t)))
      | Inl e \<Rightarrow> is_eof e \<or> (\<forall>t. p (s @ t) = Inl e))"

definition reads :: "'a stream \<Rightarrow> bool" where
  "reads d =
     (\<forall>s. case d s of
        None \<Rightarrow> False
      | Some (Inr (x, r)) \<Rightarrow> (\<exists>c. s = c @ r \<and> (\<forall>t. d (c @ t) = Some (Inr (x, t))))
      | Some (Inl e) \<Rightarrow> is_eof e \<or> (\<forall>t. d (s @ t) = Some (Inl e)))"

named_theorems parses_intros \<open>parsers, by their structure\<close>
named_theorems reads_intros \<open>stream readers, by their structure\<close>

section \<open>Parsers\<close>

lemma parses_ret [parses_intros]: "parses (\<lambda>s. Inr (x, s))"
  by (simp add: parses_def)

lemma parses_throw [parses_intros]: "parses (\<lambda>s. Inl e)"
  by (simp add: parses_def)

lemma parses_if [parses_intros]: "parses p \<Longrightarrow> parses q \<Longrightarrow> parses (\<lambda>s. if b then p s else q s)"
  by (cases b) simp_all

lemma parses_bind [parses_intros]:
  assumes p: "parses p" and f: "\<And>x. parses (f x)"
  shows "parses (\<lambda>s. bind_res (p s) (\<lambda>(x, s1). f x s1))"
  unfolding parses_def
proof
  fix s
  show "case bind_res (p s) (\<lambda>(x, s1). f x s1) of
        Inr (x, r) \<Rightarrow> (\<exists>c. s = c @ r \<and> (\<forall>t. bind_res (p (c @ t)) (\<lambda>(x, s1). f x s1) = Inr (x, t)))
      | Inl e \<Rightarrow> is_eof e \<or> (\<forall>t. bind_res (p (s @ t)) (\<lambda>(x, s1). f x s1) = Inl e)"
  proof (cases "p s")
    case (Inl e)
    then show ?thesis using p [unfolded parses_def, rule_format, of s] by auto
  next
    case (Inr xr)
    obtain x r where xr: "xr = (x, r)" by (cases xr)
    obtain c where c: "s = c @ r" "\<And>t. p (c @ t) = Inr (x, t)"
      using p [unfolded parses_def, rule_format, of s] by (auto simp: Inr xr)
    show ?thesis
    proof (cases "f x r")
      case (Inl e)
      then show ?thesis using f [of x, unfolded parses_def, rule_format, of r] c by (auto simp: Inr xr)
    next
      case (Inr yq)
      obtain y q where yq: "yq = (y, q)" by (cases yq)
      obtain c' where c': "r = c' @ q" "\<And>t. f x (c' @ t) = Inr (y, t)"
        using f [of x, unfolded parses_def, rule_format, of r] by (auto simp: Inr yq)
      have "bind_res (p ((c @ c') @ t)) (\<lambda>(x, s1). f x s1) = Inr (y, t)" for t using c(2) c'(2) by simp
      moreover have "s = (c @ c') @ q" using c(1) c'(1) by simp
      ultimately show ?thesis using \<open>p s = Inr xr\<close> Inr by (auto simp: xr yq)
    qed
  qed
qed

lemma parses_take [parses_intros]: "parses (take_bytes n)"
  unfolding parses_def
proof
  fix s
  show "case take_bytes n s of
      Inr (x, r) \<Rightarrow> (\<exists>c. s = c @ r \<and> (\<forall>t. take_bytes n (c @ t) = Inr (x, t)))
    | Inl e \<Rightarrow> is_eof e \<or> (\<forall>t. take_bytes n (s @ t) = Inl e)"
    by (cases "length s < n") (auto simp: take_bytes_def intro!: exI [of _ "take n s"])
qed

lemma parses_let [parses_intros]: "parses (f v) \<Longrightarrow> parses (\<lambda>s. let x = v in f x s)"
  by (simp add: Let_def)

lemma parses_readNum [parses_intros]: "parses (readNum m)"
proof -
  have "parses (\<lambda>s. bind_res (take_bytes 8 s) (\<lambda>(buf, s1). (\<lambda>buf s1. let n = readLittleEndian buf in
       if n > m then Inl (NixError SerialisationError ''serialised integer %d is too large for type '%s'.'')
       else Inr (n, s1)) buf s1))"
    unfolding Let_def by (intro parses_intros)
  then show ?thesis unfolding readNum_def [abs_def] by simp
qed

lemma parses_readInt [parses_intros]: "parses readInt"
  unfolding readInt_def by (rule parses_readNum)

lemma parses_readBool [parses_intros]: "parses readBool"
  unfolding readBool_def [abs_def] by (intro parses_bind parses_readNum parses_ret)

lemma parses_readPadding [parses_intros]: "parses (readPadding n)"
  unfolding readPadding_def [abs_def] by (intro parses_intros)

lemma parses_readString [parses_intros]: "parses (readString n)"
  unfolding readString_def [abs_def] by (intro parses_intros)

lemma parses_times [parses_intros]: "parses p \<Longrightarrow> parses (read_times p n)"
proof (induction n)
  case 0
  show ?case unfolding read_times.simps(1) [abs_def] by (rule parses_ret)
next
  case (Suc n)
  then show ?case unfolding read_times.simps(2) [abs_def] by (intro parses_intros)
qed

lemma parses_readStrings [parses_intros]: "parses readStrings"
  unfolding readStrings_def [abs_def] by (intro parses_intros)

lemma parses_readError [parses_intros]: "parses readError"
  unfolding readError_def [abs_def] readPos_def [abs_def] readTrace_def [abs_def] by (intro parses_intros)

section \<open>Stream readers\<close>

lemma reads_getP [reads_intros]: "parses p \<Longrightarrow> reads (getP p)"
  unfolding parses_def reads_def getP_def by (auto split: sum.splits)

lemma reads_retP [reads_intros]: "reads (retP x)"
  by (simp add: reads_def retP_def)

lemma reads_throwP [reads_intros]: "reads (throwP c m)"
  by (simp add: reads_def throwP_def)

lemma reads_liftP [reads_intros]: "r \<noteq> None \<Longrightarrow> reads (liftP r)"
  by (cases r; cases "the r") (auto simp: reads_def liftP_def)

lemma reads_if [reads_intros]: "(b \<Longrightarrow> reads d) \<Longrightarrow> (\<not> b \<Longrightarrow> reads d') \<Longrightarrow> reads (if b then d else d')"
  by simp

lemma reads_prod [reads_intros]: "(\<And>x y. p = (x, y) \<Longrightarrow> reads (d x y)) \<Longrightarrow> reads (case p of (x, y) \<Rightarrow> d x y)"
  by (cases p) simp

lemma reads_option [reads_intros]:
  "reads d \<Longrightarrow> (\<And>x. p = Some x \<Longrightarrow> reads (d' x)) \<Longrightarrow> reads (case p of None \<Rightarrow> d | Some x \<Rightarrow> d' x)"
  by (cases p) simp_all

lemma reads_SomeInr:
  "reads d \<Longrightarrow> d s = Some (Inr (x, r)) \<Longrightarrow> \<exists>c. s = c @ r \<and> (\<forall>t. d (c @ t) = Some (Inr (x, t)))"
  unfolding reads_def by (drule spec [of _ s]) simp

lemma reads_SomeInl: "reads d \<Longrightarrow> d s = Some (Inl e) \<Longrightarrow> is_eof e \<or> (\<forall>t. d (s @ t) = Some (Inl e))"
  unfolding reads_def by (drule spec [of _ s]) simp

lemma reads_total: "reads d \<Longrightarrow> d s \<noteq> None"
  unfolding reads_def by (drule spec [of _ s]) (cases "d s"; simp)

lemma readsI:
  assumes "\<And>s. d s \<noteq> None"
    and "\<And>s x r. d s = Some (Inr (x, r)) \<Longrightarrow> \<exists>c. s = c @ r \<and> (\<forall>t. d (c @ t) = Some (Inr (x, t)))"
    and "\<And>s e. d s = Some (Inl e) \<Longrightarrow> is_eof e \<or> (\<forall>t. d (s @ t) = Some (Inl e))"
  shows "reads d"
  unfolding reads_def using assms by (auto split: option.splits sum.splits)

lemma reads_bind [reads_intros]:
  assumes m: "reads m" and f: "\<And>x. reads (f x)"
  shows "reads (bindP m f)"
proof (rule readsI)
  fix s
  show "bindP m f s \<noteq> None"
    using reads_total [OF m, of s] reads_total [OF f] by (cases "m s"; cases "the (m s)") (auto simp: bindP_def)
next
  fix s y q
  assume "bindP m f s = Some (Inr (y, q))"
  then obtain x r where xr: "m s = Some (Inr (x, r))" "f x r = Some (Inr (y, q))"
    by (auto simp: bindP_def elim!: bind_ro.elims)
  obtain c where c: "s = c @ r" "\<And>t. m (c @ t) = Some (Inr (x, t))" using reads_SomeInr [OF m xr(1)] by auto
  obtain c' where c': "r = c' @ q" "\<And>t. f x (c' @ t) = Some (Inr (y, t))" using reads_SomeInr [OF f xr(2)] by auto
  have "s = (c @ c') @ q \<and> (\<forall>t. bindP m f ((c @ c') @ t) = Some (Inr (y, t)))"
    using c c' by (simp add: bindP_def)
  then show "\<exists>c. s = c @ q \<and> (\<forall>t. bindP m f (c @ t) = Some (Inr (y, t)))" by blast
next
  fix s e
  assume "bindP m f s = Some (Inl e)"
  then consider "m s = Some (Inl e)" | x r where "m s = Some (Inr (x, r))" "f x r = Some (Inl e)"
    by (auto simp: bindP_def elim!: bind_ro.elims)
  then show "is_eof e \<or> (\<forall>t. bindP m f (s @ t) = Some (Inl e))"
  proof cases
    case 1
    then show ?thesis using reads_SomeInl [OF m 1] by (auto simp: bindP_def)
  next
    case 2
    then show ?thesis using reads_SomeInr [OF m 2(1)] reads_SomeInl [OF f 2(2)] by (auto simp: bindP_def)
  qed
qed

lemma reads_getNum [reads_intros]: "reads (getNum m)"
  unfolding getNum_def by (intro reads_getP parses_intros)

lemma reads_getStr [reads_intros]: "reads getStr"
  unfolding getStr_def by (intro reads_getP parses_intros)

lemma reads_getBool [reads_intros]: "reads getBool"
  unfolding getBool_def by (intro reads_getP parses_intros)

lemma reads_readN [reads_intros]: "reads d \<Longrightarrow> reads (readN d add n acc)"
  by (induction n arbitrary: acc) (auto intro: reads_intros)

lemma reads_read_vector [reads_intros]: "reads d \<Longrightarrow> reads (read_vector d)"
  unfolding read_vector_def by (intro reads_intros)

lemma reads_read_set [reads_intros]: "reads d \<Longrightarrow> reads (read_set d)"
  unfolding read_set_def by (intro reads_intros)

lemma reads_length: "reads d \<Longrightarrow> d s = Some (Inr (x, r)) \<Longrightarrow> length r \<le> length s"
  by (drule (1) reads_SomeInr) auto

lemma getNum_consumes: "getNum m s = Some (Inr (n, r)) \<Longrightarrow> length r + 8 = length s"
  by (auto simp: getNum_def getP_def readNum_def res_simps Let_def take_bytes_def split: if_splits)

end
