(* ===== verification/Tunnel.thy ===== *)
theory Tunnel
  imports Readers Worker_Protocol Nar_Archive State_Res
begin

text \<open>
  The log tunnel between a daemon and its client: \<open>TunnelLogger\<close> and \<open>TunnelSink\<close> of
  \<open>src/src/libstore/daemon.cc\<close>, \<open>processStderrReturn\<close> of \<open>worker-protocol-connection.cc\<close>. The daemon's
  side is a state (whether messages may be sent, the pending ones, the buffered sink to the client) with
  operations that may throw; the client's side is a reader that collects what it gives to its logger and
  sink.
\<close>

section \<open>Messages\<close>

definition STDERR_NEXT :: u64 where "STDERR_NEXT = 0x6f6c6d67"
definition STDERR_READ :: u64 where "STDERR_READ = 0x64617461"
definition STDERR_WRITE :: u64 where "STDERR_WRITE = 0x64617416"
definition STDERR_LAST :: u64 where "STDERR_LAST = 0x616c7473"
definition STDERR_ERROR :: u64 where "STDERR_ERROR = 0x63787470"
definition STDERR_START_ACTIVITY :: u64 where "STDERR_START_ACTIVITY = 0x53545254"
definition STDERR_STOP_ACTIVITY :: u64 where "STDERR_STOP_ACTIVITY = 0x53544f50"
definition STDERR_RESULT :: u64 where "STDERR_RESULT = 0x52534c54"

lemmas stderr_codes = STDERR_NEXT_def STDERR_READ_def STDERR_WRITE_def STDERR_LAST_def STDERR_ERROR_def
  STDERR_START_ACTIVITY_def STDERR_STOP_ACTIVITY_def STDERR_RESULT_def

datatype Field = tInt u64 | tString string

fun write_Field :: "Field \<Rightarrow> string res" where
  "write_Field (tInt i) = seqW [putNum 0, putNum i]"
| "write_Field (tString s) = seqW [putNum 1, putStr s]"

definition write_Fields :: "Field list \<Rightarrow> string res" where
  "write_Fields fs = seqW (putNum (of_nat (length fs)) # map write_Field fs)"

definition read_Field :: "Field stream" where
  "read_Field =
     bindP (getNum uint_max) (\<lambda>type.
       if type = 0 then bindP (getNum size_max) (\<lambda>i. retP (tInt i))
       else if type = 1 then bindP getStr (\<lambda>s. retP (tString s))
       else throwP Error ''got unsupported field type %x from Nix daemon'')"

definition readFields :: "Field list stream" where
  "readFields = bindP (getNum uint_max) (\<lambda>size. readN read_Field (\<lambda>f fs. fs @ [f]) (unat size) [])"

section \<open>The daemon's side\<close>

record 'k TunnelLogger =
  canSendStderr :: bool
  pendingMsgs :: "string list"
  to_client :: "'k BufferedSink"

definition sendS :: "'k writer \<Rightarrow> string \<Rightarrow> (unit, 'k TunnelLogger) st" where
  "sendS wr s t =
     (case BufferedSink_write wr s (to_client t) of
        Inl e \<Rightarrow> Some (Inl e, t)
      | Inr b \<Rightarrow> Some (Inr (), t\<lparr>to_client := b\<rparr>))"

definition flushS :: "'k writer \<Rightarrow> (unit, 'k TunnelLogger) st" where
  "flushS wr t =
     (case BufferedSink_flush wr (to_client t) of
        Inl e \<Rightarrow> Some (Inl e, t)
      | Inr b \<Rightarrow> Some (Inr (), t\<lparr>to_client := b\<rparr>))"

definition enqueueMsg :: "'k writer \<Rightarrow> string \<Rightarrow> (unit, 'k TunnelLogger) st" where
  "enqueueMsg wr s t =
     (if canSendStderr t then
        (if pendingMsgs t \<noteq> [] then throwS AssertionFailure ''assert'' t
         else
           case bindS (sendS wr s) (\<lambda>_. flushS wr) t of
             Some (Inl e, t1) \<Rightarrow> Some (Inl e, t1\<lparr>canSendStderr := False\<rparr>)
           | r \<Rightarrow> r)
      else retS () (t\<lparr>pendingMsgs := pendingMsgs t @ [s]\<rparr>))"

definition tl_log :: "'k writer \<Rightarrow> u64 \<Rightarrow> u64 \<Rightarrow> string \<Rightarrow> (unit, 'k TunnelLogger) st" where
  "tl_log wr verbosity lvl s =
     (if lvl > verbosity then retS ()
      else bindS (liftS (seqW [putNum STDERR_NEXT, putStr (s @ [CHR 0x0A])])) (enqueueMsg wr))"

text \<open>\<open>shown\<close> is what \<open>showErrorInfo\<close> prints of an error.\<close>

definition tl_logEI :: "'k writer \<Rightarrow> u64 \<Rightarrow> (ErrorInfo \<Rightarrow> string) \<Rightarrow> ErrorInfo \<Rightarrow> (unit, 'k TunnelLogger) st" where
  "tl_logEI wr verbosity shown ei =
     (if level ei > verbosity then retS ()
      else bindS (liftS (seqW [putNum STDERR_NEXT, putStr (shown ei)])) (enqueueMsg wr))"

definition startWork :: "'k writer \<Rightarrow> (unit, 'k TunnelLogger) st" where
  "startWork wr t =
     bindS (foldS (\<lambda>m _. sendS wr m) (pendingMsgs t) ()) (\<lambda>_ t1.
       flushS wr (t1\<lparr>pendingMsgs := []\<rparr>)) (t\<lparr>canSendStderr := True\<rparr>)"

text \<open>An error at the daemon: what the wire format carries of it, \<open>what()\<close> and the exit status.\<close>

record DaemonError =
  de_info :: ErrorInfo
  de_what :: string
  de_status :: u64

definition stopWork :: "'k writer \<Rightarrow> Version \<Rightarrow> DaemonError option \<Rightarrow> (unit, 'k TunnelLogger) st" where
  "stopWork wr v ex t =
     bindS (liftS (case ex of
         None \<Rightarrow> seqW [putNum STDERR_LAST]
       | Some e \<Rightarrow>
           if at_least v 1 26 then seqW [putNum STDERR_ERROR, Inr (writeError (de_info e))]
           else seqW [putNum STDERR_ERROR, putStr (de_what e), putNum (de_status e)]))
       (sendS wr) (t\<lparr>canSendStderr := False\<rparr>)"

definition tl_startActivity ::
    "'k writer \<Rightarrow> Version \<Rightarrow> u64 \<Rightarrow> u64 \<Rightarrow> u64 \<Rightarrow> u64 \<Rightarrow> string \<Rightarrow> Field list \<Rightarrow> u64 \<Rightarrow> (unit, 'k TunnelLogger) st" where
  "tl_startActivity wr v verbosity act lvl type s fs parentAct =
     (if number_less (number v) (VersionNumber 1 20) then
        (if s \<noteq> [] then tl_log wr verbosity lvl (s @ ''...'') else retS ())
      else
        bindS (liftS (seqW [putNum STDERR_START_ACTIVITY, putNum act, putNum lvl, putNum type, putStr s,
                            write_Fields fs, putNum parentAct])) (enqueueMsg wr))"

definition tl_stopActivity :: "'k writer \<Rightarrow> Version \<Rightarrow> u64 \<Rightarrow> (unit, 'k TunnelLogger) st" where
  "tl_stopActivity wr v act =
     (if number_less (number v) (VersionNumber 1 20) then retS ()
      else bindS (liftS (seqW [putNum STDERR_STOP_ACTIVITY, putNum act])) (enqueueMsg wr))"

definition tl_result :: "'k writer \<Rightarrow> Version \<Rightarrow> u64 \<Rightarrow> u64 \<Rightarrow> Field list \<Rightarrow> (unit, 'k TunnelLogger) st" where
  "tl_result wr v act type fs =
     (if number_less (number v) (VersionNumber 1 20) then retS ()
      else bindS (liftS (seqW [putNum STDERR_RESULT, putNum act, putNum type, write_Fields fs])) (enqueueMsg wr))"

definition TunnelSink_write :: "'k writer \<Rightarrow> string \<Rightarrow> (unit, 'k TunnelLogger) st" where
  "TunnelSink_write wr d =
     bindS (liftS (putNum STDERR_WRITE)) (\<lambda>a. bindS (sendS wr a) (\<lambda>_. sendS wr (writeString d)))"

section \<open>The client's side\<close>

text \<open>What the client gives to its logger, or to the sink of the operation, in order.\<close>

datatype event =
    Printed string
  | ActivityStarted u64 u64 u64 string "Field list" u64
  | ActivityStopped u64
  | ActivityResult u64 u64 "Field list"
  | SinkData string

datatype client_error = RemoteError ErrorInfo | StatusError u64 string | ExplainedError string

text \<open>The events so far, the source the daemon may read from, and what has been sent to the daemon.\<close>

record 's client_io =
  io_events :: "event list"
  io_source :: 's
  io_sent :: string

definition emit :: "event \<Rightarrow> 's client_io \<Rightarrow> 's client_io" where
  "emit e st = st\<lparr>io_events := io_events st @ [e]\<rparr>"

text \<open>One round of the loop: the new state, and \<open>Some ex\<close> when the loop ends.\<close>

definition stderr_body ::
    "Version \<Rightarrow> bool \<Rightarrow> 's reader option \<Rightarrow> 's client_io \<Rightarrow> u64 \<Rightarrow> ('s client_io \<times> client_error option option) stream" where
  "stderr_body v sink source st m =
      (if m = STDERR_WRITE then
         bindP getStr (\<lambda>s. if \<not> sink then throwP Error ''no sink'' else retP (emit (SinkData s) st, None))
       else if m = STDERR_READ then
         (case source of
            None \<Rightarrow> throwP Error ''no source''
          | Some rd \<Rightarrow>
              bindP (getNum size_max) (\<lambda>len.
              bindP (liftP (Some (rd (unat len) (io_source st)))) (\<lambda>(d, src).
                retP (st\<lparr>io_source := src, io_sent := io_sent st @ writeString d\<rparr>, None))))
       else if m = STDERR_ERROR then
         (if at_least v 1 26 then bindP (getP readError) (\<lambda>e. retP (st, Some (Some (RemoteError e))))
          else bindP getStr (\<lambda>e. bindP (getNum uint_max) (\<lambda>status. retP (st, Some (Some (StatusError status e))))))
       else if m = STDERR_NEXT then
         bindP getStr (\<lambda>s. retP (emit (Printed (chomp s)) st, None))
       else if m = STDERR_START_ACTIVITY then
         bindP (getNum size_max) (\<lambda>act. bindP (getNum uint_max) (\<lambda>lvl. bindP (getNum uint_max) (\<lambda>type.
         bindP getStr (\<lambda>s. bindP readFields (\<lambda>fs. bindP (getNum size_max) (\<lambda>parentAct.
           retP (emit (ActivityStarted act lvl type s fs parentAct) st, None)))))))
       else if m = STDERR_STOP_ACTIVITY then
         bindP (getNum size_max) (\<lambda>act. retP (emit (ActivityStopped act) st, None))
       else if m = STDERR_RESULT then
         bindP (getNum size_max) (\<lambda>act. bindP (getNum uint_max) (\<lambda>type. bindP readFields (\<lambda>fs.
           retP (emit (ActivityResult act type fs) st, None))))
       else if m = STDERR_LAST then retP (st, Some None)
       else throwP Error ''got unknown message type %x from Nix daemon'')"

definition stderr_msg ::
    "Version \<Rightarrow> bool \<Rightarrow> 's reader option \<Rightarrow> 's client_io \<Rightarrow> ('s client_io \<times> client_error option option) stream" where
  "stderr_msg v sink source st = bindP (getNum size_max) (stderr_body v sink source st)"

partial_function (option) stderr_loop ::
    "Version \<Rightarrow> bool \<Rightarrow> 's reader option \<Rightarrow> 's client_io \<Rightarrow> string \<Rightarrow> (('s client_io \<times> client_error option) \<times> string) res option" where
  "stderr_loop v sink source st s =
     (case stderr_msg v sink source st s of
        None \<Rightarrow> None
      | Some r \<Rightarrow>
          (case r of
             Inl e \<Rightarrow> Some (Inl e)
           | Inr q \<Rightarrow>
               (case snd (fst q) of
                  Some ex \<Rightarrow> Some (Inr ((fst (fst q), ex), snd q))
                | None \<Rightarrow> stderr_loop v sink source (fst (fst q)) (snd q))))"

declare stderr_loop.simps [code]

text \<open>The error the caller sees: old daemons' parse errors are explained. \<open>what\<close> prints an error.\<close>

definition explain :: "xp_settings \<Rightarrow> Version \<Rightarrow> (client_error \<Rightarrow> string) \<Rightarrow> client_error \<Rightarrow> client_error" where
  "explain xp v what e =
     (let m = what e in
      if isEnabled xp DynamicDerivations \<and> number_less (number v) (VersionNumber 1 36) \<and>
         find_string ''parsing derivation'' m \<noteq> None \<and> find_string ''expected string'' m \<noteq> None \<and>
         find_string ''Derive(['' m \<noteq> None
      then ExplainedError m else e)"

definition processStderrReturn ::
    "xp_settings \<Rightarrow> (client_error \<Rightarrow> string) \<Rightarrow> Version \<Rightarrow> bool \<Rightarrow> 's reader option \<Rightarrow> 's client_io
     \<Rightarrow> ('s client_io \<times> client_error option) stream" where
  "processStderrReturn xp what v sink source st =
     bindP (stderr_loop v sink source st) (\<lambda>(st1, ex). retP (st1, map_option (explain xp v what) ex))"

section \<open>The client's reader\<close>

lemma reads_readFields [reads_intros]: "reads readFields"
  unfolding readFields_def read_Field_def by (intro reads_intros)

lemma reads_stderr_body [reads_intros]: "reads (stderr_body v sink source st m)"
  unfolding stderr_body_def by (intro reads_intros parses_intros) simp_all

lemma reads_stderr_msg [reads_intros]: "reads (stderr_msg v sink source st)"
  unfolding stderr_msg_def by (intro reads_intros)

lemma stderr_msg_consumes:
  assumes "stderr_msg v sink source st s = Some (Inr (q, r))"
  shows "length r < length s"
proof -
  obtain n r1 where n: "getNum size_max s = Some (Inr (n, r1))" "stderr_body v sink source st n r1 = Some (Inr (q, r))"
    using assms by (auto simp: stderr_msg_def bindP_def elim!: bind_ro.elims)
  show ?thesis
    using getNum_consumes [OF n(1)] reads_length [OF reads_stderr_body n(2)] by linarith
qed

lemma stderr_loop_step:
  "stderr_msg v sink source st s = Some (Inr ((st', None), r)) \<Longrightarrow>
   stderr_loop v sink source st s = stderr_loop v sink source st' r"
  by (subst stderr_loop.simps) simp

lemma stderr_loop_stop:
  "stderr_msg v sink source st s = Some (Inr ((st', Some ex), r)) \<Longrightarrow>
   stderr_loop v sink source st s = Some (Inr ((st', ex), r))"
  by (subst stderr_loop.simps) simp

lemma stderr_loop_throw:
  "stderr_msg v sink source st s = Some (Inl e) \<Longrightarrow> stderr_loop v sink source st s = Some (Inl e)"
  by (subst stderr_loop.simps) simp

lemma reads_stderr_loop_at:
  "case stderr_loop v sink source st s of
     None \<Rightarrow> False
   | Some (Inr (x, r)) \<Rightarrow> (\<exists>c. s = c @ r \<and> (\<forall>t. stderr_loop v sink source st (c @ t) = Some (Inr (x, t))))
   | Some (Inl e) \<Rightarrow> is_eof e \<or> (\<forall>t. stderr_loop v sink source st (s @ t) = Some (Inl e))"
proof (induction s arbitrary: st rule: measure_induct_rule [of length])
  case (less s)
  note rd = reads_stderr_msg [of v sink source st]
  consider e where "stderr_msg v sink source st s = Some (Inl e)"
    | st' r where "stderr_msg v sink source st s = Some (Inr ((st', None), r))"
    | st' ex r where "stderr_msg v sink source st s = Some (Inr ((st', Some ex), r))"
    using reads_total [OF rd, of s] by (metis not_None_eq old.sum.exhaust surj_pair)
  then show ?case
  proof cases
    case 1
    with reads_SomeInl [OF rd 1] show ?thesis by (auto simp: stderr_loop_throw)
  next
    case 2
    obtain c where c: "s = c @ r" "\<And>t. stderr_msg v sink source st (c @ t) = Some (Inr ((st', None), t))"
      using reads_SomeInr [OF rd 2] by auto
    have u: "stderr_loop v sink source st (c @ t) = stderr_loop v sink source st' t" for t
      by (rule stderr_loop_step) (rule c(2))
    have "length r < length s" by (rule stderr_msg_consumes [OF 2])
    from less.IH [OF this, of st'] show ?thesis
      unfolding c(1) u append_assoc
      by (auto split: option.splits sum.splits simp: u)
  next
    case 3
    with reads_SomeInr [OF rd 3] show ?thesis by (auto simp: stderr_loop_stop)
  qed
qed

lemma reads_stderr_loop [reads_intros]: "reads (stderr_loop v sink source st)"
  unfolding reads_def using reads_stderr_loop_at by blast

lemma reads_processStderrReturn [reads_intros]: "reads (processStderrReturn xp what v sink source st)"
  unfolding processStderrReturn_def by (intro reads_intros)

section \<open>Messages arrive as events\<close>

definition fields_sendable :: "Field list \<Rightarrow> bool" where
  "fields_sendable fs = (length fs < 2 ^ 32 \<and> list_all (\<lambda>f. case f of tInt i \<Rightarrow> True | tString s \<Rightarrow> short s) fs)"

lemma sends_Field: "(case f of tInt i \<Rightarrow> True | tString s \<Rightarrow> short s) \<Longrightarrow> sends (write_Field f) read_Field f"
  unfolding read_Field_def
  by (cases f) (auto simp: short_def intro!: sends_step [OF sends_num] sends_bind [OF sends_num] sends_bind [OF sends_str] sends_only)

lemma sends_Fields: "fields_sendable fs \<Longrightarrow> sends (write_Fields fs) readFields fs"
proof -
  assume ok: "fields_sendable fs"
  have f: "fold (\<lambda>f fs. fs @ [f]) xs acc = acc @ xs" for xs acc :: "Field list" by (induction xs arbitrary: acc) auto
  have "(of_nat (length fs) :: u64) \<le> uint_max"
    using ok by (simp add: fields_sendable_def word_le_nat_alt uint_max_def unat_of_nat)
  moreover have "sends (seqW (map write_Field fs)) (readN read_Field (\<lambda>f fs. fs @ [f]) (length fs) []) fs"
    using sends_readN [of fs write_Field read_Field "\<lambda>f fs. fs @ [f]" "[]"] ok f [of fs "[]"]
    by (auto simp: fields_sendable_def list_all_iff intro: sends_Field)
  ultimately show "sends (write_Fields fs) readFields fs"
    unfolding write_Fields_def readFields_def using ok
    by (intro sends_step [OF sends_num]) (simp_all add: fields_sendable_def unat_of_nat)
qed

text \<open>What code of the daemon may ask of its logger, and of the sink to the client.\<close>

datatype log_call =
    Log u64 string
  | LogEI ErrorInfo
  | StartActivity u64 u64 u64 string "Field list" u64
  | StopActivity u64
  | LogResult u64 u64 "Field list"
  | DumpData string

fun perform :: "'k writer \<Rightarrow> Version \<Rightarrow> u64 \<Rightarrow> (ErrorInfo \<Rightarrow> string) \<Rightarrow> log_call \<Rightarrow> (unit, 'k TunnelLogger) st" where
  "perform wr v verbosity shown (Log lvl s) = tl_log wr verbosity lvl s"
| "perform wr v verbosity shown (LogEI ei) = tl_logEI wr verbosity shown ei"
| "perform wr v verbosity shown (StartActivity act lvl type s fs p) = tl_startActivity wr v verbosity act lvl type s fs p"
| "perform wr v verbosity shown (StopActivity act) = tl_stopActivity wr v act"
| "perform wr v verbosity shown (LogResult act type fs) = tl_result wr v act type fs"
| "perform wr v verbosity shown (DumpData d) = TunnelSink_write wr d"

text \<open>What the client sees of a call.\<close>

fun call_events :: "Version \<Rightarrow> u64 \<Rightarrow> (ErrorInfo \<Rightarrow> string) \<Rightarrow> log_call \<Rightarrow> event list" where
  "call_events v verbosity shown (Log lvl s) = (if lvl > verbosity then [] else [Printed (chomp (s @ [CHR 0x0A]))])"
| "call_events v verbosity shown (LogEI ei) = (if level ei > verbosity then [] else [Printed (chomp (shown ei))])"
| "call_events v verbosity shown (StartActivity act lvl type s fs p) =
     (if number_less (number v) (VersionNumber 1 20)
      then (if s \<noteq> [] \<and> \<not> lvl > verbosity then [Printed (chomp (s @ ''...'' @ [CHR 0x0A]))] else [])
      else [ActivityStarted act lvl type s fs p])"
| "call_events v verbosity shown (StopActivity act) =
     (if number_less (number v) (VersionNumber 1 20) then [] else [ActivityStopped act])"
| "call_events v verbosity shown (LogResult act type fs) =
     (if number_less (number v) (VersionNumber 1 20) then [] else [ActivityResult act type fs])"
| "call_events v verbosity shown (DumpData d) = [SinkData d]"

text \<open>Texts short enough for their length prefix, numbers the client's 32-bit readers take.\<close>

fun call_ok :: "(ErrorInfo \<Rightarrow> string) \<Rightarrow> log_call \<Rightarrow> bool" where
  "call_ok shown (Log lvl s) = (length s < 2 ^ 63)"
| "call_ok shown (LogEI ei) = (length (shown ei) < 2 ^ 63)"
| "call_ok shown (StartActivity act lvl type s fs p) =
     (length s < 2 ^ 63 \<and> lvl \<le> uint_max \<and> type \<le> uint_max \<and> fields_sendable fs)"
| "call_ok shown (StopActivity act) = True"
| "call_ok shown (LogResult act type fs) = (type \<le> uint_max \<and> fields_sendable fs)"
| "call_ok shown (DumpData d) = (length d < 2 ^ 63)"

fun is_dump :: "log_call \<Rightarrow> bool" where
  "is_dump (DumpData d) = True"
| "is_dump c = False"

text \<open>The bytes of a message carry an event, whatever the client has seen before.\<close>

definition carries :: "bool \<Rightarrow> Version \<Rightarrow> 's reader option \<Rightarrow> string \<Rightarrow> event \<Rightarrow> bool" where
  "carries sink v source b e = (\<forall>st s. stderr_msg v sink source st (b @ s) = Some (Inr ((emit e st, None), s)))"

lemma sends_family:
  assumes "\<And>y. sends w (d y) (f y)"
  shows "\<exists>b. w = Inr b \<and> (\<forall>y s. d y (b @ s) = Some (Inr (f y, s)))"
  using assms by (cases w) (auto simp: sends_def)

lemma carries_sends:
  assumes "\<And>st. sends w (stderr_msg v sink source st) (emit e st, None)"
  shows "\<exists>b. w = Inr b \<and> carries sink v source b e"
  using sends_family [OF assms] unfolding carries_def .

lemma sends_msg:
  "sends (seqW ws) (stderr_body v sink source st m) x \<Longrightarrow> sends (seqW (putNum m # ws)) (stderr_msg v sink source st) x"
  unfolding stderr_msg_def by (rule sends_step [OF sends_size])

lemma call_spec:
  assumes "call_ok shown c" "\<not> is_dump c"
  shows "(call_events v verbosity shown c = [] \<and> perform wr v verbosity shown c = retS ()) \<or>
    (\<exists>b e. call_events v verbosity shown c = [e] \<and> perform wr v verbosity shown c = enqueueMsg wr b \<and> carries sink v source b e)"
proof -
  have printed: "\<exists>b. seqW [putNum STDERR_NEXT, putStr s] = Inr b \<and> carries sink v source b (Printed (chomp s))"
    if "length s < 2 ^ 64" for s
    using that
    by (intro carries_sends sends_msg) (auto simp: stderr_body_def stderr_codes intro!: sends_step [OF sends_str] sends_done)
  have started: "\<exists>b. seqW [putNum STDERR_START_ACTIVITY, putNum act, putNum lvl, putNum type, putStr s, write_Fields fs, putNum p] = Inr b \<and>
      carries sink v source b (ActivityStarted act lvl type s fs p)"
    if "length s < 2 ^ 64" "lvl \<le> uint_max" "type \<le> uint_max" "fields_sendable fs" for act lvl type s fs p
    using that
    by (intro carries_sends sends_msg)
      (auto simp: stderr_body_def stderr_codes
        intro!: sends_step [OF sends_num] sends_step [OF sends_str] sends_step [OF sends_Fields] sends_done)
  have stopped: "\<exists>b. seqW [putNum STDERR_STOP_ACTIVITY, putNum act] = Inr b \<and> carries sink v source b (ActivityStopped act)" for act
    by (intro carries_sends sends_msg) (auto simp: stderr_body_def stderr_codes intro!: sends_step [OF sends_size] sends_done)
  have result: "\<exists>b. seqW [putNum STDERR_RESULT, putNum act, putNum type, write_Fields fs] = Inr b \<and>
      carries sink v source b (ActivityResult act type fs)"
    if "type \<le> uint_max" "fields_sendable fs" for act type fs
    using that
    by (intro carries_sends sends_msg)
      (auto simp: stderr_body_def stderr_codes intro!: sends_step [OF sends_num] sends_step [OF sends_Fields] sends_done)
  show ?thesis
  proof (cases c)
    case (Log lvl s)
    then show ?thesis using assms printed [of "s @ [CHR 0x0A]"] by (auto simp: tl_log_def)
  next
    case (LogEI ei)
    then show ?thesis using assms printed [of "shown ei"] by (auto simp: tl_logEI_def)
  next
    case (StartActivity act lvl type s fs p)
    then show ?thesis using assms started [of s lvl type fs act p] printed [of "s @ ''...'' @ [CHR 0x0A]"]
      by (auto simp: tl_startActivity_def tl_log_def)
  next
    case (StopActivity act)
    then show ?thesis using stopped [of act] by (auto simp: tl_stopActivity_def)
  next
    case (LogResult act type fs)
    then show ?thesis using assms result [of type fs act] by (auto simp: tl_result_def)
  next
    case (DumpData d)
    then show ?thesis using assms by simp
  qed
qed

section \<open>The sink of the daemon\<close>

interpretation client_sink: sink_contract StringSink_write "\<lambda>cs k. k = concat cs" limit for limit
  by unfold_locales (auto simp: StringSink_write_def)

definition sent_to :: "string BufferedSink \<Rightarrow> string \<Rightarrow> bool" where
  "sent_to b t = (length (buffer b) < bufSize b \<and> below b @ buffer b = t)"

lemma sent_to_ok: "sent_to b t \<Longrightarrow> bufSize b \<le> l \<Longrightarrow> client_sink.sink_ok l b t"
  by (auto simp: sent_to_def client_sink.sink_ok_def intro!: exI [of _ "[below b]"])

lemma ok_sent_to: "client_sink.sink_ok l b t \<Longrightarrow> sent_to b t"
  by (auto simp: sent_to_def client_sink.sink_ok_def)

lemma sendS_spec:
  assumes "sent_to (to_client t) x"
  shows "\<exists>b. sendS StringSink_write s t = Some (Inr (), t\<lparr>to_client := b\<rparr>) \<and> sent_to b (x @ s)"
proof -
  let ?l = "max (bufSize (to_client t)) (Suc (length s))"
  have "length s < ?l" by simp
  from client_sink.write_spec [OF sent_to_ok [OF assms, of ?l] this] show ?thesis
    by (auto simp: sendS_def dest: ok_sent_to)
qed

lemma flushS_spec:
  assumes "sent_to (to_client t) x"
  shows "\<exists>b. flushS StringSink_write t = Some (Inr (), t\<lparr>to_client := b\<rparr>) \<and> sent_to b x \<and> buffer b = []"
  using client_sink.flush_spec [OF sent_to_ok [OF assms order_refl]] by (auto simp: flushS_def dest: ok_sent_to)

lemma enqueue_pending:
  "\<not> canSendStderr t \<Longrightarrow> enqueueMsg wr s t = Some (Inr (), t\<lparr>pendingMsgs := pendingMsgs t @ [s]\<rparr>)"
  by (simp add: enqueueMsg_def retS_def)

lemma enqueue_send:
  assumes "canSendStderr t" "pendingMsgs t = []" "sent_to (to_client t) x"
  shows "\<exists>b. enqueueMsg StringSink_write s t = Some (Inr (), t\<lparr>to_client := b\<rparr>) \<and> sent_to b (x @ s)"
proof -
  obtain b where b: "sendS StringSink_write s t = Some (Inr (), t\<lparr>to_client := b\<rparr>)" "sent_to b (x @ s)"
    using sendS_spec [OF assms(3)] by blast
  obtain b' where "flushS StringSink_write (t\<lparr>to_client := b\<rparr>) = Some (Inr (), t\<lparr>to_client := b'\<rparr>)" "sent_to b' (x @ s)"
    using flushS_spec [of "t\<lparr>to_client := b\<rparr>"] b(2) by auto
  with b(1) assms(1,2) show ?thesis by (auto simp: enqueueMsg_def bindS_def intro!: exI [of _ b'])
qed

section \<open>An operation of the daemon\<close>

text \<open>Calls before \<open>startWork\<close> are queued; the operation ends with \<open>stopWork\<close> and a flush.\<close>

definition operation ::
    "'k writer \<Rightarrow> Version \<Rightarrow> u64 \<Rightarrow> (ErrorInfo \<Rightarrow> string) \<Rightarrow> log_call list \<Rightarrow> log_call list \<Rightarrow> DaemonError option
     \<Rightarrow> (unit, 'k TunnelLogger) st" where
  "operation wr v verbosity shown queued during ex =
     bindS (foldS (\<lambda>c _. perform wr v verbosity shown c) queued ()) (\<lambda>_.
     bindS (startWork wr) (\<lambda>_.
     bindS (foldS (\<lambda>c _. perform wr v verbosity shown c) during ()) (\<lambda>_.
     bindS (stopWork wr v ex) (\<lambda>_. flushS wr))))"

definition seen_error :: "Version \<Rightarrow> DaemonError \<Rightarrow> client_error" where
  "seen_error v e = (if at_least v 1 26 then RemoteError (de_info e) else StatusError (de_status e) (de_what e))"

definition error_ok :: "DaemonError \<Rightarrow> bool" where
  "error_ok e =
     (level (de_info e) \<le> uint_max \<and> length (msg (de_info e)) < 2 ^ 64 \<and> length (traces (de_info e)) < 2 ^ 64 \<and>
      list_all (\<lambda>t. length t < 2 ^ 64) (traces (de_info e)) \<and> length (de_what e) < 2 ^ 64 \<and> de_status e \<le> uint_max)"

text \<open>A list of messages carries a list of events.\<close>

definition carries_all :: "bool \<Rightarrow> Version \<Rightarrow> 's reader option \<Rightarrow> string list \<Rightarrow> event list \<Rightarrow> bool" where
  "carries_all sink v source bs es = list_all2 (carries sink v source) bs es"

lemma carries_all_loop:
  assumes "carries_all sink v source bs es"
  shows "stderr_loop v sink source st (concat bs @ s) = stderr_loop v sink source (st\<lparr>io_events := io_events st @ es\<rparr>) s"
  using assms unfolding carries_all_def
proof (induction bs es arbitrary: st rule: list_all2_induct)
  case (Cons b bs e es)
  have "stderr_loop v sink source st (b @ concat bs @ s) = stderr_loop v sink source (emit e st) (concat bs @ s)"
    using Cons.hyps(1) by (intro stderr_loop_step) (simp add: carries_def)
  then show ?case using Cons.IH [of "emit e st"] by (simp add: emit_def)
qed simp

lemma queued_spec:
  assumes "list_all (\<lambda>c. call_ok shown c \<and> \<not> is_dump c) cs" "\<not> canSendStderr t"
  shows "\<exists>bs. foldS (\<lambda>c _. perform wr v verbosity shown c) cs () t = Some (Inr (), t\<lparr>pendingMsgs := pendingMsgs t @ bs\<rparr>) \<and>
     carries_all sink v source bs (concat (map (call_events v verbosity shown) cs))"
  using assms
proof (induction cs arbitrary: t)
  case Nil
  then show ?case by (auto simp: retS_def carries_all_def intro!: exI [of _ "[]"])
next
  case (Cons c cs)
  from call_spec [of shown c v verbosity wr sink source] Cons.prems(1)
  consider "call_events v verbosity shown c = []" "perform wr v verbosity shown c = retS ()"
    | b e where "call_events v verbosity shown c = [e]" "perform wr v verbosity shown c = enqueueMsg wr b" "carries sink v source b e"
    by auto
  then show ?case
  proof cases
    case 1
    with Cons.IH [of t] Cons.prems show ?thesis by simp
  next
    case 2
    let ?t = "t\<lparr>pendingMsgs := pendingMsgs t @ [b]\<rparr>"
    obtain bs where bs: "foldS (\<lambda>c _. perform wr v verbosity shown c) cs () ?t = Some (Inr (), ?t\<lparr>pendingMsgs := pendingMsgs ?t @ bs\<rparr>)"
      "carries_all sink v source bs (concat (map (call_events v verbosity shown) cs))"
      using Cons.IH [of ?t] Cons.prems by auto
    have "perform wr v verbosity shown c t = Some (Inr (), ?t)" using Cons.prems by (simp add: 2 enqueue_pending)
    with bs 2 show ?thesis by (auto simp: bindS_def carries_all_def intro!: exI [of _ "b # bs"])
  qed
qed

lemma sends_all_spec:
  assumes "sent_to (to_client t) x"
  shows "\<exists>b. foldS (\<lambda>m _. sendS StringSink_write m) ms () t = Some (Inr (), t\<lparr>to_client := b\<rparr>) \<and> sent_to b (x @ concat ms)"
  using assms
proof (induction ms arbitrary: t x)
  case Nil
  then show ?case by (auto simp: retS_def intro!: exI [of _ "to_client t"])
next
  case (Cons m ms)
  obtain b where b: "sendS StringSink_write m t = Some (Inr (), t\<lparr>to_client := b\<rparr>)" "sent_to b (x @ m)"
    using sendS_spec [OF Cons.prems] by blast
  with Cons.IH [of "t\<lparr>to_client := b\<rparr>" "x @ m"] show ?case by (auto simp: bindS_def)
qed

lemma startWork_spec:
  assumes "sent_to (to_client t) x"
  shows "\<exists>b. startWork StringSink_write t = Some (Inr (), t\<lparr>canSendStderr := True, pendingMsgs := [], to_client := b\<rparr>) \<and>
    sent_to b (x @ concat (pendingMsgs t))"
proof -
  obtain b where b: "foldS (\<lambda>m _. sendS StringSink_write m) (pendingMsgs t) () (t\<lparr>canSendStderr := True\<rparr>) =
      Some (Inr (), t\<lparr>canSendStderr := True, to_client := b\<rparr>)" "sent_to b (x @ concat (pendingMsgs t))"
    using sends_all_spec [of "t\<lparr>canSendStderr := True\<rparr>" x "pendingMsgs t"] assms by auto
  from flushS_spec [of "t\<lparr>canSendStderr := True, to_client := b, pendingMsgs := []\<rparr>"] b show ?thesis
    by (auto simp: startWork_def bindS_def)
qed

lemma during_spec:
  assumes "list_all (\<lambda>c. call_ok shown c \<and> (is_dump c \<longrightarrow> sink)) cs" "canSendStderr t" "pendingMsgs t = []" "sent_to (to_client t) x"
  shows "\<exists>b bs. foldS (\<lambda>c _. perform StringSink_write v verbosity shown c) cs () t = Some (Inr (), t\<lparr>to_client := b\<rparr>) \<and>
     sent_to b (x @ concat bs) \<and> carries_all sink v source bs (concat (map (call_events v verbosity shown) cs))"
  using assms
proof (induction cs arbitrary: t x)
  case Nil
  then show ?case by (auto simp: retS_def carries_all_def intro!: exI [of _ "to_client t"] exI [of _ "[]"])
next
  case (Cons c cs)
  have one: "(call_events v verbosity shown c = [] \<and> perform StringSink_write v verbosity shown c t = Some (Inr (), t)) \<or>
    (\<exists>m e b. call_events v verbosity shown c = [e] \<and> carries sink v source m e \<and>
       perform StringSink_write v verbosity shown c t = Some (Inr (), t\<lparr>to_client := b\<rparr>) \<and> sent_to b (x @ m))"
  proof (cases c)
    case (DumpData d)
    obtain b where b: "sendS StringSink_write (writeNum STDERR_WRITE) t = Some (Inr (), t\<lparr>to_client := b\<rparr>)"
      "sent_to b (x @ writeNum STDERR_WRITE)" using sendS_spec [OF Cons.prems(4)] by blast
    obtain b' where b': "sendS StringSink_write (writeString d) (t\<lparr>to_client := b\<rparr>) = Some (Inr (), t\<lparr>to_client := b'\<rparr>)"
      "sent_to b' ((x @ writeNum STDERR_WRITE) @ writeString d)" using sendS_spec [of "t\<lparr>to_client := b\<rparr>"] b(2) by fastforce
    have "carries sink v source (writeNum STDERR_WRITE @ writeString d) (SinkData d)"
    proof -
      have "\<exists>b. seqW [putNum STDERR_WRITE, putStr d] = Inr b \<and> carries sink v source b (SinkData d)"
        using Cons.prems(1) DumpData
        by (intro carries_sends sends_msg) (auto simp: stderr_body_def stderr_codes intro!: sends_step [OF sends_str] sends_done)
      then show ?thesis by (simp add: seqW.simps putNum_def putStr_def)
    qed
    with b b' DumpData show ?thesis by (auto simp: TunnelSink_write_def bindS_def putNum_def liftS_def)
  qed (use call_spec [of shown c v verbosity StringSink_write sink source] enqueue_send [OF Cons.prems(2,3,4)] Cons.prems(1) in
    \<open>auto simp: retS_def; metis\<close>)+
  then show ?case
  proof (elim disjE exE conjE)
    assume "call_events v verbosity shown c = []" "perform StringSink_write v verbosity shown c t = Some (Inr (), t)"
    with Cons.IH [of t x] Cons.prems show ?thesis by (auto simp: bindS_def)
  next
    fix m e b
    assume *: "call_events v verbosity shown c = [e]" "carries sink v source m e"
      "perform StringSink_write v verbosity shown c t = Some (Inr (), t\<lparr>to_client := b\<rparr>)" "sent_to b (x @ m)"
    obtain b' bs where "foldS (\<lambda>c _. perform StringSink_write v verbosity shown c) cs () (t\<lparr>to_client := b\<rparr>) = Some (Inr (), t\<lparr>to_client := b'\<rparr>)"
      "sent_to b' ((x @ m) @ concat bs)" "carries_all sink v source bs (concat (map (call_events v verbosity shown) cs))"
      using Cons.IH [of "t\<lparr>to_client := b\<rparr>" "x @ m"] Cons.prems *(4) by auto
    with * show ?thesis
      by (auto simp: bindS_def carries_all_def intro!: exI [of _ b'] exI [of _ "m # bs"])
  qed
qed

lemma stop_spec:
  assumes "case ex of None \<Rightarrow> True | Some e \<Rightarrow> error_ok e" "sent_to (to_client t) x"
  shows "\<exists>b m. stopWork StringSink_write v ex t = Some (Inr (), t\<lparr>canSendStderr := False, to_client := b\<rparr>) \<and> sent_to b (x @ m) \<and>
    (\<forall>st s. stderr_msg v sink source st (m @ s) = Some (Inr ((st, Some (map_option (seen_error v) ex)), s)))"
proof -
  let ?w = "case ex of
         None \<Rightarrow> seqW [putNum STDERR_LAST]
       | Some e \<Rightarrow>
           if at_least v 1 26 then seqW [putNum STDERR_ERROR, Inr (writeError (de_info e))]
           else seqW [putNum STDERR_ERROR, putStr (de_what e), putNum (de_status e)]"
  have s: "sends ?w (stderr_msg v sink source st) (st, Some (map_option (seen_error v) ex))" for st
  proof (cases ex)
    case None
    then show ?thesis by (auto simp: stderr_body_def stderr_codes intro!: sends_msg sends_done)
  next
    case (Some e)
    have e: "sends (Inr (writeError (de_info e))) (getP readError) (de_info e)"
      using assms(1) readError_writeError [of "de_info e"] by (simp add: Some error_ok_def sends_def getP_def)
    show ?thesis
    proof (cases "at_least v 1 26")
      case True
      then show ?thesis
        by (auto simp: Some stderr_body_def stderr_codes seen_error_def intro!: sends_msg sends_step [OF e] sends_done)
    next
      case False
      then show ?thesis using assms(1)
        by (auto simp: Some error_ok_def stderr_body_def stderr_codes seen_error_def
            intro!: sends_msg sends_step [OF sends_str] sends_step [OF sends_num] sends_done)
    qed
  qed
  from sends_family [of ?w "stderr_msg v sink source" "\<lambda>st. (st, Some (map_option (seen_error v) ex))", OF s]
  obtain m where m: "?w = Inr m" "\<forall>st s. stderr_msg v sink source st (m @ s) = Some (Inr ((st, Some (map_option (seen_error v) ex)), s))"
    by blast
  obtain b where "sendS StringSink_write m (t\<lparr>canSendStderr := False\<rparr>) = Some (Inr (), t\<lparr>canSendStderr := False, to_client := b\<rparr>)"
    "sent_to b (x @ m)" using sendS_spec [of "t\<lparr>canSendStderr := False\<rparr>"] assms(2) by auto
  moreover have "stopWork StringSink_write v ex t = sendS StringSink_write m (t\<lparr>canSendStderr := False\<rparr>)"
    unfolding stopWork_def m(1) by simp
  ultimately show ?thesis using m(2) by (intro exI [of _ b] exI [of _ m]) simp
qed

lemma operation_spec:
  assumes "list_all (\<lambda>c. call_ok shown c \<and> \<not> is_dump c) queued" "list_all (\<lambda>c. call_ok shown c \<and> (is_dump c \<longrightarrow> sink)) during"
    "case ex of None \<Rightarrow> True | Some e \<Rightarrow> error_ok e" "\<not> canSendStderr t" "pendingMsgs t = []" "sent_to (to_client t) x"
  shows "\<exists>t' m. operation StringSink_write v verbosity shown queued during ex t = Some (Inr (), t') \<and>
    \<not> canSendStderr t' \<and> pendingMsgs t' = [] \<and> buffer (to_client t') = [] \<and> sent_to (to_client t') (x @ m) \<and>
    (\<forall>st s. stderr_loop v sink source st (m @ s) =
       Some (Inr ((st\<lparr>io_events := io_events st @ concat (map (call_events v verbosity shown) (queued @ during))\<rparr>,
                   map_option (seen_error v) ex), s)))"
proof -
  obtain ms where a: "foldS (\<lambda>c _. perform StringSink_write v verbosity shown c) queued () t = Some (Inr (), t\<lparr>pendingMsgs := ms\<rparr>)"
    "carries_all sink v source ms (concat (map (call_events v verbosity shown) queued))"
    using queued_spec [OF assms(1,4), of StringSink_write v verbosity sink source] assms(5) by auto
  obtain b where b: "startWork StringSink_write (t\<lparr>pendingMsgs := ms\<rparr>) = Some (Inr (), t\<lparr>canSendStderr := True, to_client := b\<rparr>)"
    "sent_to b (x @ concat ms)"
  proof -
    have "t\<lparr>canSendStderr := True, pendingMsgs := [], to_client := b\<rparr> = t\<lparr>canSendStderr := True, to_client := b\<rparr>" for b
      using assms(5) by (cases t) simp
    with startWork_spec [of "t\<lparr>pendingMsgs := ms\<rparr>" x] assms(6) that show thesis by auto
  qed
  obtain b' ms' where c: "foldS (\<lambda>c _. perform StringSink_write v verbosity shown c) during () (t\<lparr>canSendStderr := True, to_client := b\<rparr>) =
      Some (Inr (), t\<lparr>canSendStderr := True, to_client := b'\<rparr>)" "sent_to b' ((x @ concat ms) @ concat ms')"
    "carries_all sink v source ms' (concat (map (call_events v verbosity shown) during))"
    using during_spec [OF assms(2), of "t\<lparr>canSendStderr := True, to_client := b\<rparr>" "x @ concat ms" v verbosity source] b(2) assms(5) by auto
  obtain b2 m where d: "stopWork StringSink_write v ex (t\<lparr>canSendStderr := True, to_client := b'\<rparr>) =
      Some (Inr (), t\<lparr>canSendStderr := False, to_client := b2\<rparr>)" "sent_to b2 ((x @ concat ms @ concat ms') @ m)"
    "\<And>st s. stderr_msg v sink source st (m @ s) = Some (Inr ((st, Some (map_option (seen_error v) ex)), s))"
    using stop_spec [OF assms(3), of "t\<lparr>canSendStderr := True, to_client := b'\<rparr>" "x @ concat ms @ concat ms'" v sink source] c(2) by auto
  obtain b3 where e: "flushS StringSink_write (t\<lparr>canSendStderr := False, to_client := b2\<rparr>) =
      Some (Inr (), t\<lparr>canSendStderr := False, to_client := b3\<rparr>)" "sent_to b3 (x @ concat (ms @ ms') @ m)" "buffer b3 = []"
    using flushS_spec [of "t\<lparr>canSendStderr := False, to_client := b2\<rparr>"] d(2) by auto
  have "carries_all sink v source (ms @ ms') (concat (map (call_events v verbosity shown) (queued @ during)))"
    using a(2) c(3) by (simp add: carries_all_def list_all2_appendI)
  from carries_all_loop [OF this] have
    "stderr_loop v sink source st (concat (ms @ ms') @ m @ s) =
       Some (Inr ((st\<lparr>io_events := io_events st @ concat (map (call_events v verbosity shown) (queued @ during))\<rparr>,
                   map_option (seen_error v) ex), s))" for st s
    using stderr_loop_stop [OF d(3)] by simp
  moreover have "operation StringSink_write v verbosity shown queued during ex t = Some (Inr (), t\<lparr>canSendStderr := False, to_client := b3\<rparr>)"
    using a(1) b(1) c(1) d(1) e(1) by (simp add: operation_def bindS_def)
  ultimately show ?thesis using e(2,3) assms(5)
    by (intro exI [of _ "t\<lparr>canSendStderr := False, to_client := b3\<rparr>"] exI [of _ "concat (ms @ ms') @ m"]) simp
qed

section \<open>Properties\<close>

definition fresh_logger :: "nat \<Rightarrow> string TunnelLogger" where
  "fresh_logger n =
     \<lparr>canSendStderr = False, pendingMsgs = [], to_client = \<lparr>bufSize = n, buffer = [], below = []\<rparr>\<rparr>"

text \<open>C7: everything the daemon's code logs around an operation - before \<open>startWork\<close> or after it, and
  whatever the size of the buffer - reaches the client's logger in the order it was logged, followed by
  the outcome of the operation, and the client stops reading exactly at the end of the operation.\<close>

theorem tunnel_delivers:
  assumes "0 < n" "list_all (\<lambda>c. call_ok shown c \<and> \<not> is_dump c) queued"
    "list_all (\<lambda>c. call_ok shown c \<and> (is_dump c \<longrightarrow> sink)) during" "case ex of None \<Rightarrow> True | Some e \<Rightarrow> error_ok e"
  shows "\<exists>t. operation StringSink_write v verbosity shown queued during ex (fresh_logger n) = Some (Inr (), t) \<and>
    (\<forall>s. processStderrReturn xp what v sink source st (below (to_client t) @ s) =
       Some (Inr ((st\<lparr>io_events := io_events st @ concat (map (call_events v verbosity shown) (queued @ during))\<rparr>,
                   map_option (explain xp v what) (map_option (seen_error v) ex)), s)))"
proof -
  have "\<not> canSendStderr (fresh_logger n)" "pendingMsgs (fresh_logger n) = []" "sent_to (to_client (fresh_logger n)) []"
    using assms(1) by (simp_all add: fresh_logger_def sent_to_def)
  from operation_spec [OF assms(2,3,4) this, of v verbosity source] show ?thesis
    by (auto simp: sent_to_def processStderrReturn_def bindP_def retP_def)
qed

theorem tunnel_delivers_witness:
  "\<exists>t. operation StringSink_write latest 3 (\<lambda>e. msg e) [Log 3 ''queued''] [StartActivity 7 3 100 ''build'' [tInt 1, tString ''x''] 0, DumpData ''nar'']
      (Some \<lparr>de_info = \<lparr>level = 0, msg = ''failed'', traces = []\<rparr>, de_what = ''failed'', de_status = 1\<rparr>) (fresh_logger 4) = Some (Inr (), t) \<and>
    (\<forall>s. processStderrReturn [] (\<lambda>e. []) latest True (None :: nat reader option) \<lparr>io_events = [], io_source = 0, io_sent = []\<rparr> (below (to_client t) @ s) =
       Some (Inr ((\<lparr>io_events = [Printed ''queued'', ActivityStarted 7 3 100 ''build'' [tInt 1, tString ''x''] 0, SinkData ''nar''],
                    io_source = 0, io_sent = []\<rparr>, Some (RemoteError \<lparr>level = 0, msg = ''failed'', traces = []\<rparr>)), s)))"
proof -
  have v: "at_least latest 1 26" "\<not> number_less (number latest) (VersionNumber 1 20)" "\<not> number_less (number latest) (VersionNumber 1 36)"
    by (simp_all add: at_least_iff latest_def number_less_def)
  have c: "chomp ''queued\<newline>'' = ''queued''" by (simp add: chomp_def dropWhile_end_def)
  let ?ex = "Some \<lparr>de_info = \<lparr>level = 0, msg = ''failed'', traces = []\<rparr>, de_what = ''failed'', de_status = 1\<rparr>"
  have "case ?ex of None \<Rightarrow> True | Some e \<Rightarrow> error_ok e" by (simp add: error_ok_def uint_max_def)
  moreover have "list_all (\<lambda>c. call_ok (\<lambda>e. msg e) c \<and> \<not> is_dump c) [Log 3 ''queued'']" by simp
  moreover have "list_all (\<lambda>c. call_ok (\<lambda>e. msg e) c \<and> (is_dump c \<longrightarrow> True))
      [StartActivity 7 3 100 ''build'' [tInt 1, tString ''x''] 0, DumpData ''nar'']"
    by (simp add: fields_sendable_def uint_max_def short_def)
  ultimately show ?thesis
    using tunnel_delivers [of 4 "\<lambda>e. msg e" "[Log 3 ''queued'']" True
        "[StartActivity 7 3 100 ''build'' [tInt 1, tString ''x''] 0, DumpData ''nar'']" ?ex latest 3 "[]" "\<lambda>e. []"
        "None :: nat reader option" "\<lparr>io_events = [], io_source = 0, io_sent = []\<rparr>"]
    by (simp add: v c seen_error_def explain_def)
qed

text \<open>the client's loop over the messages of the daemon returns on every input: with the events and
  an outcome, or with an error.\<close>

theorem processStderrReturn_returns: "\<exists>r. processStderrReturn xp what v sink source st s = Some r"
  using reads_total [OF reads_processStderrReturn, of xp what v sink source st s] by blast

end
