(* ===== verification/Connection.thy ===== *)
theory Connection
  imports Tunnel Serve_Protocol
begin

text \<open>
  Opening a connection: the handshakes of \<open>src/src/libstore/worker-protocol-connection.cc\<close> and
  \<open>serve-protocol-connection.cc\<close>, with what \<open>RemoteStore::initConnection\<close> and \<open>processConnection\<close>
  (\<open>remote-store.cc\<close>, \<open>daemon.cc\<close>) do around them. Each side is a program over its buffered sink and
  the bytes that have arrived; the two run in any interleaving over a pair of streams, and a reader that
  lacks bytes waits.
\<close>

section \<open>Programs\<close>

datatype 'r process =
    Return 'r
  | Throw nix_error
  | Put string "'r process"
  | Flush "'r process"
  | Read "string \<Rightarrow> ('r process \<times> string) res option"

definition readP :: "'v stream \<Rightarrow> ('v \<Rightarrow> 'r process) \<Rightarrow> 'r process" where
  "readP d k = Read (bindP d (\<lambda>x. retP (k x)))"

definition putW :: "string res \<Rightarrow> 'r process \<Rightarrow> 'r process" where
  "putW w p = (case w of Inl e \<Rightarrow> Throw e | Inr b \<Rightarrow> Put b p)"

text \<open>\<open>if (b) to << x;\<close>\<close>

definition putW_if :: "bool \<Rightarrow> string res \<Rightarrow> 'r process \<Rightarrow> 'r process" where
  "putW_if b w p = (if b then putW w p else p)"

text \<open>A program at its sink; the bytes below the sink are on their way to the other side.\<close>

type_synonym 'r party = "'r process \<times> string BufferedSink"

fun party_step :: "'r party \<Rightarrow> string \<Rightarrow> ('r party \<times> string) option" where
  "party_step (Return r, b) arrived = None"
| "party_step (Throw e, b) arrived = None"
| "party_step (Put d p, b) arrived =
     (case BufferedSink_write StringSink_write d b of
        Inl e \<Rightarrow> Some ((Throw e, b), arrived)
      | Inr b' \<Rightarrow> Some ((p, b'), arrived))"
| "party_step (Flush p, b) arrived =
     (case BufferedSink_flush StringSink_write b of
        Inl e \<Rightarrow> Some ((Throw e, b), arrived)
      | Inr b' \<Rightarrow> Some ((p, b'), arrived))"
| "party_step (Read d, b) arrived =
     (case d arrived of
        None \<Rightarrow> None
      | Some (Inl e) \<Rightarrow> (if is_eof e then None else Some ((Throw e, b), arrived))
      | Some (Inr (p, rest)) \<Rightarrow> Some ((p, b), rest))"

text \<open>The two sides in any order.\<close>

inductive connection_step :: "'c party \<times> 's party \<Rightarrow> 'c party \<times> 's party \<Rightarrow> bool" where
  client: "party_step c (below (snd s)) = Some (c', rest) \<Longrightarrow>
    connection_step (c, s) (c', (fst s, (snd s)\<lparr>below := rest\<rparr>))"
| server: "party_step s (below (snd c)) = Some (s', rest) \<Longrightarrow>
    connection_step (c, s) ((fst c, (snd c)\<lparr>below := rest\<rparr>), s')"

section \<open>The worker protocol\<close>

definition WORKER_MAGIC_1 :: u64 where "WORKER_MAGIC_1 = 0x6e697863"
definition WORKER_MAGIC_2 :: u64 where "WORKER_MAGIC_2 = 0x6478696f"

definition featureDisableSetOptions :: string where "featureDisableSetOptions = ''disable-set-options''"

definition intersectFeatures :: "string list \<Rightarrow> string list \<Rightarrow> string list" where
  "intersectFeatures a b = fold (\<lambda>x res. if x \<in> set b then set_put x res else res) a []"

text \<open>\<open>readStrings<FeatureSet>\<close>\<close>

definition readFeatures :: "string list stream" where
  "readFeatures = bindP (getP readStrings) (\<lambda>ss. retP (fold set_put ss []))"

definition getVersion :: "VersionNumber stream" where
  "getVersion = bindP (getNum uint_max) (\<lambda>n. retP (fromWire (ucast n)))"

definition client_handshake :: "Version \<Rightarrow> (Version \<Rightarrow> 'r process) \<Rightarrow> 'r process" where
  "client_handshake localVersion ret =
     putW (putNum WORKER_MAGIC_1) (putW (putNum (ucast (toWire (number localVersion)))) (Flush (
     readP (getNum uint_max) (\<lambda>magic.
       if magic \<noteq> WORKER_MAGIC_2 then Throw (NixError Error ''nix-daemon protocol mismatch from'')
       else readP getVersion (\<lambda>daemonVersion.
         if major daemonVersion \<noteq> major (number latest) then Throw (NixError Error ''Nix daemon protocol version not supported'')
         else if number_less daemonVersion (VersionNumber 1 10) then Throw (NixError Error ''the Nix daemon version is too old'')
         else
           let protoVersionNumber = number_min daemonVersion (number localVersion);
               finish = (\<lambda>daemonFeatures. ret \<lparr>number = protoVersionNumber,
                           features = intersectFeatures daemonFeatures (features localVersion)\<rparr>)
           in if \<not> number_less protoVersionNumber (VersionNumber 1 38)
              then putW (Inr (writeStrings (features localVersion))) (Flush (readP readFeatures finish))
              else finish [])))))"

definition server_handshake :: "Version \<Rightarrow> (Version \<Rightarrow> 'r process) \<Rightarrow> 'r process" where
  "server_handshake localVersion ret =
     readP (getNum uint_max) (\<lambda>magic.
       if magic \<noteq> WORKER_MAGIC_1 then Throw (NixError Error ''protocol mismatch'')
       else putW (putNum WORKER_MAGIC_2) (putW (putNum (ucast (toWire (number localVersion)))) (Flush (
         readP getVersion (\<lambda>clientVersion.
           let protoVersionNumber = number_min clientVersion (number localVersion);
               finish = (\<lambda>clientFeatures. \<lparr>number = protoVersionNumber,
                           features = intersectFeatures clientFeatures (features localVersion)\<rparr>)
           in if \<not> number_less protoVersionNumber (VersionNumber 1 38)
              then readP readFeatures (\<lambda>clientFeatures.
                     putW (Inr (writeStrings (features localVersion))) (Flush (ret (finish clientFeatures))))
              else ret (finish []))))))"

definition client_postHandshake :: "Version \<Rightarrow> (ClientHandshakeInfo \<Rightarrow> 'r process) \<Rightarrow> 'r process" where
  "client_postHandshake protoVersion ret =
     putW_if (at_least protoVersion 1 14) (putNum 0) (
     putW_if (at_least protoVersion 1 11) (putBool False) (
     (if at_least protoVersion 1 33 then Flush else (\<lambda>p. p)) (
     readP (read_ClientHandshakeInfo protoVersion) ret)))"

definition server_postHandshake :: "Version \<Rightarrow> ClientHandshakeInfo \<Rightarrow> 'r process \<Rightarrow> 'r process" where
  "server_postHandshake protoVersion info p =
     (let rest = putW (write_ClientHandshakeInfo protoVersion info) p;
          reserve = (if at_least protoVersion 1 11 then readP (getNum uint_max) (\<lambda>_. rest) else rest)
      in if at_least protoVersion 1 14
         then readP (getNum uint_max) (\<lambda>affinity. if affinity \<noteq> 0 then readP (getNum uint_max) (\<lambda>_. reserve) else reserve)
         else reserve)"

text \<open>\<open>RemoteStore::initConnection\<close> up to the options, and \<open>processConnection\<close> up to the first request.
  \<open>protocol mismatch\<close> replaces a \<open>SerialisationError\<close> of the handshake and every error is wrapped; the
  program keeps the original one. The logger of the daemon has no messages yet.\<close>

definition initConnection :: "xp_settings \<Rightarrow> (client_error \<Rightarrow> string) \<Rightarrow> Version \<Rightarrow> (Version \<times> ClientHandshakeInfo) process" where
  "initConnection xp what localVersion =
     client_handshake localVersion (\<lambda>protoVersion.
       if number_less (number protoVersion) (number minimum) then Throw (NixError Error ''the Nix daemon version is too old'')
       else client_postHandshake protoVersion (\<lambda>info. Flush (
         readP (processStderrReturn xp what protoVersion False (None :: unit reader option) \<lparr>io_events = [], io_source = (), io_sent = []\<rparr>)
           (\<lambda>r. case snd r of
                 Some e \<Rightarrow> Throw (NixError Error (what e))
               | None \<Rightarrow> Return (protoVersion, info)))))"

definition processConnection :: "Version \<Rightarrow> ClientHandshakeInfo \<Rightarrow> Version process" where
  "processConnection localVersion info =
     server_handshake localVersion (\<lambda>protoVersion.
       if number_less (number protoVersion) (number minimum) then Throw (NixError Error ''the Nix client version is too old'')
       else server_postHandshake protoVersion info (
         Flush (putW (putNum STDERR_LAST) (Flush (Return protoVersion)))))"

section \<open>The serve protocol\<close>

definition SERVE_MAGIC_1 :: u64 where "SERVE_MAGIC_1 = 0x390c9deb"
definition SERVE_MAGIC_2 :: u64 where "SERVE_MAGIC_2 = 0x5452eecb"

definition serve_client_handshake :: "VersionNumber \<Rightarrow> (VersionNumber \<Rightarrow> 'r process) \<Rightarrow> 'r process" where
  "serve_client_handshake localVersion ret =
     putW (putNum SERVE_MAGIC_1) (putW (putNum (ucast (toWire localVersion))) (Flush (
     readP (getNum uint_max) (\<lambda>magic.
       if magic \<noteq> SERVE_MAGIC_2 then Throw (NixError Error ([CHR 0x27] @ ''nix-store --serve' protocol mismatch from '%s'' @ [CHR 0x27]))
       else readP getVersion (\<lambda>remoteVersion.
         if major remoteVersion \<noteq> 2 \<or> number_less remoteVersion (VersionNumber 2 5)
         then Throw (NixError Error (''unsupported 'nix-store --serve' protocol version on '%s'' @ [CHR 0x27]))
         else ret (number_min remoteVersion localVersion))))))"

definition serve_server_handshake :: "VersionNumber \<Rightarrow> (VersionNumber \<Rightarrow> 'r process) \<Rightarrow> 'r process" where
  "serve_server_handshake localVersion ret =
     readP (getNum uint_max) (\<lambda>magic.
       if magic \<noteq> SERVE_MAGIC_1 then Throw (NixError Error ''protocol mismatch'')
       else putW (putNum SERVE_MAGIC_2) (putW (putNum (ucast (toWire localVersion))) (Flush (
         readP getVersion (\<lambda>remoteVersion. ret (number_min remoteVersion localVersion))))))"

section \<open>Transition systems with the diamond property\<close>

text \<open>Steps that can be taken in any order: the order does not change how many steps there are nor where
  they lead.\<close>

locale diamond_system =
  fixes step :: "'a \<Rightarrow> 'a \<Rightarrow> bool" and inv :: "'a \<Rightarrow> bool"
  assumes inv_step: "inv s \<Longrightarrow> step s t \<Longrightarrow> inv t"
    and diamond: "inv s \<Longrightarrow> step s a \<Longrightarrow> step s b \<Longrightarrow> a \<noteq> b \<Longrightarrow> \<exists>c. step a c \<and> step b c"
begin

lemma strip:
  assumes "inv s" "step s a" "(step ^^ n) s t" "\<And>u. \<not> step t u"
  shows "\<exists>m. n = Suc m \<and> (step ^^ m) a t"
  using assms
proof (induction n arbitrary: s a)
  case 0
  then show ?case by simp
next
  case (Suc n)
  from Suc.prems(3) obtain b where b: "step s b" "(step ^^ n) b t" by (rule relpowp_Suc_E2)
  show ?case
  proof (cases "a = b")
    case False
    then obtain c where c: "step a c" "step b c" using diamond [OF Suc.prems(1,2) b(1)] by blast
    obtain m where m: "n = Suc m" "(step ^^ m) c t"
      using Suc.IH [OF inv_step [OF Suc.prems(1) b(1)] c(2) b(2) Suc.prems(4)] by blast
    then show ?thesis using relpowp_Suc_I2 [OF c(1) m(2)] by blast
  qed (use b in blast)
qed

text \<open>One execution that ends decides all of them.\<close>

lemma one_decides_all:
  assumes "inv s" "(step ^^ n) s t" "\<And>u. \<not> step t u" "(step ^^ m) s u"
  shows "m \<le> n \<and> (step ^^ (n - m)) u t"
  using assms(1,2,4)
proof (induction m arbitrary: s n)
  case 0
  then show ?case by simp
next
  case (Suc m)
  from Suc.prems(3) obtain a where a: "step s a" "(step ^^ m) a u" by (rule relpowp_Suc_E2)
  obtain k where k: "n = Suc k" "(step ^^ k) a t" using strip [OF Suc.prems(1) a(1) Suc.prems(2) assms(3)] by blast
  show ?case using Suc.IH [OF inv_step [OF Suc.prems(1) a(1)] k(2) a(2)] by (simp add: k(1))
qed

end

section \<open>The two sides commute\<close>

inductive well_read :: "'r process \<Rightarrow> bool" where
  "well_read (Return r)"
| "well_read (Throw e)"
| "well_read p \<Longrightarrow> well_read (Put d p)"
| "well_read p \<Longrightarrow> well_read (Flush p)"
| "reads d \<Longrightarrow> (\<And>s p r. d s = Some (Inr (p, r)) \<Longrightarrow> well_read p) \<Longrightarrow> well_read (Read d)"

inductive_simps well_read_simps [simp]:
  "well_read (Return r)" "well_read (Throw e)" "well_read (Put d p)" "well_read (Flush p)" "well_read (Read d)"

named_theorems well_read_intros \<open>programs, by their structure\<close>

declare well_read.intros(1-4) [well_read_intros]

lemma well_read_readP [well_read_intros]: "reads d \<Longrightarrow> (\<And>x. well_read (k x)) \<Longrightarrow> well_read (readP d k)"
  unfolding readP_def
  by (auto simp: bindP_def retP_def elim!: bind_ro.elims intro!: reads_bind reads_retP)

lemma well_read_putW [well_read_intros]: "well_read p \<Longrightarrow> well_read (putW w p)"
  by (cases w) (auto simp: putW_def)

lemma well_read_putW_if [well_read_intros]: "well_read p \<Longrightarrow> well_read (putW_if b w p)"
  by (auto simp: putW_if_def intro: well_read_putW)

lemma well_read_if [well_read_intros]: "well_read p \<Longrightarrow> well_read q \<Longrightarrow> well_read (if b then p else q)"
  by simp

text \<open>Writing to the sink appends below it and looks at nothing that is there.\<close>

lemma write_frame:
  "\<exists>buf app. \<forall>k. BufferedSink_write StringSink_write d (b\<lparr>below := k\<rparr>) = Inr (b\<lparr>buffer := buf, below := k @ app\<rparr>)"
proof (cases "d = [] \<or> length d < bufSize b - length (buffer b)")
  case True
  then have "BufferedSink_write StringSink_write d (b\<lparr>below := k\<rparr>) = Inr (b\<lparr>buffer := buffer b @ d, below := k @ []\<rparr>)" for k
    by (cases "d = []") (auto simp: BufferedSink_write.simps Let_def)
  then show ?thesis by blast
next
  case False
  then have "BufferedSink_write StringSink_write d (b\<lparr>below := k\<rparr>) = Inr (b\<lparr>buffer := [], below := k @ (buffer b @ d)\<rparr>)" for k
    by (subst BufferedSink_write.simps) (cases b, auto simp: BufferedSink_flush_def StringSink_write_def)
  then show ?thesis by blast
qed

lemma flush_frame:
  "BufferedSink_flush StringSink_write (b\<lparr>below := k\<rparr>) = Inr (b\<lparr>buffer := [], below := k @ buffer b\<rparr>)"
  by (cases b) (auto simp: BufferedSink_flush_def StringSink_write_def)

lemma step_frame:
  assumes "party_step (p, b) arrived = Some ((p', b'), rest)" "well_read p"
  shows "well_read p' \<and> (\<exists>buf app. b' = b\<lparr>buffer := buf, below := below b @ app\<rparr> \<and>
    (\<forall>k t. party_step (p, b\<lparr>below := k\<rparr>) (arrived @ t) = Some ((p', b\<lparr>buffer := buf, below := k @ app\<rparr>), rest @ t)))"
proof (cases p)
  case (Put d q)
  obtain buf app where f: "\<And>k. BufferedSink_write StringSink_write d (b\<lparr>below := k\<rparr>) = Inr (b\<lparr>buffer := buf, below := k @ app\<rparr>)"
    using write_frame [of d b] by blast
  with f [of "below b"] assms have "well_read p' \<and> b' = b\<lparr>buffer := buf, below := below b @ app\<rparr> \<and>
    (\<forall>k t. party_step (p, b\<lparr>below := k\<rparr>) (arrived @ t) = Some ((p', b\<lparr>buffer := buf, below := k @ app\<rparr>), rest @ t))"
    by (auto simp: Put)
  then show ?thesis by blast
next
  case (Flush q)
  from flush_frame [where b = b] flush_frame [where b = b and k = "below b"] assms
  have "well_read p' \<and> b' = b\<lparr>buffer := [], below := below b @ buffer b\<rparr> \<and>
    (\<forall>k t. party_step (p, b\<lparr>below := k\<rparr>) (arrived @ t) = Some ((p', b\<lparr>buffer := [], below := k @ buffer b\<rparr>), rest @ t))"
    by (auto simp: Flush)
  then show ?thesis by blast
next
  case (Read d)
  have d: "reads d" "\<And>s p r. d s = Some (Inr (p, r)) \<Longrightarrow> well_read p" using assms(2) by (auto simp: Read)
  consider "d arrived = Some (Inr (p', rest))" "b' = b"
    | e where "d arrived = Some (Inl e)" "\<not> is_eof e" "p' = Throw e" "b' = b" "rest = arrived"
    using assms(1) by (auto simp: Read split: option.splits sum.splits if_splits)
  then have "well_read p' \<and> b' = b\<lparr>buffer := buffer b, below := below b @ []\<rparr> \<and>
    (\<forall>k t. party_step (p, b\<lparr>below := k\<rparr>) (arrived @ t) = Some ((p', b\<lparr>buffer := buffer b, below := k @ []\<rparr>), rest @ t))"
  proof cases
    case 1
    with reads_SomeInr [OF d(1) 1(1)] d(2) [OF 1(1)] show ?thesis by (auto simp: Read)
  next
    case 2
    with reads_SomeInl [OF d(1) 2(1)] show ?thesis by (auto simp: Read)
  qed
  then show ?thesis by blast
qed (use assms in simp_all)

inductive_cases connection_stepE: "connection_step (c, s) t"

definition both_read :: "'c party \<times> 's party \<Rightarrow> bool" where
  "both_read cs = (well_read (fst (fst cs)) \<and> well_read (fst (snd cs)))"

interpretation connection: diamond_system connection_step both_read
proof
  fix x y :: "'c party \<times> 's party"
  assume "both_read x" "connection_step x y"
  then show "both_read y"
    by (cases x; cases "fst x"; cases "snd x") (auto simp: both_read_def elim!: connection_stepE dest!: step_frame)
next
  fix x y z :: "'c party \<times> 's party"
  assume inv: "both_read x" and y: "connection_step x y" and z: "connection_step x z" and ne: "y \<noteq> z"
  obtain p b q a where x: "x = ((p, b), (q, a))" by (metis surj_pair)
  have wr: "well_read p" "well_read q" using inv by (simp_all add: both_read_def x)
  have commute: "\<exists>u. connection_step t1 u \<and> connection_step t2 u"
    if c: "party_step (p, b) (below a) = Some ((p', b'), r)" and s: "party_step (q, a) (below b) = Some ((q', a'), r')"
      and t1: "t1 = ((p', b'), (q, a\<lparr>below := r\<rparr>))" and t2: "t2 = ((p, b\<lparr>below := r'\<rparr>), (q', a'))"
    for p' b' r q' a' r' and t1 t2 :: "'c party \<times> 's party"
  proof -
    obtain buf app where f: "b' = b\<lparr>buffer := buf, below := below b @ app\<rparr>"
      "\<And>k t. party_step (p, b\<lparr>below := k\<rparr>) (below a @ t) = Some ((p', b\<lparr>buffer := buf, below := k @ app\<rparr>), r @ t)"
      using step_frame [OF c wr(1)] by blast
    obtain buf2 app2 where g: "a' = a\<lparr>buffer := buf2, below := below a @ app2\<rparr>"
      "\<And>k t. party_step (q, a\<lparr>below := k\<rparr>) (below b @ t) = Some ((q', a\<lparr>buffer := buf2, below := k @ app2\<rparr>), r' @ t)"
      using step_frame [OF s wr(2)] by blast
    let ?u = "((p', b\<lparr>buffer := buf, below := r' @ app\<rparr>), (q', a\<lparr>buffer := buf2, below := r @ app2\<rparr>))"
    have "connection_step t1 ?u"
      using connection_step.server [of "(q, a\<lparr>below := r\<rparr>)" "(p', b')" "(q', a\<lparr>buffer := buf2, below := r @ app2\<rparr>)" "r' @ app"]
        g(2) [of r app] by (simp add: t1 f(1))
    moreover have "connection_step t2 ?u"
      using connection_step.client [of "(p, b\<lparr>below := r'\<rparr>)" "(q', a')" "(p', b\<lparr>buffer := buf, below := r' @ app\<rparr>)" "r @ app2"]
        f(2) [of r' app2] by (simp add: t2 g(1))
    ultimately show ?thesis by blast
  qed
  have moves: "(\<exists>p' b' r. party_step (p, b) (below a) = Some ((p', b'), r) \<and> t = ((p', b'), (q, a\<lparr>below := r\<rparr>))) \<or>
      (\<exists>q' a' r. party_step (q, a) (below b) = Some ((q', a'), r) \<and> t = ((p, b\<lparr>below := r\<rparr>), (q', a')))"
    if "connection_step x t" for t
    using that unfolding x by (auto elim!: connection_stepE)
  show "\<exists>c. connection_step y c \<and> connection_step z c"
    using moves [OF y] moves [OF z]
  proof (elim disjE exE conjE)
  qed (use ne commute in \<open>fastforce+\<close>)
qed

section \<open>Executions\<close>

text \<open>
  A description of a state: for each side its program, the bytes it has written that the other side has
  not read, and whether they are all flushed.
\<close>

type_synonym ('c, 's) situation = "('c process \<times> string \<times> bool) \<times> ('s process \<times> string \<times> bool)"

fun side :: "'r process \<times> string \<times> bool \<Rightarrow> 'r party \<Rightarrow> bool" where
  "side (p, x, flushed) c = (fst c = p \<and> sent_to (snd c) x \<and> (flushed \<longrightarrow> buffer (snd c) = []))"

definition describes :: "('c, 's) situation \<Rightarrow> 'c party \<times> 's party \<Rightarrow> bool" where
  "describes w cs = (side (fst w) (fst cs) \<and> side (snd w) (snd cs))"

text \<open>From every state that fits the first description some execution leads to one that fits the second.\<close>

definition goes :: "('c, 's) situation \<Rightarrow> ('c, 's) situation \<Rightarrow> bool" where
  "goes w w' = (\<forall>cs. describes w cs \<longrightarrow> (\<exists>cs' n. (connection_step ^^ n) cs cs' \<and> describes w' cs'))"

lemma goes_refl: "goes w w"
  unfolding goes_def by (intro allI impI exI [of _ "0 :: nat"] exI) (auto intro: relpowp_0_I)

lemma goes_trans [trans]:
  assumes "goes u v" "goes v w"
  shows "goes u w"
  unfolding goes_def
proof (intro allI impI)
  fix cs assume "describes u cs"
  then obtain cs1 n where 1: "(connection_step ^^ n) cs cs1" "describes v cs1" using assms(1) unfolding goes_def by blast
  then obtain cs2 m where 2: "(connection_step ^^ m) cs1 cs2" "describes w cs2" using assms(2) unfolding goes_def by blast
  have "(connection_step ^^ (n + m)) cs cs2" unfolding relpowp_add using 1(1) 2(1) by (rule relcomppI)
  with 2(2) show "\<exists>cs' n. (connection_step ^^ n) cs cs' \<and> describes w cs'" by blast
qed

lemma goes_step: "(\<And>cs. describes w cs \<Longrightarrow> \<exists>cs'. connection_step cs cs' \<and> describes w' cs') \<Longrightarrow> goes w w'"
  unfolding goes_def by (metis One_nat_def relpowp_1)

lemma sent_write:
  assumes "sent_to b x"
  shows "\<exists>b'. BufferedSink_write StringSink_write d b = Inr b' \<and> sent_to b' (x @ d)"
proof -
  let ?l = "max (bufSize b) (Suc (length d))"
  have "length d < ?l" by simp
  from client_sink.write_spec [OF sent_to_ok [OF assms, of ?l] this] show ?thesis by (auto dest: ok_sent_to)
qed

lemma sent_flush:
  assumes "sent_to b x"
  shows "\<exists>b'. BufferedSink_flush StringSink_write b = Inr b' \<and> sent_to b' x \<and> buffer b' = []"
  using client_sink.flush_spec [OF sent_to_ok [OF assms order_refl]] by (auto dest: ok_sent_to)

lemma client_put: "goes ((putW (Inr d) p, x, f), s) ((p, x @ d, False), s)"
proof (rule goes_step)
  fix cs assume "describes ((putW (Inr d) p, x, f), s) cs"
  then obtain b q a where cs: "cs = ((Put d p, b), (q, a))" "sent_to b x" "side s (q, a)"
    by (cases cs) (auto simp: describes_def putW_def)
  obtain b' where b: "BufferedSink_write StringSink_write d b = Inr b'" "sent_to b' (x @ d)" using sent_write [OF cs(2)] by blast
  then have "connection_step cs ((p, b'), (q, a))"
    using connection_step.client [of "(Put d p, b)" "(q, a)" "(p, b')" "below a"] by (simp add: cs)
  then show "\<exists>cs'. connection_step cs cs' \<and> describes ((p, x @ d, False), s) cs'"
    using b(2) cs(3) by (auto simp: describes_def)
qed

lemma server_put: "goes (c, (putW (Inr d) p, x, f)) (c, (p, x @ d, False))"
proof (rule goes_step)
  fix cs assume "describes (c, (putW (Inr d) p, x, f)) cs"
  then obtain b q a where cs: "cs = ((q, a), (Put d p, b))" "sent_to b x" "side c (q, a)"
    by (cases cs) (auto simp: describes_def putW_def)
  obtain b' where b: "BufferedSink_write StringSink_write d b = Inr b'" "sent_to b' (x @ d)" using sent_write [OF cs(2)] by blast
  then have "connection_step cs ((q, a), (p, b'))"
    using connection_step.server [of "(Put d p, b)" "(q, a)" "(p, b')" "below a"] by (simp add: cs)
  then show "\<exists>cs'. connection_step cs cs' \<and> describes (c, (p, x @ d, False)) cs'"
    using b(2) cs(3) by (auto simp: describes_def)
qed

lemma client_flush: "goes ((Flush p, x, f), s) ((p, x, True), s)"
proof (rule goes_step)
  fix cs assume "describes ((Flush p, x, f), s) cs"
  then obtain b q a where cs: "cs = ((Flush p, b), (q, a))" "sent_to b x" "side s (q, a)"
    by (cases cs) (auto simp: describes_def)
  obtain b' where b: "BufferedSink_flush StringSink_write b = Inr b'" "sent_to b' x" "buffer b' = []" using sent_flush [OF cs(2)] by blast
  then have "connection_step cs ((p, b'), (q, a))"
    using connection_step.client [of "(Flush p, b)" "(q, a)" "(p, b')" "below a"] by (simp add: cs)
  then show "\<exists>cs'. connection_step cs cs' \<and> describes ((p, x, True), s) cs'"
    using b(2,3) cs(3) by (auto simp: describes_def)
qed

lemma server_flush: "goes (c, (Flush p, x, f)) (c, (p, x, True))"
proof (rule goes_step)
  fix cs assume "describes (c, (Flush p, x, f)) cs"
  then obtain b q a where cs: "cs = ((q, a), (Flush p, b))" "sent_to b x" "side c (q, a)"
    by (cases cs) (auto simp: describes_def)
  obtain b' where b: "BufferedSink_flush StringSink_write b = Inr b'" "sent_to b' x" "buffer b' = []" using sent_flush [OF cs(2)] by blast
  then have "connection_step cs ((q, a), (p, b'))"
    using connection_step.server [of "(Flush p, b)" "(q, a)" "(p, b')" "below a"] by (simp add: cs)
  then show "\<exists>cs'. connection_step cs cs' \<and> describes (c, (p, x, True)) cs'"
    using b(2,3) cs(3) by (auto simp: describes_def)
qed

lemma sent_drop: "sent_to a y \<Longrightarrow> buffer a = [] \<Longrightarrow> sent_to (a\<lparr>below := y'\<rparr>) y'"
  by (simp add: sent_to_def)

lemma client_read:
  assumes "d y = Some (Inr (v, y'))"
  shows "goes ((readP d k, x, f), (q, y, True)) ((k v, x, f), (q, y', True))"
proof (rule goes_step)
  fix cs assume "describes ((readP d k, x, f), (q, y, True)) cs"
  then obtain b a where cs: "cs = ((readP d k, b), (q, a))" "sent_to b x" "f \<longrightarrow> buffer b = []" "sent_to a y" "buffer a = []"
    by (cases cs) (auto simp: describes_def)
  have y: "below a = y" using cs(4,5) by (simp add: sent_to_def)
  have "connection_step cs ((k v, b), (q, a\<lparr>below := y'\<rparr>))"
    using connection_step.client [of "(readP d k, b)" "(q, a)" "(k v, b)" y'] assms
    by (simp add: cs(1) y readP_def bindP_def retP_def)
  then show "\<exists>cs'. connection_step cs cs' \<and> describes ((k v, x, f), (q, y', True)) cs'"
    using cs sent_drop [OF cs(4,5)] by (intro exI [of _ "((k v, b), (q, a\<lparr>below := y'\<rparr>))"]) (simp add: describes_def)
qed

lemma server_read:
  assumes "d y = Some (Inr (v, y'))"
  shows "goes ((q, y, True), (readP d k, x, f)) ((q, y', True), (k v, x, f))"
proof (rule goes_step)
  fix cs assume "describes ((q, y, True), (readP d k, x, f)) cs"
  then obtain b a where cs: "cs = ((q, a), (readP d k, b))" "sent_to b x" "f \<longrightarrow> buffer b = []" "sent_to a y" "buffer a = []"
    by (cases cs) (auto simp: describes_def)
  have y: "below a = y" using cs(4,5) by (simp add: sent_to_def)
  have "connection_step cs ((q, a\<lparr>below := y'\<rparr>), (k v, b))"
    using connection_step.server [of "(readP d k, b)" "(q, a)" "(k v, b)" y'] assms
    by (simp add: cs(1) y readP_def bindP_def retP_def)
  then show "\<exists>cs'. connection_step cs cs' \<and> describes ((q, y', True), (k v, x, f)) cs'"
    using cs sent_drop [OF cs(4,5)] by (intro exI [of _ "((q, a\<lparr>below := y'\<rparr>), (k v, b))"]) (simp add: describes_def)
qed

section \<open>Values of the handshake\<close>

lemma intersectFeatures_sorted: "sorted_wrt (<) (intersectFeatures a b) \<and> set (intersectFeatures a b) = set a \<inter> set b"
proof -
  have "sorted_wrt (<) acc \<Longrightarrow> sorted_wrt (<) (fold (\<lambda>x res. if x \<in> set b then set_put x res else res) a acc) \<and>
      set (fold (\<lambda>x res. if x \<in> set b then set_put x res else res) a acc) = set acc \<union> (set a \<inter> set b)" for acc
    by (induction a arbitrary: acc) (auto simp: sorted_set_put set_set_put)
  from this [of "[]"] show ?thesis by (simp add: intersectFeatures_def)
qed

lemma intersectFeatures_eq: "intersectFeatures a b = sorted_list_of_set (set a \<inter> set b)"
  using intersectFeatures_sorted [of a b] by (metis finite_set sorted_list_of_set.idem_if_sorted_distinct strict_sorted_iff)

lemma readFeatures_spec:
  assumes "sorted_wrt (<) fs" "length fs < 2 ^ 64" "list_all short fs"
  shows "readFeatures (writeStrings fs @ s) = Some (Inr (fs, s))"
proof -
  have "fold set_put fs [] = fs" using fold_set_put [of "[]" fs] assms(1) by simp
  moreover have "list_all (\<lambda>s. length s < 2 ^ 64) fs" using assms(3) by (simp add: list_all_iff short_def)
  ultimately show ?thesis using assms(2) strs.dec_enc [of fs s]
    by (simp add: readFeatures_def bindP_def getP_def retP_def)
qed

lemma getNum_magic: "n \<le> uint_max \<Longrightarrow> getNum uint_max (writeNum n @ s) = Some (Inr (n, s))"
  by (simp add: getNum_def getP_def num.dec_enc)

lemma getVersion_spec:
  assumes "major v < 256"
  shows "getVersion (writeNum (ucast (toWire v)) @ s) = Some (Inr (v, s))"
  using getNum_magic [OF u32_bound, of "toWire v" s] toWire_fromWire [OF assms]
  by (simp add: getVersion_def bindP_def retP_def u32_ucast)

definition version_ok :: "Version \<Rightarrow> bool" where
  "version_ok v = (major (number v) < 256 \<and> sorted_wrt (<) (features v) \<and> length (features v) < 2 ^ 64 \<and> list_all short (features v))"

text \<open>What both sides agree on.\<close>

definition negotiated :: "Version \<Rightarrow> Version \<Rightarrow> Version" where
  "negotiated cv sv =
     (let n = number_min (number sv) (number cv)
      in \<lparr>number = n, features = (if number_less n (VersionNumber 1 38) then []
                                 else sorted_list_of_set (set (features cv) \<inter> set (features sv)))\<rparr>)"

lemma number_min_commute: "number_min a b = number_min b a"
  by (cases a; cases b) (auto simp: number_min_def number_less_def)

lemma features_exchange:
  assumes c: "version_ok cv" and v: "version_ok sv"
  shows "goes
    ((if \<not> number_less n (VersionNumber 1 38) then putW (Inr (writeStrings (features cv))) (Flush (readP readFeatures k)) else k [], [], True),
     (if \<not> number_less n (VersionNumber 1 38)
      then readP readFeatures (\<lambda>fs. putW (Inr (writeStrings (features sv))) (Flush (l fs))) else l [], [], True))
    ((k (if number_less n (VersionNumber 1 38) then [] else features sv), [], True),
     (l (if number_less n (VersionNumber 1 38) then [] else features cv), [], True))"
proof (cases "number_less n (VersionNumber 1 38)")
  case True
  then show ?thesis by (simp add: goes_refl)
next
  case False
  have feat: "readFeatures (writeStrings (features cv)) = Some (Inr (features cv, []))"
    "readFeatures (writeStrings (features sv)) = Some (Inr (features sv, []))"
    using c v readFeatures_spec [of _ "[]"] by (simp_all add: version_ok_def)
  note norm = append_Nil False if_False if_True not_False_eq_True
  show ?thesis
    apply (simp only: norm)
    apply (rule goes_trans [OF client_put], rule goes_trans [OF client_flush], simp only: norm)
    apply (rule goes_trans [OF server_read], rule feat(1))
    apply (rule goes_trans [OF server_put], rule goes_trans [OF server_flush], simp only: norm)
    apply (rule goes_trans [OF client_read], rule feat(2))
    apply (rule goes_refl)
    done
qed

lemma negotiated_features:
  "\<lparr>number = number_min (number sv) (number cv),
     features = intersectFeatures (if number_less (number_min (number sv) (number cv)) (VersionNumber 1 38) then [] else features sv) (features cv)\<rparr> =
   negotiated cv sv"
  "\<lparr>number = number_min (number sv) (number cv),
     features = intersectFeatures (if number_less (number_min (number sv) (number cv)) (VersionNumber 1 38) then [] else features cv) (features sv)\<rparr> =
   negotiated cv sv"
  by (simp_all add: negotiated_def Let_def intersectFeatures_eq Int_commute)

lemma handshake_goes:
  assumes c: "version_ok cv" and v: "version_ok sv" "major (number sv) = 1" "\<not> number_less (number sv) (VersionNumber 1 10)"
  shows "goes ((client_handshake cv k, [], True), (server_handshake sv l, [], True))
    ((k (negotiated cv sv), [], True), (l (negotiated cv sv), [], True))"
proof -
  let ?n = "number_min (number sv) (number cv)"
  have magic: "getNum uint_max (writeNum WORKER_MAGIC_1 @ s) = Some (Inr (WORKER_MAGIC_1, s))"
    "getNum uint_max (writeNum WORKER_MAGIC_2 @ s) = Some (Inr (WORKER_MAGIC_2, s))" for s
    by (rule getNum_magic, simp add: WORKER_MAGIC_1_def WORKER_MAGIC_2_def uint_max_def)+
  have vers: "getVersion (writeNum (ucast (toWire (number cv))) @ s) = Some (Inr (number cv, s))"
    "getVersion (writeNum (ucast (toWire (number sv))) @ s) = Some (Inr (number sv, s))" for s
    using c v by (simp_all add: getVersion_spec version_ok_def)
  have ok: "major (number latest) = 1" by (simp add: latest_def)
  have m: "number_min (number cv) (number sv) = ?n" by (rule number_min_commute)
  note norm = append_Nil append_assoc if_False not_False_eq_True if_True simp_thms Let_def v(2,3) ok m
  show ?thesis
    unfolding client_handshake_def server_handshake_def putNum_def
    apply (rule goes_trans [OF client_put], rule goes_trans [OF client_put], rule goes_trans [OF client_flush], simp only: norm)
    apply (rule goes_trans [OF server_read], rule magic(1), simp only: norm)
    apply (rule goes_trans [OF server_put], rule goes_trans [OF server_put], rule goes_trans [OF server_flush], simp only: norm)
    apply (rule goes_trans [OF client_read], rule magic(2), simp only: norm)
    apply (rule goes_trans [OF client_read], rule vers(2) [of "[]", unfolded append_Nil2], simp only: norm)
    apply (rule goes_trans [OF server_read], rule vers(1) [of "[]", unfolded append_Nil2], simp only: norm)
    apply (rule goes_trans [OF features_exchange [OF c v(1)]])
    apply (simp only: negotiated_features)
    apply (rule goes_refl)
    done
qed

lemma at_least_mono: "at_least v 1 a \<Longrightarrow> b \<le> a \<Longrightarrow> at_least v 1 b"
  by (auto simp: at_least_iff number_less_def dest: less_le_trans)

text \<open>What follows the handshake, for the two orders in which the client flushes.\<close>

lemma post_goes:
  fixes xp what
  defines "finish \<equiv> \<lambda>v i. readP (processStderrReturn xp what v False (None :: unit reader option) \<lparr>io_events = [], io_source = (), io_sent = []\<rparr>)
      (\<lambda>r. case snd r of Some e \<Rightarrow> Throw (NixError Error (what e)) | None \<Rightarrow> Return (v, i))"
  assumes v: "at_least v 1 18" and info: "at_least v 1 33 \<Longrightarrow> \<exists>n. daemonNixVersion info = Some n \<and> short n"
  shows "goes ((client_postHandshake v (\<lambda>i. Flush (finish v i)), [], True),
      (server_postHandshake v info (Flush (putW (putNum STDERR_LAST) (Flush (Return v)))), [], True))
    ((Return (v, received_handshake v info), [], True), (Return v, [], True))"
proof -
  obtain b where b: "write_ClientHandshakeInfo v info = Inr b"
    "\<And>s. read_ClientHandshakeInfo v (b @ s) = Some (Inr (received_handshake v info, s))"
    using sends_handshake_info [OF info] unfolding sends_def by auto
  have num: "getNum uint_max (writeNum 0 @ s) = Some (Inr (0, s))" for s by (simp add: getNum_magic)
  have num0: "getNum uint_max (writeNum 0) = Some (Inr (0, []))" using num [of "[]"] by simp
  have old: "at_least v 1 14" "at_least v 1 11"
    by (rule at_least_mono [OF v], simp)+
  have last: "processStderrReturn xp what v False (None :: unit reader option) st (writeNum STDERR_LAST) = Some (Inr ((st, None), []))" for st
  proof -
    have "stderr_msg v False (None :: unit reader option) st (writeNum STDERR_LAST) = Some (Inr ((st, Some None), []))"
      using num.dec_enc [of STDERR_LAST size_max "[]"]
      by (simp add: stderr_msg_def bindP_def getNum_def getP_def stderr_body_def stderr_codes retP_def)
    from stderr_loop_stop [OF this] show ?thesis by (simp add: processStderrReturn_def bindP_def retP_def)
  qed
  have c_out: "putBool False = Inr (writeNum 0)" by (simp add: putBool_def putNum_def)
  note norm = append_Nil append_assoc append_Nil2 if_True if_False simp_thms old b(1) snd_conv option.case
  show ?thesis
  proof (cases "at_least v 1 33")
    case True
    show ?thesis
      unfolding client_postHandshake_def server_postHandshake_def putW_if_def c_out putNum_def Let_def finish_def
      apply (simp only: norm True)
      apply (rule goes_trans [OF client_put], rule goes_trans [OF client_put], rule goes_trans [OF client_flush], simp only: norm)
      apply (rule goes_trans [OF server_read], rule num, simp only: norm)
      apply (rule goes_trans [OF server_read], rule num0)
      apply (rule goes_trans [OF server_put], rule goes_trans [OF server_flush], rule goes_trans [OF server_put],
        rule goes_trans [OF server_flush], simp only: norm)
      apply (rule goes_trans [OF client_read], rule b(2), rule goes_trans [OF client_flush])
      apply (rule goes_trans [OF client_read], rule last, simp only: norm)
      apply (rule goes_refl)
      done
  next
    case False
    then have new: "\<not> at_least v 1 35" using at_least_mono [of v 35 33] by auto
    have i: "received_handshake v info = \<lparr>daemonNixVersion = None, remoteTrustsUs = None\<rparr>"
      using False new by (simp add: received_handshake_def)
    have r: "read_ClientHandshakeInfo v s = Some (Inr (received_handshake v info, s))" for s
      using False new unfolding i by (simp add: read_ClientHandshakeInfo_def retP_def)
    have "b = []" using b(1) False new by (simp add: write_ClientHandshakeInfo_def seqW.simps)
    show ?thesis
      unfolding client_postHandshake_def server_postHandshake_def putW_if_def c_out putNum_def Let_def finish_def
      apply (simp only: norm False)
      apply (rule goes_trans [OF client_put], rule goes_trans [OF client_put], simp only: norm)
      apply (rule goes_trans [OF client_read], rule r, rule goes_trans [OF client_flush])
      apply (rule goes_trans [OF server_read], rule num, simp only: norm)
      apply (rule goes_trans [OF server_read], rule num0)
      apply (rule goes_trans [OF server_put], rule goes_trans [OF server_flush], rule goes_trans [OF server_put],
        rule goes_trans [OF server_flush], simp only: norm \<open>b = []\<close>)
      apply (rule goes_trans [OF client_read], rule last, simp only: norm)
      apply (rule goes_refl)
      done
  qed
qed

section \<open>Every execution\<close>

definition fresh_sink :: "nat \<Rightarrow> string BufferedSink" where
  "fresh_sink n = \<lparr>bufSize = n, buffer = [], below = []\<rparr>"

text \<open>Whatever happens, at most \<open>n\<close> steps happen, and what has happened can be continued to the end.\<close>

definition always_ends :: "'c party \<times> 's party \<Rightarrow> ('c party \<times> 's party \<Rightarrow> bool) \<Rightarrow> bool" where
  "always_ends s P =
     (\<exists>n t. P t \<and> (\<forall>u. \<not> connection_step t u) \<and>
        (\<forall>m u. (connection_step ^^ m) s u \<longrightarrow> m \<le> n \<and> (connection_step ^^ (n - m)) u t))"

fun ended :: "'r process \<Rightarrow> bool" where
  "ended (Return r) = True"
| "ended (Throw e) = True"
| "ended p = False"

lemma ended_stuck: "ended p \<Longrightarrow> ended q \<Longrightarrow> \<not> connection_step ((p, b), (q, a)) u"
  by (cases p; cases q) (auto elim!: connection_stepE)

lemma always_endsI:
  assumes g: "goes ((p, [], True), (q, [], True)) ((p', x, True), (q', y, True))"
    and fin: "\<And>b a. buffer b = [] \<Longrightarrow> below b = x \<Longrightarrow> buffer a = [] \<Longrightarrow> below a = y \<Longrightarrow> P ((p', b), (q', a))"
    and e: "ended p'" "ended q'" and wr: "well_read p" "well_read q" and pos: "0 < n" "0 < m"
  shows "always_ends ((p, fresh_sink n), (q, fresh_sink m)) P"
proof -
  let ?s = "((p, fresh_sink n), (q, fresh_sink m))"
  have "describes ((p, [], True), (q, [], True)) ?s"
    using pos by (simp add: describes_def fresh_sink_def sent_to_def)
  then obtain b a k where t: "(connection_step ^^ k) ?s ((p', b), (q', a))" "describes ((p', x, True), (q', y, True)) ((p', b), (q', a))"
    using g unfolding goes_def by (fastforce simp: describes_def)
  have "P ((p', b), (q', a))" using fin [of b a] t(2) by (auto simp: describes_def sent_to_def)
  moreover have "both_read ?s" using wr by (simp add: both_read_def)
  ultimately show ?thesis
    using connection.one_decides_all [OF _ t(1) ended_stuck [OF e]] ended_stuck [OF e] unfolding always_ends_def by blast
qed

section \<open>The programs read well\<close>

lemma reads_getVersion [reads_intros]: "reads getVersion"
  unfolding getVersion_def by (intro reads_intros)

lemma reads_readFeatures [reads_intros]: "reads readFeatures"
  unfolding readFeatures_def by (intro reads_intros parses_intros)

lemma reads_ClientHandshakeInfo [reads_intros]: "reads (read_ClientHandshakeInfo v)"
  unfolding read_ClientHandshakeInfo_def read_opt_TrustedFlag_def by (intro reads_intros)

lemma well_read_client_handshake [well_read_intros]:
  "(\<And>v. well_read (k v)) \<Longrightarrow> well_read (client_handshake cv k)"
  unfolding client_handshake_def Let_def by (intro well_read_intros reads_intros)

lemma well_read_server_handshake [well_read_intros]:
  "(\<And>v. well_read (k v)) \<Longrightarrow> well_read (server_handshake sv k)"
  unfolding server_handshake_def Let_def by (intro well_read_intros reads_intros)

lemma well_read_client_post [well_read_intros]:
  "(\<And>i. well_read (k i)) \<Longrightarrow> well_read (client_postHandshake v k)"
  unfolding client_postHandshake_def
  by (cases "at_least v 1 33") (auto intro!: well_read_intros reads_intros)

lemma well_read_server_post [well_read_intros]: "well_read p \<Longrightarrow> well_read (server_postHandshake v info p)"
  unfolding server_postHandshake_def Let_def by (intro well_read_intros reads_intros)

lemma well_read_opening: "well_read (initConnection xp what cv)" "well_read (processConnection sv info)"
proof -
  have r: "well_read (case r of None \<Rightarrow> Return x | Some e \<Rightarrow> Throw (f e))" for r :: "'e option" and x :: 'x and f
    by (cases r) simp_all
  show "well_read (initConnection xp what cv)" "well_read (processConnection sv info)"
    unfolding initConnection_def processConnection_def by (intro well_read_intros reads_intros r)+
qed

section \<open>Properties\<close>

lemma opening_goes:
  assumes "version_ok cv" "version_ok sv" "major (number sv) = 1" "\<not> number_less (number sv) (VersionNumber 1 10)"
  shows "goes ((initConnection xp what cv, [], True), (processConnection sv info, [], True))
    ((if number_less (number (negotiated cv sv)) (number minimum) then Throw (NixError Error ''the Nix daemon version is too old'')
      else client_postHandshake (negotiated cv sv) (\<lambda>i. Flush (
         readP (processStderrReturn xp what (negotiated cv sv) False (None :: unit reader option) \<lparr>io_events = [], io_source = (), io_sent = []\<rparr>)
           (\<lambda>r. case snd r of Some e \<Rightarrow> Throw (NixError Error (what e)) | None \<Rightarrow> Return (negotiated cv sv, i)))), [], True),
     (if number_less (number (negotiated cv sv)) (number minimum) then Throw (NixError Error ''the Nix client version is too old'')
      else server_postHandshake (negotiated cv sv) info (Flush (putW (putNum STDERR_LAST) (Flush (Return (negotiated cv sv))))), [], True))"
  unfolding initConnection_def processConnection_def by (rule handshake_goes [OF assms])

lemma number_min_le: "\<not> number_less (number_min a b) c \<Longrightarrow> \<not> number_less a c"
  by (cases a; cases b; cases c) (auto simp: number_min_def number_less_def split: if_splits)

text \<open>C6: a client and a daemon that open a worker connection both return, in every interleaving of
  their steps and for every size of their buffers, within a fixed number of steps and from whatever point
  they have reached: neither waits for bytes that the other keeps in its buffer. They agree on the smaller
  of the two version numbers and, from 1.38 on, on the features both have, and the client knows what the
  daemon told it.\<close>

theorem connection_opens:
  assumes "version_ok cv" "version_ok sv" "major (number sv) = 1" "\<not> number_less (number_min (number sv) (number cv)) (VersionNumber 1 18)"
    and "\<exists>nixVersion. daemonNixVersion info = Some nixVersion \<and> short nixVersion" and "0 < n" "0 < m"
  shows "always_ends ((initConnection xp what cv, fresh_sink n), (processConnection sv info, fresh_sink m))
    (\<lambda>((p, b), (q, a)). p = Return (negotiated cv sv, received_handshake (negotiated cv sv) info) \<and>
       q = Return (negotiated cv sv) \<and> buffer b = [] \<and> below b = [] \<and> buffer a = [] \<and> below a = [])"
proof (rule always_endsI)
  have num: "number (negotiated cv sv) = number_min (number sv) (number cv)" by (simp add: negotiated_def Let_def)
  have new: "at_least (negotiated cv sv) 1 18" using assms(4) by (simp add: at_least_iff num)
  then have old: "\<not> number_less (number (negotiated cv sv)) (number minimum)" by (simp add: at_least_iff minimum_def)
  have "\<not> number_less (number sv) (VersionNumber 1 18)" using assms(4) by (rule number_min_le)
  then have "\<not> number_less (number sv) (VersionNumber 1 10)"
    using at_least_mono [of sv 18 10] by (simp add: at_least_iff)
  from opening_goes [OF assms(1,2,3) this, of xp what info] post_goes [OF new assms(5), of xp what]
  show "goes ((initConnection xp what cv, [], True), (processConnection sv info, [], True))
    ((Return (negotiated cv sv, received_handshake (negotiated cv sv) info), [], True), (Return (negotiated cv sv), [], True))"
    unfolding if_not_P [OF old] by (rule goes_trans)
qed (use assms(6,7) in \<open>simp_all add: well_read_opening\<close>)

theorem connection_opens_witness:
  "always_ends ((initConnection [] (\<lambda>e. []) \<lparr>number = VersionNumber 1 37, features = []\<rparr>, fresh_sink 3),
      (processConnection latest \<lparr>daemonNixVersion = Some ''2.34'', remoteTrustsUs = Some Trusted\<rparr>, fresh_sink 32768))
    (\<lambda>((p, b), (q, a)). p = Return (\<lparr>number = VersionNumber 1 37, features = []\<rparr>, \<lparr>daemonNixVersion = Some ''2.34'', remoteTrustsUs = Some Trusted\<rparr>) \<and>
       q = Return \<lparr>number = VersionNumber 1 37, features = []\<rparr> \<and> buffer b = [] \<and> below b = [] \<and> buffer a = [] \<and> below a = [])"
proof -
  let ?cv = "\<lparr>number = VersionNumber 1 37, features = []\<rparr>" and ?i = "\<lparr>daemonNixVersion = Some ''2.34'', remoteTrustsUs = Some Trusted\<rparr>"
  have n: "negotiated ?cv latest = ?cv"
    by (simp add: negotiated_def latest_def number_min_def number_less_def Let_def)
  have r: "received_handshake ?cv ?i = ?i"
    by (simp add: received_handshake_def at_least_iff number_less_def)
  have "version_ok ?cv" "version_ok latest"
    by (simp_all add: version_ok_def latest_def featureRealisationWithPath_def featureDeleteDeadSpecificReferrers_def short_def less_char_def)
  moreover have "major (number latest) = 1" "\<not> number_less (number_min (number latest) (number ?cv)) (VersionNumber 1 18)"
    by (simp_all add: latest_def number_min_def number_less_def)
  moreover have "\<exists>v. daemonNixVersion ?i = Some v \<and> short v" by (simp add: short_def)
  ultimately show ?thesis
    using connection_opens [of ?cv latest ?i 3 32768 "[]" "\<lambda>e. []"] by (simp add: n r)
qed

text \<open>C12: when the smaller version is below 1.18 both sides give up with an error of their own, in every
  interleaving, and neither is left waiting.\<close>

theorem connection_too_old:
  assumes "version_ok cv" "version_ok sv" "major (number sv) = 1" "\<not> number_less (number sv) (VersionNumber 1 10)"
    and "number_less (number_min (number sv) (number cv)) (VersionNumber 1 18)" and "0 < n" "0 < m"
  shows "always_ends ((initConnection xp what cv, fresh_sink n), (processConnection sv info, fresh_sink m))
    (\<lambda>((p, b), (q, a)). p = Throw (NixError Error ''the Nix daemon version is too old'') \<and>
       q = Throw (NixError Error ''the Nix client version is too old''))"
proof (rule always_endsI)
  have old: "number_less (number (negotiated cv sv)) (number minimum)"
    using assms(5) by (simp add: negotiated_def Let_def minimum_def)
  show "goes ((initConnection xp what cv, [], True), (processConnection sv info, [], True))
    ((Throw (NixError Error ''the Nix daemon version is too old''), [], True), (Throw (NixError Error ''the Nix client version is too old''), [], True))"
    using opening_goes [OF assms(1-4), of xp what info] unfolding if_P [OF old] .
qed (use assms(6,7) in \<open>simp_all add: well_read_opening\<close>)

theorem connection_too_old_witness:
  "always_ends ((initConnection [] (\<lambda>e. []) latest, fresh_sink 1),
      (processConnection \<lparr>number = VersionNumber 1 12, features = []\<rparr> \<lparr>daemonNixVersion = None, remoteTrustsUs = None\<rparr>, fresh_sink 1))
    (\<lambda>((p, b), (q, a)). p = Throw (NixError Error ''the Nix daemon version is too old'') \<and>
       q = Throw (NixError Error ''the Nix client version is too old''))"
proof (rule connection_too_old)
  show "version_ok latest" "version_ok \<lparr>number = VersionNumber 1 12, features = []\<rparr>"
    by (simp_all add: version_ok_def latest_def featureRealisationWithPath_def featureDeleteDeadSpecificReferrers_def short_def less_char_def)
qed (simp_all add: latest_def number_min_def number_less_def)

lemma serve_handshake_goes:
  assumes "major cv < 256" "major sv = 2" "\<not> number_less sv (VersionNumber 2 5)"
  shows "goes ((serve_client_handshake cv Return, [], True), (serve_server_handshake sv Return, [], True))
    ((Return (number_min sv cv), [], True), (Return (number_min sv cv), [], True))"
proof -
  have magic: "getNum uint_max (writeNum SERVE_MAGIC_1 @ s) = Some (Inr (SERVE_MAGIC_1, s))"
    "getNum uint_max (writeNum SERVE_MAGIC_2 @ s) = Some (Inr (SERVE_MAGIC_2, s))" for s
    by (rule getNum_magic, simp add: SERVE_MAGIC_1_def SERVE_MAGIC_2_def uint_max_def)+
  have vers: "getVersion (writeNum (ucast (toWire cv))) = Some (Inr (cv, []))" "getVersion (writeNum (ucast (toWire sv))) = Some (Inr (sv, []))"
    using getVersion_spec [of _ "[]"] assms by simp_all
  note norm = append_Nil append_assoc append_Nil2 if_False simp_thms assms(2,3) number_min_commute [of cv sv]
  show ?thesis
    unfolding serve_client_handshake_def serve_server_handshake_def putNum_def
    apply (rule goes_trans [OF client_put], rule goes_trans [OF client_put], rule goes_trans [OF client_flush], simp only: norm)
    apply (rule goes_trans [OF server_read], rule magic(1), simp only: norm)
    apply (rule goes_trans [OF server_put], rule goes_trans [OF server_put], rule goes_trans [OF server_flush], simp only: norm)
    apply (rule goes_trans [OF client_read], rule magic(2), simp only: norm)
    apply (rule goes_trans [OF client_read], rule vers(2), simp only: norm)
    apply (rule goes_trans [OF server_read], rule vers(1), simp only: norm)
    apply (rule goes_refl)
    done
qed

text \<open>C33: the handshake of the serve protocol returns on both sides in every interleaving, with the smaller
  of the two versions.\<close>

theorem serve_handshake_agrees:
  assumes "major cv < 256" "major sv = 2" "\<not> number_less sv (VersionNumber 2 5)" "0 < n" "0 < m"
  shows "always_ends ((serve_client_handshake cv Return, fresh_sink n), (serve_server_handshake sv Return, fresh_sink m))
    (\<lambda>((p, b), (q, a)). p = Return (number_min sv cv) \<and> q = Return (number_min sv cv) \<and>
       buffer b = [] \<and> below b = [] \<and> buffer a = [] \<and> below a = [])"
proof (rule always_endsI [OF serve_handshake_goes [OF assms(1,2,3)]])
  show "well_read (serve_client_handshake cv Return)" "well_read (serve_server_handshake sv Return)"
    unfolding serve_client_handshake_def serve_server_handshake_def by (intro well_read_intros reads_intros)+
qed (use assms(4,5) in simp_all)

theorem serve_handshake_agrees_witness:
  "always_ends ((serve_client_handshake serve_latest Return, fresh_sink 8), (serve_server_handshake (VersionNumber 2 6) Return, fresh_sink 8))
    (\<lambda>((p, b), (q, a)). p = Return (VersionNumber 2 6) \<and> q = Return (VersionNumber 2 6) \<and>
       buffer b = [] \<and> below b = [] \<and> buffer a = [] \<and> below a = [])"
proof -
  have "number_min (VersionNumber 2 6) serve_latest = VersionNumber 2 6"
    by (simp add: number_min_def number_less_def serve_latest_def)
  with serve_handshake_agrees [of serve_latest "VersionNumber 2 6" 8 8] show ?thesis
    by (simp add: serve_latest_def number_less_def)
qed

end
