(* ===== verification/Spec2Isabelle.thy ===== *)
theory Spec2Isabelle
  imports Prelude Base_Encodings Hashes Nix_Strings Canon_Path Store_Path Content_Address Names Serialise Std_Map Source_Accessor Nar_Archive Derivation_ATerm State_Res Derivation_Modulo Derived_Path Wire Derivation_Wire Derivation_Resolve Protocol_Types Worker_Protocol Serve_Protocol Readers Tunnel Connection
begin

text \<open>
  A verification development for Nix Super (a fork of the Nix package manager), over the C++
  sources under \<open>src/src\<close>.
\<close>

end
